(* ===== verification/Prelude.thy ===== *)
theory Prelude
  imports Complex_Main "HOL-Library.Word" "HOL-Library.AList" "HOL-Library.Sublist" "HOL-Library.Multiset"
begin

text \<open>
  What every component of the object store shares: bytes, strings and digests as the
  JavaScript code sees them, the values an exception can be, JavaScript numbers as far as
  the configuration uses them, hexadecimal and decimal rendering, and lemmas on lists that
  several components need.
\<close>

section \<open>Fact collections\<close>

named_theorems fs_simps \<open>how the file-system calls act on the contents of files\<close>
named_theorems db_simps \<open>how the SQL statements act on the tables\<close>
named_theorems frame_simps \<open>parts of the state an operation leaves alone\<close>

section \<open>Bytes, strings, digests\<close>

type_synonym byte = "8 word"
type_synonym bytes = "byte list"

text \<open>
  The digests of \<^verbatim>\<open>node:crypto\<close> are parameters of the model: a SHA-256 digest is a 256-bit
  word, a SHA-1 digest a 160-bit word, whatever function computes them.
\<close>

type_synonym sha256 = "bytes \<Rightarrow> 256 word"
type_synonym sha1 = "bytes \<Rightarrow> 160 word"

definition utf8 :: "string \<Rightarrow> bytes" where
  "utf8 s = map of_char s"

definition digest_bytes :: "256 word \<Rightarrow> bytes" where
  "digest_bytes d = map (\<lambda>i. ucast (drop_bit (248 - 8 * i) d)) [0..<32]"

definition hex_digit :: "nat \<Rightarrow> char" where
  "hex_digit k = ''0123456789abcdef'' ! k"

fun hex_encode :: "bytes \<Rightarrow> string" where
  "hex_encode [] = []"
| "hex_encode (b # bs) =
     hex_digit (unat b div 16) # hex_digit (unat b mod 16) # hex_encode bs"

text \<open>\<^verbatim>\<open>createHash('sha256').update(buf).digest('hex')\<close>.\<close>

definition sha256_hex :: "sha256 \<Rightarrow> bytes \<Rightarrow> string" where
  "sha256_hex sha buf = hex_encode (digest_bytes (sha buf))"

text \<open>
  What a request body can be when it reaches the code: a \<^verbatim>\<open>Buffer\<close>, a string (a body parsed
  as text), or any other value (\<^verbatim>\<open>undefined\<close>, a parsed JSON value).
\<close>

datatype js_value = Buffer bytes | Text string | Other

text \<open>What makes the name of a temporary file: the process id and six random bytes.\<close>

type_synonym nonce = "nat \<times> bytes"

section \<open>Exceptions\<close>

text \<open>
  One datatype for everything that is thrown and crosses a component: the classes the code
  declares, with the fields the code reads, the errors of the SQL engine and of \<^verbatim>\<open>fs\<close>,
  and \<open>Diverges\<close>, the value of a call that never returns.
\<close>

datatype js_error =
    TypeError
  | ChunkIntegrityError string string
  | QuorumWriteError string nat
  | ChunkUnavailableError string nat
  | SqlConstraintError
  | FsError
  | Diverges

section \<open>JavaScript numbers in the configuration\<close>

datatype jsnum = NaN | NegInf | Fin rat | PosInf

definition js_nat :: "nat \<Rightarrow> jsnum" where
  "js_nat k = Fin (of_nat k)"

text \<open>The operator \<^verbatim>\<open><\<close>: every comparison with \<open>NaN\<close> is false.\<close>

fun js_less :: "jsnum \<Rightarrow> jsnum \<Rightarrow> bool" where
  "js_less NaN y = False"
| "js_less x NaN = False"
| "js_less (Fin a) (Fin b) = (a < b)"
| "js_less NegInf y = (y \<noteq> NegInf)"
| "js_less x PosInf = (x \<noteq> PosInf)"
| "js_less x y = False"

text \<open>\<^verbatim>\<open>Math.min\<close> of two numbers.\<close>

fun js_min :: "jsnum \<Rightarrow> jsnum \<Rightarrow> jsnum" where
  "js_min NaN y = NaN"
| "js_min x NaN = NaN"
| "js_min x y = (if js_less y x then y else x)"

lemma js_less_nat [simp]: "js_less (js_nat a) (js_nat b) \<longleftrightarrow> a < b"
  by (simp add: js_nat_def)

lemma js_less_NaN [simp]: "\<not> js_less x NaN"
  by (cases x) auto

lemma js_min_nat [simp]: "js_min (js_nat a) (js_nat b) = js_nat (min a b)"
  by (simp add: js_nat_def min_def)

section \<open>Hexadecimal and decimal text\<close>

lemma length_digest_bytes [simp]: "length (digest_bytes d) = 32"
  by (simp add: digest_bytes_def)

lemma length_hex_encode [simp]: "length (hex_encode bs) = 2 * length bs"
  by (induction bs) auto

definition hex_chars :: "char set" where
  "hex_chars = set ''0123456789abcdef''"

lemma hex_digit_in: "k < 16 \<Longrightarrow> hex_digit k \<in> hex_chars"
  unfolding hex_digit_def hex_chars_def by (rule nth_mem) simp

lemma byte_div_16: "unat (b :: byte) div 16 < 16"
proof -
  have "unat b < 256" using unsigned_less [of b] by simp
  then show ?thesis by simp
qed

lemma set_hex_encode: "set (hex_encode bs) \<subseteq> hex_chars"
  by (induction bs) (auto simp: byte_div_16 intro!: hex_digit_in)

text \<open>The path check of the chunk store, \<^verbatim>\<open>/^[0-9a-f]{64}$/\<close>.\<close>

definition valid_hash :: "string \<Rightarrow> bool" where
  "valid_hash h \<longleftrightarrow> length h = 64 \<and> list_all (\<lambda>c. c \<in> hex_chars) h"

lemma valid_sha256_hex [simp]: "valid_hash (sha256_hex sha buf)"
  using set_hex_encode [of "digest_bytes (sha buf)"]
  by (auto simp: valid_hash_def sha256_hex_def list_all_iff)

text \<open>
  \<^verbatim>\<open>Buffer.from(s, 'hex')\<close>: digits of either case in pairs, up to the first pair that is not
  hexadecimal; what follows is dropped, and so is an odd last digit.
\<close>

definition hex_value :: "char \<Rightarrow> nat option" where
  "hex_value c =
     (let k = of_char c :: nat
      in if 48 \<le> k \<and> k \<le> 57 then Some (k - 48)
         else if 97 \<le> k \<and> k \<le> 102 then Some (k - 87)
         else if 65 \<le> k \<and> k \<le> 70 then Some (k - 55)
         else None)"

fun hex_decode :: "string \<Rightarrow> bytes" where
  "hex_decode (c # d # s) =
     (case (hex_value c, hex_value d) of
        (Some x, Some y) \<Rightarrow> word_of_nat (16 * x + y) # hex_decode s
      | _ \<Rightarrow> [])"
| "hex_decode s = []"

lemma hex_value_digit:
  assumes "k < 16"
  shows "hex_value (hex_digit k) = Some k"
proof -
  from assms have "k \<in> {0, 1, 2, 3, 4, 5, 6, 7, 8, 9, 10, 11, 12, 13, 14, 15}"
    by (simp only: insert_iff empty_iff) arith
  then show ?thesis
    by (elim insertE) (simp_all add: hex_value_def hex_digit_def)
qed

lemma hex_decode_encode_append: "hex_decode (hex_encode bs @ s) = bs @ hex_decode s"
proof (induction bs)
  case Nil
  show ?case by simp
next
  case (Cons b bs)
  have "16 * (unat b div 16) + unat b mod 16 = unat b" by simp
  moreover have "(word_of_nat (unat b) :: byte) = b" by simp
  ultimately have "(word_of_nat (16 * (unat b div 16) + unat b mod 16) :: byte) = b"
    by (simp only:)
  with Cons show ?case
    by (simp add: hex_value_digit byte_div_16 del: of_nat_add of_nat_mult)
qed

lemma hex_decode_encode [simp]: "hex_decode (hex_encode bs) = bs"
  using hex_decode_encode_append [of bs "[]"] by simp

lemma digest_bit:
  fixes d :: "256 word"
  assumes "n < 256"
  shows "bit d n \<longleftrightarrow> bit (digest_bytes d ! (31 - n div 8)) (n mod 8)"
proof -
  have "n div 8 \<le> 31" using assms by simp
  then have "248 - 8 * (31 - n div 8) = 8 * (n div 8)" by simp
  then have "248 - 8 * (31 - n div 8) + n mod 8 = n" by simp
  moreover have "[0..<32] ! (31 - n div 8) = 31 - n div 8" by (subst nth_upt) auto
  ultimately show ?thesis using assms by (simp add: digest_bytes_def bit_simps)
qed

lemma digest_bytes_inject [simp]: "digest_bytes c = digest_bytes d \<longleftrightarrow> c = d"
proof
  assume eq: "digest_bytes c = digest_bytes d"
  show "c = d" by (rule bit_word_eqI) (simp add: digest_bit eq)
qed simp

lemma sha256_hex_inject [simp]: "sha256_hex sha a = sha256_hex sha' b \<longleftrightarrow> sha a = sha' b"
  unfolding sha256_hex_def by (metis digest_bytes_inject hex_decode_encode)

text \<open>A number in a template literal, for a number that is a natural.\<close>

fun decimal :: "nat \<Rightarrow> string" where
  "decimal k = (if k < 10 then [''0123456789'' ! k]
                else decimal (k div 10) @ [''0123456789'' ! (k mod 10)])"

declare decimal.simps [simp del]

section \<open>First occurrences\<close>

text \<open>A list with every element kept at its first occurrence, as a \<^verbatim>\<open>Set\<close> iterates.\<close>

fun firsts :: "'a list \<Rightarrow> 'a list" where
  "firsts [] = []"
| "firsts (x # xs) = x # filter (\<lambda>y. y \<noteq> x) (firsts xs)"

lemma set_firsts [simp]: "set (firsts xs) = set xs"
  by (induction xs) auto

lemma distinct_firsts [simp]: "distinct (firsts xs)"
  by (induction xs) auto

lemma firsts_filter: "firsts (filter P xs) = filter P (firsts xs)"
  by (induction xs) (auto simp: conj_commute intro!: filter_cong)

lemma firsts_append: "firsts (xs @ ys) = firsts xs @ filter (\<lambda>y. y \<notin> set xs) (firsts ys)"
  by (induction xs) (auto simp: conj_commute intro!: filter_cong)

lemma firsts_snoc: "firsts (xs @ [x]) = (if x \<in> set xs then firsts xs else firsts xs @ [x])"
  by (auto simp: firsts_append)

lemma firsts_distinct [simp]: "distinct xs \<Longrightarrow> firsts xs = xs"
proof (induction xs)
  case Nil
  show ?case by simp
next
  case (Cons x xs)
  then have "filter (\<lambda>y. y \<noteq> x) xs = xs" by (auto intro!: filter_True)
  with Cons show ?case by simp
qed

lemma length_firsts: "length (firsts xs) = card (set xs)"
  by (metis distinct_card distinct_firsts set_firsts)

text \<open>Removing one element from a truncated list only lets later elements move up.\<close>

lemma filter_take_prefix: "prefix (filter P (take k xs)) (take k (filter P xs))"
proof (induction xs arbitrary: k)
  case Nil
  show ?case by simp
next
  case (Cons x xs)
  show ?case
  proof (cases k)
    case 0
    then show ?thesis by simp
  next
    case (Suc j)
    have "prefix (filter P (take j xs)) (take (Suc j) (filter P xs))"
      using Cons.IH [of j] prefix_order.order_trans
      by (metis prefix_def take_add Suc_eq_plus1)
    with Cons.IH [of j] Suc show ?thesis by simp
  qed
qed

lemma length_filter_neq:
  "distinct xs \<Longrightarrow> length (filter (\<lambda>y. y \<noteq> x) xs) = length xs - (if x \<in> set xs then 1 else 0)"
proof (induction xs)
  case Nil
  show ?case by simp
next
  case (Cons a xs)
  show ?case
  proof (cases "a = x")
    case True
    with Cons.prems have "filter (\<lambda>y. y \<noteq> x) xs = xs" by (auto intro!: filter_True)
    with True show ?thesis by simp
  next
    case False
    with Cons show ?thesis by (auto dest: length_pos_if_in_set)
  qed
qed

lemma take_without:
  assumes "distinct xs"
  shows "\<exists>ys. take k (filter (\<lambda>y. y \<noteq> x) xs) = filter (\<lambda>y. y \<noteq> x) (take k xs) @ ys
    \<and> length ys \<le> 1 \<and> (x \<notin> set (take k xs) \<longrightarrow> ys = [])"
proof -
  obtain ys where ys: "take k (filter (\<lambda>y. y \<noteq> x) xs) = filter (\<lambda>y. y \<noteq> x) (take k xs) @ ys"
    using filter_take_prefix [of "\<lambda>y. y \<noteq> x" k xs] by (auto simp: prefix_def)
  have "length (filter (\<lambda>y. y \<noteq> x) xs) \<le> length xs" by simp
  then have "length (take k (filter (\<lambda>y. y \<noteq> x) xs)) \<le> length (take k xs)"
    by (simp only: length_take min.mono order_refl)
  then have "length (filter (\<lambda>y. y \<noteq> x) (take k xs)) + length ys \<le> length (take k xs)"
    unfolding ys by (simp only: length_append)
  moreover have "length (filter (\<lambda>y. y \<noteq> x) (take k xs))
      = length (take k xs) - (if x \<in> set (take k xs) then 1 else 0)"
    using assms by (intro length_filter_neq) simp
  ultimately have "length ys \<le> (if x \<in> set (take k xs) then 1 else 0)"
    by (cases "x \<in> set (take k xs)") (simp_all del: length_take)
  then have "length ys \<le> 1" and "x \<notin> set (take k xs) \<longrightarrow> ys = []"
    by (simp_all split: if_splits)
  with ys show ?thesis by blast
qed

lemma count_list_replicate: "count_list (replicate k x) y = (if y = x then k else 0)"
  by (induction k) auto

lemma count_list_pos: "0 < count_list xs x \<Longrightarrow> x \<in> set xs"
  by (rule ccontr) simp

lemma count_sort_key: "count_list (map f (sort_key g xs)) y = count_list (map f xs) y"
  by (simp flip: count_mset)

text \<open>Searching and counting in a list of rows with a key.\<close>

lemma find_by_key:
  assumes "distinct (map f xs)"
  shows "find (\<lambda>y. f y = k) xs = Some x \<longleftrightarrow> x \<in> set xs \<and> f x = k"
  using assms by (induction xs) force+

lemma find_key_None: "find (\<lambda>y. f y = k) xs = None \<longleftrightarrow> k \<notin> f ` set xs"
  by (induction xs) auto

lemma count_list_partition:
  "count_list (map f xs) h
    = count_list (map f (filter P xs)) h + count_list (map f (filter (\<lambda>x. \<not> P x) xs)) h"
  by (induction xs) auto

lemma sum_list_point:
  "distinct ks \<Longrightarrow> (\<Sum>k\<leftarrow>ks. (c k :: nat) + (if k = x then d else 0))
    = (\<Sum>k\<leftarrow>ks. c k) + (if x \<in> set ks then d else 0)"
  by (induction ks) auto

text \<open>Counting by groups: every row belongs to one of the distinct keys.\<close>

lemma count_list_groups:
  assumes "distinct ks" and "key ` set ms \<subseteq> set ks"
  shows "(\<Sum>k\<leftarrow>ks. count_list (map f (filter (\<lambda>m. key m = k) ms)) h) = count_list (map f ms) h"
  using assms(2)
proof (induction ms)
  case (Cons m ms)
  have "(\<Sum>k\<leftarrow>ks. count_list (map f (filter (\<lambda>n. key n = k) (m # ms))) h)
    = (\<Sum>k\<leftarrow>ks. count_list (map f (filter (\<lambda>n. key n = k) ms)) h
        + (if k = key m then if f m = h then 1 else 0 else 0))"
    by (intro arg_cong [where f = sum_list] map_cong) auto
  also have "\<dots> = count_list (map f ms) h + (if f m = h then 1 else 0)"
    using Cons assms(1) by (subst sum_list_point) simp_all
  finally show ?case by simp
qed simp

end
