(* ===== verification/Chunker.thy ===== *)
theory Chunker
  imports Prelude
begin

text \<open>
  \<^verbatim>\<open>src/chunker.js\<close>: a buffer is cut into chunks of a fixed size, each named by the SHA-256
  digest of its bytes. The loop is modelled as a partial function, because with a chunk size
  of 0 the code does not stop; \<open>blocks\<close> is the reference it is compared with.
\<close>

section \<open>The code\<close>

record chunk =
  chunk_sha :: string
  chunk_size :: nat
  chunk_data :: bytes
  chunk_seq :: nat

definition DEFAULT_CHUNK_SIZE :: nat where
  "DEFAULT_CHUNK_SIZE = 256 * 1024"

definition hashChunk :: "sha256 \<Rightarrow> bytes \<Rightarrow> string" where
  "hashChunk sha buf = sha256_hex sha buf"

definition subarray :: "bytes \<Rightarrow> nat \<Rightarrow> nat \<Rightarrow> bytes" where
  "subarray buf i j = take (j - i) (drop i buf)"

partial_function (option) chunk_loop ::
  "sha256 \<Rightarrow> bytes \<Rightarrow> nat \<Rightarrow> nat \<Rightarrow> chunk list \<Rightarrow> chunk list option" where
  "chunk_loop sha buf chunkSize offset chunks =
     (if offset < length buf then
        let slice = subarray buf offset (min (offset + chunkSize) (length buf))
        in chunk_loop sha buf chunkSize (offset + chunkSize)
             (chunks @ [\<lparr>chunk_sha = hashChunk sha slice, chunk_size = length slice,
                         chunk_data = slice, chunk_seq = length chunks\<rparr>])
      else Some chunks)"

text \<open>\<open>None\<close>: the call does not return.\<close>

definition chunkBuffer :: "sha256 \<Rightarrow> js_value \<Rightarrow> nat \<Rightarrow> (js_error + chunk list) option" where
  "chunkBuffer sha v chunkSize =
     (case v of
        Buffer buf \<Rightarrow> map_option Inr (chunk_loop sha buf chunkSize 0 [])
      | _ \<Rightarrow> Some (Inl TypeError))"

section \<open>The reference\<close>

function blocks :: "nat \<Rightarrow> bytes \<Rightarrow> bytes list" where
  "blocks k buf = (if k = 0 \<or> buf = [] then [] else take k buf # blocks k (drop k buf))"
  by pat_completeness auto
termination
  by (relation "measure (\<lambda>(k, buf). length buf)") auto

declare blocks.simps [simp del]

lemma blocks_Nil [simp]: "blocks k [] = []"
  by (simp add: blocks.simps)

lemma blocks_step: "0 < k \<Longrightarrow> buf \<noteq> [] \<Longrightarrow> blocks k buf = take k buf # blocks k (drop k buf)"
  by (subst blocks.simps) simp

fun numbered :: "sha256 \<Rightarrow> nat \<Rightarrow> bytes list \<Rightarrow> chunk list" where
  "numbered sha s [] = []"
| "numbered sha s (b # bs) =
     \<lparr>chunk_sha = hashChunk sha b, chunk_size = length b, chunk_data = b, chunk_seq = s\<rparr>
       # numbered sha (Suc s) bs"

lemma map_numbered [simp]:
  "map chunk_data (numbered sha s bs) = bs"
  "map chunk_sha (numbered sha s bs) = map (hashChunk sha) bs"
  "map chunk_size (numbered sha s bs) = map length bs"
  "map chunk_seq (numbered sha s bs) = [s..<s + length bs]"
  by (induction bs arbitrary: s) (simp_all add: upt_conv_Cons del: upt_Suc)

lemma length_numbered [simp]: "length (numbered sha s bs) = length bs"
  by (induction bs arbitrary: s) simp_all

lemma concat_blocks: "0 < k \<Longrightarrow> concat (blocks k buf) = buf"
proof (induction k buf rule: blocks.induct)
  case (1 k buf)
  then show ?case by (cases "buf = []") (simp_all add: blocks_step)
qed

lemma blocks_append:
  assumes "0 < k" and "k dvd length a"
  shows "blocks k (a @ b) = blocks k a @ blocks k b"
  using assms
proof (induction k a rule: blocks.induct)
  case (1 k a)
  show ?case
  proof (cases "a = []")
    case True
    then show ?thesis by simp
  next
    case False
    from 1 False have le: "k \<le> length a" by (auto intro: dvd_imp_le)
    with 1 have "k dvd length (drop k a)" by (simp add: dvd_diff_nat)
    with 1 False have "blocks k (drop k a @ b) = blocks k (drop k a) @ blocks k b" by simp
    with le False 1 show ?thesis by (simp add: blocks_step)
  qed
qed

lemma blocks_bounds: "b \<in> set (blocks k buf) \<Longrightarrow> 0 < length b \<and> length b \<le> k"
proof (induction k buf rule: blocks.induct)
  case (1 k buf)
  then show ?case by (cases "k = 0 \<or> buf = []") (auto simp: blocks.simps [of k buf])
qed

lemma blocks_full: "Suc i < length (blocks k buf) \<Longrightarrow> length (blocks k buf ! i) = k"
proof (induction k buf arbitrary: i rule: blocks.induct)
  case (1 k buf)
  then have ne: "\<not> (k = 0 \<or> buf = [])"
    by (cases "k = 0 \<or> buf = []") (simp_all add: blocks.simps [of k buf])
  then have eq: "blocks k buf = take k buf # blocks k (drop k buf)" by (auto simp: blocks_step)
  show ?case
  proof (cases i)
    case 0
    with 1(2) eq have "drop k buf \<noteq> []" by auto
    with 0 eq show ?thesis by simp
  next
    case (Suc j)
    with 1 ne eq show ?thesis by simp
  qed
qed

section \<open>The loop computes the reference\<close>

lemma chunk_loop_blocks:
  assumes "0 < chunkSize"
  shows "chunk_loop sha buf chunkSize offset acc =
           Some (acc @ numbered sha (length acc) (blocks chunkSize (drop offset buf)))"
proof (induction "length buf - offset" arbitrary: offset acc rule: less_induct)
  case less
  show ?case
  proof (cases "offset < length buf")
    case False
    then show ?thesis by (subst chunk_loop.simps) simp
  next
    case True
    let ?s = "take chunkSize (drop offset buf)"
    let ?acc = "acc @ [\<lparr>chunk_sha = hashChunk sha ?s, chunk_size = length ?s,
                         chunk_data = ?s, chunk_seq = length acc\<rparr>]"
    from True assms have "length buf - (offset + chunkSize) < length buf - offset" by simp
    from less [OF this, of ?acc] have ih:
      "chunk_loop sha buf chunkSize (offset + chunkSize) ?acc =
         Some (?acc @ numbered sha (length ?acc)
                 (blocks chunkSize (drop (offset + chunkSize) buf)))" .
    have slice: "subarray buf offset (min (offset + chunkSize) (length buf)) = ?s"
      by (simp add: subarray_def min_def)
    from True assms have bl: "blocks chunkSize (drop offset buf) =
        ?s # blocks chunkSize (drop (offset + chunkSize) buf)"
      by (simp add: blocks_step add.commute)
    show ?thesis
      by (subst chunk_loop.simps) (simp only: slice Let_def True if_True ih bl numbered.simps,
        simp)
  qed
qed

lemma chunkBuffer_blocks:
  "0 < k \<Longrightarrow> chunkBuffer sha (Buffer buf) k = Some (Inr (numbered sha 0 (blocks k buf)))"
  by (simp add: chunkBuffer_def chunk_loop_blocks)

lemma DEFAULT_CHUNK_SIZE_pos [simp]: "0 < DEFAULT_CHUNK_SIZE"
  by (simp add: DEFAULT_CHUNK_SIZE_def)

lemma length_blocks: "0 < k \<Longrightarrow> length (blocks k buf) = (length buf + (k - 1)) div k"
proof (induction k buf rule: blocks.induct)
  case (1 k buf)
  show ?case
  proof (cases "buf = []")
    case True
    with 1 show ?thesis by simp
  next
    case False
    show ?thesis
    proof (cases "k \<le> length buf")
      case True
      with False 1 have "length (blocks k buf) = Suc ((length buf - k + (k - 1)) div k)"
        by (simp add: blocks_step)
      also have "\<dots> = (length buf + (k - 1)) div k"
        using True 1 by (simp add: div_if)
      finally show ?thesis .
    next
      case short: False
      with False 1 have "length (blocks k buf) = 1" by (simp add: blocks_step)
      also have "1 = (length buf + (k - 1)) div k"
        using short False 1(2) by (cases buf) (auto simp: div_if)
      finally show ?thesis .
    qed
  qed
qed

lemma chunk_loop_zero:
  assumes "chunk_loop sha buf k offset acc = Some cs"
  shows "k = 0 \<longrightarrow> length buf \<le> offset"
proof (rule chunk_loop.raw_induct [where P = "\<lambda>sha buf k offset acc cs. k = 0 \<longrightarrow> length buf \<le> offset",
      OF _ assms])
  fix loop sha buf k offset acc cs
  assume ih: "\<And>sha buf k offset acc cs. loop sha buf k offset acc = Some cs \<Longrightarrow>
      k = 0 \<longrightarrow> length buf \<le> offset"
    and eq: "(if offset < length buf then
        let slice = subarray buf offset (min (offset + k) (length buf))
        in loop sha buf k (offset + k)
             (acc @ [\<lparr>chunk_sha = hashChunk sha slice, chunk_size = length slice,
                      chunk_data = slice, chunk_seq = length acc\<rparr>])
      else Some acc) = Some cs"
  show "k = 0 \<longrightarrow> length buf \<le> offset"
  proof (cases "offset < length buf")
    case True
    with eq obtain acc' where "loop sha buf k (offset + k) acc' = Some cs"
      by (auto simp: Let_def)
    from ih [OF this] show ?thesis by auto
  qed auto
qed

section \<open>Properties\<close>

text \<open>
  C19: with a positive chunk size, cutting a buffer always returns; the chunks in order are
  the buffer again, they are numbered from 0, there are as many as the length divided by the
  chunk size rounded up, each carries its own length and the hash of its own bytes, none is
  empty or longer than the chunk size, and only the last can be shorter.
\<close>

theorem chunkBuffer_correct:
  assumes "0 < k"
  shows "\<exists>cs. chunkBuffer sha (Buffer buf) k = Some (Inr cs)
    \<and> concat (map chunk_data cs) = buf
    \<and> map chunk_seq cs = [0..<length cs]
    \<and> length cs = (length buf + (k - 1)) div k
    \<and> map chunk_sha cs = map (hashChunk sha \<circ> chunk_data) cs
    \<and> map chunk_size cs = map (length \<circ> chunk_data) cs
    \<and> (\<forall>c \<in> set cs. 0 < chunk_size c \<and> chunk_size c \<le> k)
    \<and> (\<forall>i. Suc i < length cs \<longrightarrow> chunk_size (cs ! i) = k)"
proof -
  let ?bs = "blocks k buf" and ?cs = "numbered sha 0 (blocks k buf)"
  have sizes: "map chunk_size ?cs = map length ?bs" by simp
  have bounds: "\<forall>c \<in> set ?cs. 0 < chunk_size c \<and> chunk_size c \<le> k"
  proof
    fix c assume "c \<in> set ?cs"
    then have "chunk_size c \<in> set (map chunk_size ?cs)" by (simp only: set_map imageI)
    then have "chunk_size c \<in> set (map length ?bs)" by (simp only: sizes)
    then show "0 < chunk_size c \<and> chunk_size c \<le> k" by (auto dest: blocks_bounds)
  qed
  have full: "\<forall>i. Suc i < length ?cs \<longrightarrow> chunk_size (?cs ! i) = k"
  proof (intro allI impI)
    fix i assume i: "Suc i < length ?cs"
    then have "chunk_size (?cs ! i) = map chunk_size ?cs ! i" by (simp only: nth_map)
    also have "\<dots> = length (?bs ! i)" using i unfolding sizes by simp
    finally show "chunk_size (?cs ! i) = k" using i by (simp add: blocks_full)
  qed
  show ?thesis
    using assms bounds full
    by (intro exI [of _ ?cs])
      (simp add: chunkBuffer_blocks concat_blocks length_blocks
        flip: list.map_comp)
qed

theorem chunkBuffer_correct_witness:
  "\<exists>cs. chunkBuffer (\<lambda>_. 7) (Buffer [1, 2, 3]) 2 = Some (Inr cs)
    \<and> concat (map chunk_data cs) = [1, 2, 3] \<and> length cs = 2"
  using chunkBuffer_correct [of 2 "\<lambda>_. 7" "[1, 2, 3]"] by auto

text \<open>
  The loop fails to return exactly when the chunk size is 0 and there is a byte to cut;
  a value that is not a buffer is refused before the loop.
\<close>

theorem chunkBuffer_returns_iff:
  "chunkBuffer sha v k = None \<longleftrightarrow> k = 0 \<and> (\<exists>b bs. v = Buffer (b # bs))"
proof (cases v)
  case (Buffer buf)
  show ?thesis
  proof (cases "k = 0")
    case True
    have "chunk_loop sha buf 0 0 [] = None" if "buf \<noteq> []"
      using chunk_loop_zero [of sha buf 0 0 "[]"] that
      by (cases "chunk_loop sha buf 0 0 []") auto
    moreover have "chunk_loop sha buf 0 0 [] = Some []" if "buf = []"
      using that by (subst chunk_loop.simps) simp
    ultimately show ?thesis using True Buffer by (cases buf) (simp_all add: chunkBuffer_def)
  next
    case False
    with Buffer show ?thesis by (simp add: chunkBuffer_blocks)
  qed
qed (simp_all add: chunkBuffer_def)

text \<open>
  The basis of deduplication. Where a file starts with whole chunks, its manifest is the
  manifest of that part followed by the manifest of the rest, so files that share an aligned
  run of bytes share the hashes of that run.
\<close>

theorem chunkBuffer_shared_runs:
  assumes "0 < k" and "k dvd length a"
    and "chunkBuffer sha (Buffer a) k = Some (Inr ca)"
    and "chunkBuffer sha (Buffer b) k = Some (Inr cb)"
  shows "\<exists>c. chunkBuffer sha (Buffer (a @ b)) k = Some (Inr c)
    \<and> map chunk_sha c = map chunk_sha ca @ map chunk_sha cb"
  using assms by (auto simp: chunkBuffer_blocks blocks_append)

theorem chunkBuffer_shared_runs_witness:
  "\<exists>c. chunkBuffer (\<lambda>_. 7) (Buffer ([1, 2] @ [3])) 2 = Some (Inr c)
    \<and> map chunk_sha c = map (hashChunk (\<lambda>_. 7)) [[1, 2]] @ map (hashChunk (\<lambda>_. 7)) [[3]]"
  using chunkBuffer_shared_runs [of 2 "[1, 2]" "\<lambda>_. 7"
      "numbered (\<lambda>_. 7) 0 (blocks 2 [1, 2])" "[3]" "numbered (\<lambda>_. 7) 0 (blocks 2 [3])"]
  by (simp add: chunkBuffer_blocks blocks_step)

end
