(* ===== verification/GcInterface.thy ===== *)
theory GcInterface
  imports Prelude
begin

text \<open>
  The two interfaces the garbage collector works against: the table of counts it asks for
  unreferenced chunks, and the deletion of a chunk from its replicas.
\<close>

section \<open>The counts\<close>

text \<open>
  \<open>known db\<close> are the chunks with a row, \<open>refs db h\<close> the references to a chunk, \<open>view db\<close>
  everything a reader of files and versions can see.
\<close>

locale refcount_table =
  fixes orphans :: "'db \<Rightarrow> string list"
    and reap :: "string \<Rightarrow> 'db \<Rightarrow> 'db"
    and db_ok :: "'db \<Rightarrow> bool"
    and refs :: "'db \<Rightarrow> string \<Rightarrow> nat"
    and known :: "'db \<Rightarrow> string set"
    and view :: "'db \<Rightarrow> 'v"
  assumes set_orphans: "db_ok db \<Longrightarrow> set (orphans db) = {h \<in> known db. refs db h = 0}"
    and distinct_orphans: "db_ok db \<Longrightarrow> distinct (orphans db)"
    and reap_ok: "db_ok db \<Longrightarrow> refs db h = 0 \<Longrightarrow> db_ok (reap h db)"
    and reap_refs: "refs (reap h db) = refs db"
    and reap_known: "known (reap h db) = known db - {h}"
    and reap_view: "view (reap h db) = view db"
begin

lemma reaped_orphans:
  "db_ok db \<Longrightarrow> refs db h = 0 \<Longrightarrow> set (orphans (reap h db)) = set (orphans db) - {h}"
  using reap_ok [of db h] by (auto simp: set_orphans reap_refs reap_known)

end

section \<open>The replicas\<close>

text \<open>
  A delete may reach only some of the nodes. \<open>reached h\<close> are the nodes that carry the delete
  of \<open>h\<close> out, \<open>answers w h\<close> says that at least one of them says so, \<open>placed h\<close> that the
  replicas of \<open>h\<close> can be computed.
\<close>

locale chunk_deleter =
  fixes del :: "string \<Rightarrow> 'w \<Rightarrow> (js_error + nat) \<times> 'w"
    and w_ok :: "'w \<Rightarrow> bool"
    and copies :: "'w \<Rightarrow> 'node \<Rightarrow> string \<Rightarrow> bytes option"
    and reached :: "string \<Rightarrow> 'node set"
    and answers :: "'w \<Rightarrow> string \<Rightarrow> bool"
    and placed :: "string \<Rightarrow> bool"
  assumes del_ok: "w_ok w \<Longrightarrow> valid_hash h \<Longrightarrow> del h w = (r, w') \<Longrightarrow> w_ok w'"
    and del_others: "w_ok w \<Longrightarrow> valid_hash h \<Longrightarrow> del h w = (r, w') \<Longrightarrow> g \<noteq> h
      \<Longrightarrow> copies w' x g = copies w x g"
    and del_shrinks: "w_ok w \<Longrightarrow> valid_hash h \<Longrightarrow> del h w = (r, w')
      \<Longrightarrow> copies w' x h = None \<or> copies w' x h = copies w x h"
    and del_reached: "w_ok w \<Longrightarrow> valid_hash h \<Longrightarrow> del h w = (r, w') \<Longrightarrow> x \<in> reached h
      \<Longrightarrow> copies w' x h = None"
    and del_unreached: "w_ok w \<Longrightarrow> valid_hash h \<Longrightarrow> del h w = (r, w') \<Longrightarrow> reached h = {}
      \<Longrightarrow> copies w' x h = copies w x h"
    and del_result: "w_ok w \<Longrightarrow> valid_hash h \<Longrightarrow> placed h \<Longrightarrow> del h w = (r, w')
      \<Longrightarrow> \<exists>k. r = Inr k \<and> (0 < k \<longleftrightarrow> answers w h)"
    and del_answers: "w_ok w \<Longrightarrow> valid_hash h \<Longrightarrow> del h w = (r, w') \<Longrightarrow> answers w' = answers w"
begin

lemma del_returns:
  assumes "w_ok w" and "valid_hash h" and "placed h"
  obtains k w' where "del h w = (Inr k, w')" "0 < k \<longleftrightarrow> answers w h"
  using del_result [OF assms] by (metis surj_pair)

end

end
