(* ===== verification/HashRing.thy ===== *)
theory HashRing
  imports Prelude "HOL-Library.Multiset"
begin

text \<open>
  \<^verbatim>\<open>src/hashRing.js\<close>: the consistent hash ring. Positions are 32-bit words, the array is
  sorted by position with a stable sort, the search is the code's binary search with its
  32-bit midpoint, and the walk is the code's loop. \<open>clockwise\<close> is the abstract order in
  which the ring is read.
\<close>

section \<open>The code\<close>

record ring_entry =
  position :: "32 word"
  entry_node :: string

record hash_ring =
  vnodesPerNode :: nat
  ring_entries :: "ring_entry list"
  ring_nodes :: "string list"

text \<open>The first four bytes of the SHA-1 digest, read big-endian.\<close>

definition positionFor :: "sha1 \<Rightarrow> string \<Rightarrow> 32 word" where
  "positionFor sha1 key = ucast (drop_bit 128 (sha1 (utf8 key)))"

definition new_ring :: "nat \<Rightarrow> hash_ring" where
  "new_ring k = \<lparr>vnodesPerNode = k, ring_entries = [], ring_nodes = []\<rparr>"

definition vnodes :: "sha1 \<Rightarrow> nat \<Rightarrow> string \<Rightarrow> ring_entry list" where
  "vnodes sha1 k x =
     map (\<lambda>i. \<lparr>position = positionFor sha1 (x @ ''#vnode'' @ decimal i), entry_node = x\<rparr>) [0..<k]"

definition addNode :: "sha1 \<Rightarrow> string \<Rightarrow> hash_ring \<Rightarrow> hash_ring" where
  "addNode sha1 x r =
     (if x \<in> set (ring_nodes r) then r
      else r\<lparr>ring_nodes := ring_nodes r @ [x],
             ring_entries :=
               sort_key position (ring_entries r @ vnodes sha1 (vnodesPerNode r) x)\<rparr>)"

definition removeNode :: "string \<Rightarrow> hash_ring \<Rightarrow> hash_ring" where
  "removeNode x r =
     (if x \<notin> set (ring_nodes r) then r
      else r\<lparr>ring_nodes := filter (\<lambda>y. y \<noteq> x) (ring_nodes r),
             ring_entries := filter (\<lambda>e. entry_node e \<noteq> x) (ring_entries r)\<rparr>)"

definition ring_size :: "hash_ring \<Rightarrow> nat" where
  "ring_size r = length (ring_nodes r)"

text \<open>\<^verbatim>\<open>(lo + hi) >>> 1\<close> converts the sum to an unsigned 32-bit integer first.\<close>

definition midpoint :: "nat \<Rightarrow> nat \<Rightarrow> nat" where
  "midpoint lo hi = unat (drop_bit 1 (word_of_nat (lo + hi) :: 32 word))"

partial_function (option) ring_search ::
  "ring_entry list \<Rightarrow> 32 word \<Rightarrow> nat \<Rightarrow> nat \<Rightarrow> nat option" where
  "ring_search es pos lo hi =
     (if lo < hi then
        let mid = midpoint lo hi
        in if position (es ! mid) < pos then ring_search es pos (mid + 1) hi
           else ring_search es pos lo mid
      else Some lo)"

function walk_loop ::
  "ring_entry list \<Rightarrow> nat \<Rightarrow> jsnum \<Rightarrow> nat \<Rightarrow> string set \<Rightarrow> string list \<Rightarrow> string list" where
  "walk_loop es startIdx replicaCount i seen res =
     (if i < length es \<and> js_less (js_nat (length res)) replicaCount then
        let e = es ! ((startIdx + i) mod length es)
        in if entry_node e \<notin> seen
           then walk_loop es startIdx replicaCount (i + 1)
                  (insert (entry_node e) seen) (res @ [entry_node e])
           else walk_loop es startIdx replicaCount (i + 1) seen res
      else res)"
  by pat_completeness auto
termination
  by (relation "measure (\<lambda>(es, st, rc, i, seen, res). length es - i)") auto

declare walk_loop.simps [simp del]

text \<open>\<open>None\<close>: the search does not return.\<close>

definition preferenceList :: "sha1 \<Rightarrow> hash_ring \<Rightarrow> string \<Rightarrow> jsnum \<Rightarrow> string list option" where
  "preferenceList sha1 r key replicaCount =
     (if ring_entries r = [] then Some []
      else case ring_search (ring_entries r) (positionFor sha1 key) 0 (length (ring_entries r)) of
        None \<Rightarrow> None
      | Some lo \<Rightarrow>
          Some (walk_loop (ring_entries r)
            (if lo = length (ring_entries r) then 0 else lo) replicaCount 0 {} []))"

section \<open>The abstract ring\<close>

definition clockwise :: "32 word \<Rightarrow> ring_entry list \<Rightarrow> ring_entry list" where
  "clockwise pos es =
     filter (\<lambda>e. pos \<le> position e) es @ filter (\<lambda>e. position e < pos) es"

text \<open>All nodes in the order in which the walk meets them.\<close>

definition node_order :: "sha1 \<Rightarrow> hash_ring \<Rightarrow> string \<Rightarrow> string list" where
  "node_order sha1 r key =
     firsts (map entry_node (clockwise (positionFor sha1 key) (ring_entries r)))"

definition ring_wf :: "hash_ring \<Rightarrow> bool" where
  "ring_wf r \<longleftrightarrow>
     sorted (map position (ring_entries r))
     \<and> distinct (ring_nodes r)
     \<and> entry_node ` set (ring_entries r) \<subseteq> set (ring_nodes r)
     \<and> (\<forall>x \<in> set (ring_nodes r). count_list (map entry_node (ring_entries r)) x = vnodesPerNode r)"

text \<open>Twice the largest index still fits the 32 bits of the midpoint.\<close>

definition ring_fits :: "hash_ring \<Rightarrow> bool" where
  "ring_fits r \<longleftrightarrow> length (ring_entries r) < 2 ^ 31"

section \<open>The binary search\<close>

lemma midpoint_eq:
  assumes "lo < hi" and "hi < 2 ^ 31"
  shows "midpoint lo hi = (lo + hi) div 2"
proof -
  have "unat (word_of_nat (lo + hi) :: 32 word) = lo + hi"
    using assms by (simp add: unsigned_of_nat take_bit_nat_eq_self del: of_nat_add)
  then show ?thesis unfolding midpoint_def
    by (simp only: unat_drop_bit_eq) (simp add: drop_bit_Suc)
qed

lemma ring_search_spec:
  assumes "sorted (map position es)" and "lo \<le> hi" and "hi \<le> length es" and "length es < 2 ^ 31"
    and "\<forall>j < lo. position (es ! j) < pos"
    and "\<forall>j. hi \<le> j \<longrightarrow> j < length es \<longrightarrow> pos \<le> position (es ! j)"
  shows "\<exists>i \<le> length es. ring_search es pos lo hi = Some i
    \<and> (\<forall>j < i. position (es ! j) < pos)
    \<and> (\<forall>j. i \<le> j \<longrightarrow> j < length es \<longrightarrow> pos \<le> position (es ! j))"
  using assms
proof (induction "hi - lo" arbitrary: lo hi rule: less_induct)
  case less
  show ?case
  proof (cases "lo < hi")
    case False
    with less.prems show ?thesis by (subst ring_search.simps) auto
  next
    case True
    let ?mid = "(lo + hi) div 2"
    have mono: "position (es ! j) \<le> position (es ! l)" if "j \<le> l" "l < length es" for j l
      using sorted_nth_mono [OF less.prems(1), of j l] that by simp
    have mid: "midpoint lo hi = ?mid" using True less.prems by (intro midpoint_eq) auto
    have range: "lo \<le> ?mid" "?mid < hi" "?mid < length es" using True less.prems by auto
    show ?thesis
    proof (cases "position (es ! ?mid) < pos")
      case below: True
      have "\<forall>j < ?mid + 1. position (es ! j) < pos"
      proof (intro allI impI)
        fix j assume "j < ?mid + 1"
        then have "position (es ! j) \<le> position (es ! ?mid)" using range(3) by (intro mono) auto
        also note below
        finally show "position (es ! j) < pos" .
      qed
      then have "\<exists>i \<le> length es. ring_search es pos (?mid + 1) hi = Some i
          \<and> (\<forall>j < i. position (es ! j) < pos)
          \<and> (\<forall>j. i \<le> j \<longrightarrow> j < length es \<longrightarrow> pos \<le> position (es ! j))"
        using less.prems range by (intro less.hyps) auto
      with True mid below show ?thesis by (subst ring_search.simps) (simp add: Let_def)
    next
      case above: False
      have "\<forall>j. ?mid \<le> j \<longrightarrow> j < length es \<longrightarrow> pos \<le> position (es ! j)"
        using above mono by (meson linorder_not_less order_trans)
      then have "\<exists>i \<le> length es. ring_search es pos lo ?mid = Some i
          \<and> (\<forall>j < i. position (es ! j) < pos)
          \<and> (\<forall>j. i \<le> j \<longrightarrow> j < length es \<longrightarrow> pos \<le> position (es ! j))"
        using less.prems range by (intro less.hyps) auto
      with True mid above show ?thesis by (subst ring_search.simps) (simp add: Let_def)
    qed
  qed
qed

lemma split_at_clockwise:
  assumes "i \<le> length es"
    and "\<forall>j < i. position (es ! j) < pos"
    and "\<forall>j. i \<le> j \<longrightarrow> j < length es \<longrightarrow> pos \<le> position (es ! j)"
  shows "drop i es @ take i es = clockwise pos es"
proof -
  have lo: "\<forall>e \<in> set (take i es). position e < pos"
    using assms(1,2) by (auto simp: in_set_conv_nth)
  have hi: "\<forall>e \<in> set (drop i es). pos \<le> position e"
    using assms(1,3) by (auto simp: in_set_conv_nth)
  have "filter (\<lambda>e. pos \<le> position e) (take i es @ drop i es) = drop i es"
    using lo hi by (subst filter_append) (auto simp: filter_empty_conv not_le)
  moreover have "filter (\<lambda>e. position e < pos) (take i es @ drop i es) = take i es"
    using lo hi by (subst filter_append) (auto simp: filter_empty_conv not_less)
  ultimately show ?thesis by (simp add: clockwise_def)
qed

section \<open>The walk\<close>

lemma walk_loop_rotate:
  "walk_loop es s (js_nat k) i (set res) res =
     res @ take (k - length res)
       (filter (\<lambda>x. x \<notin> set res) (firsts (map entry_node (drop i (rotate s es)))))"
proof (induction "length es - i" arbitrary: i res rule: less_induct)
  case less
  show ?case
  proof (cases "i < length es \<and> length res < k")
    case False
    then show ?thesis by (subst walk_loop.simps) auto
  next
    case True
    let ?x = "entry_node (rotate s es ! i)"
    have x: "es ! ((s + i) mod length es) = rotate s es ! i" using True by (simp add: nth_rotate)
    have dr: "drop i (rotate s es) = rotate s es ! i # drop (i + 1) (rotate s es)"
      using True by (simp add: Cons_nth_drop_Suc)
    note ih = less [of "i + 1"]
    show ?thesis
    proof (cases "?x \<in> set res")
      case seen: True
      with True x have "walk_loop es s (js_nat k) i (set res) res =
          walk_loop es s (js_nat k) (i + 1) (set res) res"
        by (subst walk_loop.simps) (simp add: Let_def)
      also have "\<dots> = res @ take (k - length res)
          (filter (\<lambda>x. x \<notin> set res) (firsts (map entry_node (drop (i + 1) (rotate s es)))))"
        using True by (intro ih) arith
      also have "filter (\<lambda>x. x \<notin> set res) (firsts (map entry_node (drop (i + 1) (rotate s es))))
          = filter (\<lambda>x. x \<notin> set res) (firsts (map entry_node (drop i (rotate s es))))"
        using seen unfolding dr by (auto intro!: filter_cong)
      finally show ?thesis .
    next
      case new: False
      with True x have "walk_loop es s (js_nat k) i (set res) res =
          walk_loop es s (js_nat k) (i + 1) (set (res @ [?x])) (res @ [?x])"
        by (subst walk_loop.simps) (simp add: Let_def)
      also have "\<dots> = (res @ [?x]) @ take (k - length (res @ [?x]))
          (filter (\<lambda>x. x \<notin> set (res @ [?x]))
            (firsts (map entry_node (drop (i + 1) (rotate s es)))))"
        using True by (intro ih) arith
      also have "\<dots> = res @ take (k - length res)
          (filter (\<lambda>x. x \<notin> set res) (firsts (map entry_node (drop i (rotate s es)))))"
      proof -
        have "k - length res = Suc (k - length (res @ [?x]))" using True by simp arith
        with new show ?thesis unfolding dr by (simp add: conj_commute)
      qed
      finally show ?thesis .
    qed
  qed
qed

lemma preferenceList_node_order:
  assumes "sorted (map position (ring_entries r))" and "ring_fits r"
  shows "preferenceList sha1 r key (js_nat k) = Some (take k (node_order sha1 r key))"
proof (cases "ring_entries r = []")
  case True
  then show ?thesis by (simp add: preferenceList_def node_order_def clockwise_def)
next
  case False
  let ?es = "ring_entries r" and ?pos = "positionFor sha1 key"
  obtain i where i: "i \<le> length ?es" "ring_search ?es ?pos 0 (length ?es) = Some i"
      "\<forall>j < i. position (?es ! j) < ?pos"
      "\<forall>j. i \<le> j \<longrightarrow> j < length ?es \<longrightarrow> ?pos \<le> position (?es ! j)"
    using ring_search_spec [of ?es 0 "length ?es" ?pos] assms unfolding ring_fits_def by auto
  let ?s = "if i = length ?es then 0 else i"
  have "rotate ?s ?es = drop i ?es @ take i ?es"
    using i(1) False by (auto simp: rotate_drop_take)
  also have "\<dots> = clockwise ?pos ?es" using i by (intro split_at_clockwise) auto
  finally have "rotate ?s ?es = clockwise ?pos ?es" .
  with walk_loop_rotate [of ?es ?s k 0 "[]"] i(2) False show ?thesis
    by (simp add: preferenceList_def node_order_def)
qed

section \<open>Well-formed rings\<close>

lemma ring_wf_new: "ring_wf (new_ring k)"
  by (simp add: ring_wf_def new_ring_def)

lemma count_vnodes:
  "count_list (map entry_node (vnodes sha1 k x)) y = (if y = x then k else 0)"
proof -
  have "map entry_node (vnodes sha1 k x) = replicate k x"
    by (simp add: vnodes_def comp_def map_replicate_const)
  then show ?thesis by (simp only: count_list_replicate)
qed

lemma nodes_vnodes: "entry_node ` set (vnodes sha1 k x) \<subseteq> {x}"
  by (auto simp: vnodes_def)

lemma ring_wf_addNode:
  assumes wf: "ring_wf r"
  shows "ring_wf (addNode sha1 x r)"
proof (cases "x \<in> set (ring_nodes r)")
  case True
  with wf show ?thesis by (simp add: addNode_def)
next
  case False
  with wf have "count_list (map entry_node (ring_entries r)) x = 0"
    by (auto simp: ring_wf_def count_list_0_iff)
  with False wf nodes_vnodes [of sha1 "vnodesPerNode r" x] show ?thesis
    by (auto simp: ring_wf_def addNode_def count_sort_key count_vnodes)
qed

lemma ring_wf_removeNode: "ring_wf r \<Longrightarrow> ring_wf (removeNode x r)"
proof -
  have "count_list (map f (filter (\<lambda>e. f e \<noteq> x) xs)) y = count_list (map f xs) y"
    if "y \<noteq> x" for f :: "ring_entry \<Rightarrow> string" and xs y
    using that by (induction xs) auto
  then show "ring_wf r \<Longrightarrow> ring_wf (removeNode x r)"
    by (auto simp: ring_wf_def removeNode_def intro: sorted_filter)
qed

lemma length_ring_entries:
  assumes "ring_wf r"
  shows "length (ring_entries r) = vnodesPerNode r * length (ring_nodes r)"
proof -
  have "length (map entry_node (ring_entries r))
      = (\<Sum>x \<in> set (ring_nodes r). count_list (map entry_node (ring_entries r)) x)"
    using assms by (intro sum_count_set [symmetric]) (auto simp: ring_wf_def)
  also have "\<dots> = (\<Sum>x \<in> set (ring_nodes r). vnodesPerNode r)"
    using assms by (intro sum.cong) (auto simp: ring_wf_def)
  finally show ?thesis using assms by (simp add: ring_wf_def distinct_card)
qed

lemma entry_nodes:
  assumes "ring_wf r" and "0 < vnodesPerNode r"
  shows "entry_node ` set (ring_entries r) = set (ring_nodes r)"
proof -
  have "x \<in> set (map entry_node (ring_entries r))" if "x \<in> set (ring_nodes r)" for x
    using assms that by (intro count_list_pos) (simp add: ring_wf_def)
  with assms(1) show ?thesis by (auto simp: ring_wf_def)
qed

lemma addNode_new:
  assumes "x \<notin> set (ring_nodes r)"
  shows "ring_nodes (addNode sha1 x r) = ring_nodes r @ [x]"
    and "ring_entries (addNode sha1 x r) =
      sort_key position (ring_entries r @ vnodes sha1 (vnodesPerNode r) x)"
    and "vnodesPerNode (addNode sha1 x r) = vnodesPerNode r"
  using assms by (simp_all add: addNode_def)

lemma nodes_of_entries: "ring_wf r \<Longrightarrow> e \<in> set (ring_entries r) \<Longrightarrow> entry_node e \<in> set (ring_nodes r)"
  by (auto simp: ring_wf_def split: if_splits)

text \<open>The other nodes' entries keep their order when a node joins: the sort is stable.\<close>

lemma entries_without_new:
  assumes "ring_wf r" and "x \<notin> set (ring_nodes r)"
  shows "filter (\<lambda>e. entry_node e \<noteq> x) (ring_entries (addNode sha1 x r)) = ring_entries r"
proof -
  have "filter (\<lambda>e. entry_node e \<noteq> x) (ring_entries r) = ring_entries r"
    using assms nodes_of_entries by (auto intro!: filter_True)
  moreover have "filter (\<lambda>e. entry_node e \<noteq> x) (vnodes sha1 (vnodesPerNode r) x) = []"
    by (auto simp: vnodes_def filter_empty_conv)
  moreover have "sort_key position (ring_entries r) = ring_entries r"
    using assms by (intro sort_key_id_if_sorted) (simp add: ring_wf_def)
  ultimately show ?thesis
    using assms by (simp add: addNode_new filter_sort)
qed

lemma removeNode_addNode:
  assumes "ring_wf r" and "x \<notin> set (ring_nodes r)"
  shows "removeNode x (addNode sha1 x r) = r"
proof -
  have "filter (\<lambda>y. y \<noteq> x) (ring_nodes r) = ring_nodes r"
    using assms(2) by (auto intro!: filter_True)
  then show ?thesis
    using assms entries_without_new [OF assms, of sha1]
    by (simp add: removeNode_def addNode_new)
qed

section \<open>Placement under changes of the ring\<close>

lemma node_order_filter:
  assumes "ring_entries r' = filter (\<lambda>e. entry_node e \<noteq> x) (ring_entries r)"
  shows "node_order sha1 r' key = filter (\<lambda>y. y \<noteq> x) (node_order sha1 r key)"
proof -
  have "clockwise p (filter (\<lambda>e. entry_node e \<noteq> x) es) =
      filter (\<lambda>e. entry_node e \<noteq> x) (clockwise p es)" for p es
    by (simp add: clockwise_def conj_commute)
  then show ?thesis
    by (simp add: node_order_def assms filter_map comp_def flip: firsts_filter)
qed

lemma set_node_order:
  assumes "ring_wf r" and "0 < vnodesPerNode r"
  shows "set (node_order sha1 r key) = set (ring_nodes r)"
proof -
  have "set (clockwise p es) = set es" for p es
    by (auto simp: clockwise_def not_le)
  with assms show ?thesis by (simp add: node_order_def entry_nodes)
qed

lemma distinct_node_order [simp]: "distinct (node_order sha1 r key)"
  by (simp add: node_order_def)

lemma length_node_order:
  assumes "ring_wf r" and "0 < vnodesPerNode r"
  shows "length (node_order sha1 r key) = ring_size r"
proof -
  have "length (node_order sha1 r key) = card (set (node_order sha1 r key))"
    by (simp add: distinct_card)
  also have "\<dots> = ring_size r"
    using assms by (simp add: set_node_order ring_size_def distinct_card ring_wf_def)
  finally show ?thesis .
qed

lemma vnodesPerNode_simps [simp]:
  "vnodesPerNode (addNode sha1 x r) = vnodesPerNode r"
  "vnodesPerNode (removeNode x r) = vnodesPerNode r"
  "vnodesPerNode (new_ring k) = k"
  by (simp_all add: addNode_def removeNode_def new_ring_def)

lemma node_order_removeNode:
  "x \<in> set (ring_nodes r) \<Longrightarrow>
     node_order sha1 (removeNode x r) key = filter (\<lambda>y. y \<noteq> x) (node_order sha1 r key)"
  by (rule node_order_filter) (simp add: removeNode_def)

lemma node_order_addNode:
  "ring_wf r \<Longrightarrow> x \<notin> set (ring_nodes r) \<Longrightarrow>
     node_order sha1 r key = filter (\<lambda>y. y \<noteq> x) (node_order sha1 (addNode sha1 x r) key)"
  by (rule node_order_filter) (simp add: entries_without_new)

lemma preferenceList_Some:
  "ring_wf r \<Longrightarrow> ring_fits r \<Longrightarrow>
     preferenceList sha1 r key (js_nat k) = Some (take k (node_order sha1 r key))"
  by (rule preferenceList_node_order) (simp_all add: ring_wf_def)

lemma ring_fits_removeNode: "ring_fits r \<Longrightarrow> ring_fits (removeNode x r)"
  unfolding ring_fits_def removeNode_def
  by (simp add: le_less_trans [OF length_filter_le])

lemma walk_loop_distinct:
  "distinct res \<Longrightarrow> seen = set res \<Longrightarrow> distinct (walk_loop es s rc i seen res)"
proof (induction es s rc i seen res rule: walk_loop.induct)
  case (1 es s rc i seen res)
  show ?case
  proof (cases "i < length es \<and> js_less (js_nat (length res)) rc")
    case True
    let ?e = "es ! ((s + i) mod length es)"
    have "distinct (walk_loop es s rc (i + 1) (insert (entry_node ?e) seen) (res @ [entry_node ?e]))"
      if "entry_node ?e \<notin> seen"
      using that 1(1) [OF True refl] 1(3,4) by simp
    moreover have "distinct (walk_loop es s rc (i + 1) seen res)" if "entry_node ?e \<in> seen"
      using that 1(2) [OF True refl] 1(3,4) by simp
    ultimately show ?thesis by (subst walk_loop.simps) (simp add: Let_def 1(3))
  next
    case False
    then have "walk_loop es s rc i seen res = res" by (subst walk_loop.simps) (simp only: if_False)
    with 1(3) show ?thesis by simp
  qed
qed

lemma preferenceList_distinct: "preferenceList sha1 r key rc = Some pl \<Longrightarrow> distinct pl"
  by (auto simp: preferenceList_def walk_loop_distinct split: if_splits option.splits)

lemma preferenceList_NaN: "preferenceList sha1 r key NaN = Some pl \<Longrightarrow> pl = []"
  by (auto simp: preferenceList_def walk_loop.simps split: if_splits option.splits)

text \<open>The rings the class can produce: any sequence of its two mutators on an empty ring.\<close>

inductive ring_reachable :: "sha1 \<Rightarrow> nat \<Rightarrow> hash_ring \<Rightarrow> bool" for sha1 k where
  empty: "ring_reachable sha1 k (new_ring k)"
| add: "ring_reachable sha1 k r \<Longrightarrow> ring_reachable sha1 k (addNode sha1 x r)"
| remove: "ring_reachable sha1 k r \<Longrightarrow> ring_reachable sha1 k (removeNode x r)"

lemma reachable_ring_wf: "ring_reachable sha1 k r \<Longrightarrow> ring_wf r \<and> vnodesPerNode r = k"
  by (induction rule: ring_reachable.induct)
    (auto intro: ring_wf_new ring_wf_addNode ring_wf_removeNode)

section \<open>Properties\<close>

text \<open>
  C21: the search and the walk compute the abstract placement. On a well-formed ring that the
  32-bit midpoint can address, the preference list of a key is the first \<open>k\<close> distinct nodes
  met when reading the ring clockwise from the key's position, first the entries at or after
  it, then, wrapped around, those before it.
\<close>

theorem preferenceList_clockwise:
  assumes "ring_wf r" and "ring_fits r"
  shows "preferenceList sha1 r key (js_nat k) =
    Some (take k (firsts (map entry_node (clockwise (positionFor sha1 key) (ring_entries r)))))"
  using preferenceList_Some [OF assms] by (simp add: node_order_def)

theorem preferenceList_clockwise_witness:
  "preferenceList (\<lambda>_. 0) (addNode (\<lambda>_. 0) ''a'' (new_ring 2)) ''k'' (js_nat 1) = Some [''a'']"
proof -
  let ?r = "addNode (\<lambda>_. 0) ''a'' (new_ring 2)"
  have wf: "ring_wf ?r" by (intro ring_wf_addNode ring_wf_new)
  have fits: "ring_fits ?r"
    using length_ring_entries [OF wf] by (simp add: ring_fits_def addNode_def new_ring_def)
  have es: "ring_entries ?r =
      [\<lparr>position = 0, entry_node = ''a''\<rparr>, \<lparr>position = 0, entry_node = ''a''\<rparr>]"
    by (simp add: addNode_def new_ring_def vnodes_def positionFor_def numeral_2_eq_2)
  show ?thesis
    using preferenceList_clockwise [OF wf fits, of "\<lambda>_. 0" "''k''" 1]
    by (simp add: es clockwise_def positionFor_def)
qed

text \<open>
  Replicas go to distinct physical nodes of the ring, as many as asked for, or all nodes
  if there are fewer.
\<close>

theorem preferenceList_distinct_nodes:
  assumes "ring_wf r" and "ring_fits r" and "0 < vnodesPerNode r"
  shows "\<exists>pl. preferenceList sha1 r key (js_nat k) = Some pl
    \<and> distinct pl \<and> length pl = min k (ring_size r) \<and> set pl \<subseteq> set (ring_nodes r)"
  using assms set_take_subset [of k "node_order sha1 r key"]
  by (simp add: preferenceList_Some length_node_order set_node_order min.commute)

theorem preferenceList_distinct_nodes_witness:
  "\<exists>pl. preferenceList (\<lambda>_. 0) (addNode (\<lambda>_. 0) ''b'' (addNode (\<lambda>_. 0) ''a'' (new_ring 1)))
      ''k'' (js_nat 3) = Some pl \<and> distinct pl \<and> length pl = 2"
proof -
  let ?r = "addNode (\<lambda>_. 0) ''b'' (addNode (\<lambda>_. 0) ''a'' (new_ring 1))"
  have wf: "ring_wf ?r" by (intro ring_wf_addNode ring_wf_new)
  have n: "ring_nodes ?r = [''a'', ''b'']" by (simp add: addNode_def new_ring_def)
  have fits: "ring_fits ?r" using length_ring_entries [OF wf] n by (simp add: ring_fits_def)
  show ?thesis
    using preferenceList_distinct_nodes [OF wf fits, of "\<lambda>_. 0" "''k''" 3] n
    by (auto simp: ring_size_def)
qed

text \<open>
  C32: consistent hashing on removal. When a node leaves, every preference list keeps its
  remaining nodes in their order, gains at most one node at its end, and does not change at
  all if the departed node was not on it.
\<close>

theorem removeNode_minimal_disruption:
  assumes "ring_wf r" and "ring_fits r" and "x \<in> set (ring_nodes r)"
  shows "\<exists>pl ys. preferenceList sha1 r key (js_nat k) = Some pl
    \<and> preferenceList sha1 (removeNode x r) key (js_nat k) = Some (filter (\<lambda>y. y \<noteq> x) pl @ ys)
    \<and> length ys \<le> 1 \<and> (x \<notin> set pl \<longrightarrow> ys = [])"
proof -
  have "preferenceList sha1 (removeNode x r) key (js_nat k) =
      Some (take k (filter (\<lambda>y. y \<noteq> x) (node_order sha1 r key)))"
    using assms
    by (simp add: preferenceList_Some ring_wf_removeNode ring_fits_removeNode node_order_removeNode)
  with assms take_without [of "node_order sha1 r key" k x] show ?thesis
    by (auto simp: preferenceList_Some)
qed

theorem removeNode_minimal_disruption_witness:
  "\<exists>pl ys. preferenceList (\<lambda>_. 0) (addNode (\<lambda>_. 0) ''a'' (new_ring 1)) ''k'' (js_nat 2) = Some pl
    \<and> preferenceList (\<lambda>_. 0) (removeNode ''a'' (addNode (\<lambda>_. 0) ''a'' (new_ring 1))) ''k'' (js_nat 2)
        = Some (filter (\<lambda>y. y \<noteq> ''a'') pl @ ys) \<and> length ys \<le> 1"
proof -
  let ?r = "addNode (\<lambda>_. 0) ''a'' (new_ring 1)"
  have wf: "ring_wf ?r" by (intro ring_wf_addNode ring_wf_new)
  have n: "ring_nodes ?r = [''a'']" by (simp add: addNode_def new_ring_def)
  have fits: "ring_fits ?r" using length_ring_entries [OF wf] n by (simp add: ring_fits_def)
  from n have "''a'' \<in> set (ring_nodes ?r)" by simp
  from removeNode_minimal_disruption [OF wf fits this, of "\<lambda>_. 0" "''k''" 2]
  show ?thesis by blast
qed

text \<open>
  Consistent hashing on arrival. When a node joins, the old preference list is the new
  one without the new node, followed by at most one node, which the new node displaced; a
  list the new node is not on is unchanged. Removing the node again restores the ring.
\<close>

theorem addNode_minimal_disruption:
  assumes "ring_wf r" and "ring_fits (addNode sha1 x r)" and "x \<notin> set (ring_nodes r)"
  shows "\<exists>pl ys. preferenceList sha1 (addNode sha1 x r) key (js_nat k) = Some pl
    \<and> preferenceList sha1 r key (js_nat k) = Some (filter (\<lambda>y. y \<noteq> x) pl @ ys)
    \<and> length ys \<le> 1 \<and> (x \<notin> set pl \<longrightarrow> ys = [])
    \<and> removeNode x (addNode sha1 x r) = r"
proof -
  have "ring_fits r"
    using ring_fits_removeNode [OF assms(2), of x] assms by (simp add: removeNode_addNode)
  then have "preferenceList sha1 r key (js_nat k) =
      Some (take k (filter (\<lambda>y. y \<noteq> x) (node_order sha1 (addNode sha1 x r) key)))"
    using assms by (simp add: preferenceList_Some node_order_addNode [symmetric])
  with assms take_without [of "node_order sha1 (addNode sha1 x r) key" k x] show ?thesis
    by (auto simp: preferenceList_Some ring_wf_addNode removeNode_addNode)
qed

theorem addNode_minimal_disruption_witness:
  "removeNode ''b'' (addNode (\<lambda>_. 0) ''b'' (addNode (\<lambda>_. 0) ''a'' (new_ring 1)))
    = addNode (\<lambda>_. 0) ''a'' (new_ring 1)"
proof -
  let ?r = "addNode (\<lambda>_. 0) ''a'' (new_ring 1)"
  have wf: "ring_wf ?r" by (intro ring_wf_addNode ring_wf_new)
  have n: "ring_nodes ?r = [''a'']" by (simp add: addNode_def new_ring_def)
  have wf': "ring_wf (addNode (\<lambda>_. 0) ''b'' ?r)" using wf by (rule ring_wf_addNode)
  have fits: "ring_fits (addNode (\<lambda>_. 0) ''b'' ?r)"
    using length_ring_entries [OF wf'] n by (simp add: ring_fits_def addNode_new)
  from n have "''b'' \<notin> set (ring_nodes ?r)" by simp
  from addNode_minimal_disruption [OF wf fits this] show ?thesis by blast
qed

text \<open>
  C33: every ring the class can produce is well-formed: sorted by position, no node listed
  twice, and exactly the configured number of points for each of its nodes.
\<close>

theorem reachable_ring_invariant:
  assumes "ring_reachable sha1 k r"
  shows "sorted (map position (ring_entries r)) \<and> distinct (ring_nodes r)
    \<and> length (ring_entries r) = k * ring_size r
    \<and> (\<forall>x. count_list (map entry_node (ring_entries r)) x
            = (if x \<in> set (ring_nodes r) then k else 0))"
proof -
  from assms have wf: "ring_wf r" "vnodesPerNode r = k" by (auto dest: reachable_ring_wf)
  then have "count_list (map entry_node (ring_entries r)) x = 0" if "x \<notin> set (ring_nodes r)" for x
    using that by (auto simp: ring_wf_def count_list_0_iff)
  with wf length_ring_entries [OF wf(1)] show ?thesis
    by (auto simp: ring_size_def ring_wf_def)
qed

theorem reachable_ring_invariant_witness:
  "length (ring_entries (removeNode ''a'' (addNode (\<lambda>_. 0) ''b'' (addNode (\<lambda>_. 0) ''a'' (new_ring 3)))))
    = 3"
proof -
  have "ring_reachable (\<lambda>_. 0) 3
      (removeNode ''a'' (addNode (\<lambda>_. 0) ''b'' (addNode (\<lambda>_. 0) ''a'' (new_ring 3))))"
    by (intro ring_reachable.intros)
  from reachable_ring_invariant [OF this] show ?thesis
    by (simp add: ring_size_def removeNode_def addNode_new) (simp add: addNode_def new_ring_def)
qed

end
