(* ===== verification/ChunkService.thy ===== *)
theory ChunkService
  imports Prelude
begin

text \<open>
  The HTTP interface between the coordinator and a storage node, and the contract the
  coordinator relies on. Requests and responses are values; a node is any state with a
  function that serves a request. The random part of a temporary file name is drawn by the
  node, so a request comes with it.
\<close>

datatype chunk_request =
    PutChunk string js_value
  | GetChunk string
  | DeleteChunk string
  | GetHealth
  | GetStats

text \<open>
  Response bodies. An error body carries the error whose message the code sends;
  \<open>Garbled\<close> is a body that was altered on its way.
\<close>

datatype chunk_payload =
    PutBody bool bool
  | BytesBody string bytes
  | DeletedBody bool
  | NotFoundBody
  | ErrorBody js_error
  | CorruptBody js_error
  | HealthBody string
  | StatsBody string nat nat
  | Garbled bytes

record 'p response =
  status :: nat
  payload :: 'p

definition reply :: "nat \<Rightarrow> 'p \<Rightarrow> 'p response" where
  "reply s p = \<lparr>status = s, payload = p\<rparr>"

lemma reply_simps [simp]: "status (reply s p) = s" "payload (reply s p) = p"
  by (simp_all add: reply_def)

type_synonym 'n server = "nonce \<Rightarrow> chunk_request \<Rightarrow> 'n \<Rightarrow> chunk_payload response \<times> 'n"

section \<open>The contract\<close>

text \<open>
  \<open>copy n h\<close> is what the node has under the name \<open>h\<close>, corrupt or not. A put of bytes that
  do not hash to the name is refused, a put of a name that is there changes nothing, any
  other put stores the bytes; a get answers 200 only with bytes that hash to the name, 409
  for a corrupt copy and 404 for none; a delete removes the copy.
\<close>

locale chunk_service =
  fixes serve :: "'n server"
    and sha :: sha256
    and node_ok :: "'n \<Rightarrow> bool"
    and copy :: "'n \<Rightarrow> string \<Rightarrow> bytes option"
  assumes serve_put: "node_ok n \<Longrightarrow>
      \<exists>r n'. serve z (PutChunk h (Buffer b)) n = (r, n') \<and> node_ok n' \<and>
        (if sha256_hex sha b \<noteq> h then status r = 422 \<and> copy n' = copy n
         else if copy n h \<noteq> None then r = reply 200 (PutBody False True) \<and> copy n' = copy n
         else r = reply 201 (PutBody True False) \<and> copy n' = (copy n)(h \<mapsto> b))"
    and serve_get: "node_ok n \<Longrightarrow> valid_hash h \<Longrightarrow>
      serve z (GetChunk h) n =
        (case copy n h of
           None \<Rightarrow> reply 404 NotFoundBody
         | Some b \<Rightarrow> if sha256_hex sha b = h then reply 200 (BytesBody h b)
                     else reply 409 (CorruptBody (ChunkIntegrityError h (sha256_hex sha b))), n)"
    and serve_delete: "node_ok n \<Longrightarrow> valid_hash h \<Longrightarrow>
      \<exists>n'. serve z (DeleteChunk h) n = (reply 200 (DeletedBody (copy n h \<noteq> None)), n')
        \<and> node_ok n' \<and> copy n' = (copy n)(h := None)"
begin

lemma put_keeps_ok: "node_ok n \<Longrightarrow> node_ok (snd (serve z (PutChunk h (Buffer b)) n))"
  using serve_put [of n z h b] by auto

lemma put_acked_has_copy:
  assumes "node_ok n" and "serve z (PutChunk h (Buffer b)) n = (r, n')"
    and "status r = 200 \<or> status r = 201"
  shows "sha256_hex sha b = h" and "copy n' h \<noteq> None"
  using serve_put [of n z h b] assms by (auto split: if_splits)

lemma put_copy_cases:
  assumes "node_ok n" and "serve z (PutChunk h (Buffer b)) n = (r, n')"
  shows "copy n' = copy n
    \<or> copy n h = None \<and> sha256_hex sha b = h \<and> copy n' = (copy n)(h \<mapsto> b)"
  using serve_put [of n z h b] assms by (auto split: if_splits)

lemma get_ok_verified:
  assumes "node_ok n" and "valid_hash h" and "status (fst (serve z (GetChunk h) n)) = 200"
  shows "\<exists>b. copy n h = Some b \<and> sha256_hex sha b = h
    \<and> fst (serve z (GetChunk h) n) = reply 200 (BytesBody h b)"
  using serve_get [of n h z] assms by (auto split: option.splits if_splits)

lemma get_keeps_node: "node_ok n \<Longrightarrow> valid_hash h \<Longrightarrow> snd (serve z (GetChunk h) n) = n"
  by (simp add: serve_get)

end

end
