(* ===== verification/Metrics.thy ===== *)
theory Metrics
  imports Prelude
begin

text \<open>
  \<^verbatim>\<open>src/metrics.js\<close>: the counters the components increment and the two histograms they observe
  durations in. A labelled counter is a function from its label, a histogram the list of what was observed, with
  its labels, the oldest first; sorting the durations into buckets is the library's. The
  default process metrics are not modelled: nothing in the program touches them.
\<close>

record metrics =
  httpRequestDuration :: "((string \<times> string \<times> nat) \<times> rat) list"
  replicaWriteLatency :: "((string \<times> string) \<times> rat) list"
  quorumWriteFailures :: nat
  quorumReadFailovers :: "string \<Rightarrow> nat"
  chunkIntegrityFailures :: nat
  dedupBytesSaved :: nat
  gcReclaimedBytes :: nat
  gcReclaimedChunks :: nat
  rateLimitRejections :: nat

definition no_metrics :: metrics where
  "no_metrics = \<lparr>httpRequestDuration = [], replicaWriteLatency = [],
     quorumWriteFailures = 0, quorumReadFailovers = (\<lambda>_. 0),
     chunkIntegrityFailures = 0, dedupBytesSaved = 0, gcReclaimedBytes = 0,
     gcReclaimedChunks = 0, rateLimitRejections = 0\<rparr>"

text \<open>The labels are method, route and status of a request, and node and outcome of a write.\<close>

definition observe_httpRequestDuration :: "string \<Rightarrow> string \<Rightarrow> nat \<Rightarrow> rat \<Rightarrow> metrics \<Rightarrow> metrics" where
  "observe_httpRequestDuration verb url code seconds m =
     m\<lparr>httpRequestDuration := httpRequestDuration m @ [((verb, url, code), seconds)]\<rparr>"

definition observe_replicaWriteLatency :: "string \<Rightarrow> string \<Rightarrow> rat \<Rightarrow> metrics \<Rightarrow> metrics" where
  "observe_replicaWriteLatency nodeId outcome seconds m =
     m\<lparr>replicaWriteLatency := replicaWriteLatency m @ [((nodeId, outcome), seconds)]\<rparr>"

definition inc_quorumWriteFailures :: "metrics \<Rightarrow> metrics" where
  "inc_quorumWriteFailures m = m\<lparr>quorumWriteFailures := quorumWriteFailures m + 1\<rparr>"

definition inc_quorumReadFailovers :: "string \<Rightarrow> metrics \<Rightarrow> metrics" where
  "inc_quorumReadFailovers reason m =
     m\<lparr>quorumReadFailovers :=
         (quorumReadFailovers m)(reason := quorumReadFailovers m reason + 1)\<rparr>"

definition inc_chunkIntegrityFailures :: "metrics \<Rightarrow> metrics" where
  "inc_chunkIntegrityFailures m = m\<lparr>chunkIntegrityFailures := chunkIntegrityFailures m + 1\<rparr>"

definition inc_dedupBytesSaved :: "nat \<Rightarrow> metrics \<Rightarrow> metrics" where
  "inc_dedupBytesSaved k m = m\<lparr>dedupBytesSaved := dedupBytesSaved m + k\<rparr>"

definition inc_gcReclaimed :: "nat \<Rightarrow> nat \<Rightarrow> metrics \<Rightarrow> metrics" where
  "inc_gcReclaimed chunks freed m =
     m\<lparr>gcReclaimedChunks := gcReclaimedChunks m + chunks,
       gcReclaimedBytes := gcReclaimedBytes m + freed\<rparr>"

definition inc_rateLimitRejections :: "metrics \<Rightarrow> metrics" where
  "inc_rateLimitRejections m = m\<lparr>rateLimitRejections := rateLimitRejections m + 1\<rparr>"

text \<open>The metrics without the histograms.\<close>

definition counts :: "metrics \<Rightarrow> metrics" where
  "counts m = m\<lparr>httpRequestDuration := [], replicaWriteLatency := []\<rparr>"

lemma counts_observe [simp]:
  "counts (observe_httpRequestDuration verb url code seconds m) = counts m"
  "counts (observe_replicaWriteLatency nodeId outcome seconds m) = counts m"
  by (simp_all add: counts_def observe_httpRequestDuration_def observe_replicaWriteLatency_def)

lemma counts_inc [simp]:
  "counts (inc_quorumWriteFailures m) = inc_quorumWriteFailures (counts m)"
  "counts (inc_dedupBytesSaved k m) = inc_dedupBytesSaved k (counts m)"
  by (simp_all add: counts_def inc_quorumWriteFailures_def inc_dedupBytesSaved_def)

text \<open>Updates that leave the histogram of the requests alone.\<close>

definition keeps_requests :: "(metrics \<Rightarrow> metrics) \<Rightarrow> bool" where
  "keeps_requests g \<longleftrightarrow> (\<forall>m. httpRequestDuration (g m) = httpRequestDuration m)"

lemma keeps_requests [simp]:
  "keeps_requests inc_quorumWriteFailures" "keeps_requests (inc_dedupBytesSaved k)"
  "keeps_requests (inc_quorumReadFailovers reason)" "keeps_requests inc_chunkIntegrityFailures"
  "keeps_requests (inc_gcReclaimed chunks freed)" "keeps_requests inc_rateLimitRejections"
  "keeps_requests (observe_replicaWriteLatency nodeId outcome seconds)"
  by (simp_all add: keeps_requests_def inc_quorumWriteFailures_def inc_dedupBytesSaved_def
      inc_quorumReadFailovers_def inc_chunkIntegrityFailures_def inc_gcReclaimed_def
      inc_rateLimitRejections_def observe_replicaWriteLatency_def)

end
