(* ===== verification/Coordinator.thy ===== *)
theory Coordinator
  imports HashRing ChunkService Metrics
begin

text \<open>
  \<^verbatim>\<open>src/coordinator.js\<close>: placement, quorum writes, reads with failover, deletes. The storage
  nodes are reached over HTTP only, so every operation takes the function \<open>serve\<close> that
  serves a request at a node, and what the network does to each call is an argument too.
\<close>

section \<open>The network\<close>

text \<open>
  The fate of one call to one node: it is answered; it never arrives; it is carried out but
  the answer is lost or comes after the time-out; it is answered with an altered body.
\<close>

datatype fate = Deliver | Drop | LostReply | Garble bytes

text \<open>
  One fan-out calls each node at most once, so its circumstances are functions of the node: the fate, the
  random part of a file name, and how many milliseconds had passed when the call settled and when
  reading the body of its answer failed.
\<close>

record call_env =
  fate_of :: "string \<Rightarrow> fate"
  nonce_of :: "string \<Rightarrow> nonce"
  settled_ms :: "string \<Rightarrow> int"
  failed_ms :: "string \<Rightarrow> int"

text \<open>All nodes by base URL, and the counters of the coordinator's process.\<close>

record 'n world =
  servers :: "string \<Rightarrow> 'n option"
  counters :: metrics

definition bump :: "(metrics \<Rightarrow> metrics) \<Rightarrow> 'n world \<Rightarrow> 'n world" where
  "bump f w = w\<lparr>counters := f (counters w)\<rparr>"

text \<open>
  \<^verbatim>\<open>fetch\<close>; \<open>None\<close> stands for a rejected promise, which is also what a node without a URL
  (\<^verbatim>\<open>undefined/chunks/...\<close>) or a URL without a server gives.
\<close>

definition fetch ::
  "'n server \<Rightarrow> fate \<Rightarrow> nonce \<Rightarrow> string option \<Rightarrow> chunk_request \<Rightarrow> 'n world
     \<Rightarrow> chunk_payload response option \<times> 'n world" where
  "fetch serve f z url req w =
     (case Option.bind url (servers w) of
        None \<Rightarrow> (None, w)
      | Some n \<Rightarrow>
          if f = Drop then (None, w)
          else let (r, n') = serve z req n;
                   w' = w\<lparr>servers := (servers w)(the url \<mapsto> n')\<rparr>
               in (case f of
                     LostReply \<Rightarrow> None
                   | Garble b \<Rightarrow> Some (r\<lparr>payload := Garbled b\<rparr>)
                   | _ \<Rightarrow> Some r, w'))"

section \<open>The code\<close>

record coordinator =
  co_ring :: hash_ring
  nodesById :: "string \<Rightarrow> string option"
  repl_n :: jsnum
  write_w :: jsnum

record ack =
  ack_ok :: bool
  ack_node :: string
  ack_deduped :: bool

definition nack :: "string \<Rightarrow> ack" where
  "nack x = \<lparr>ack_ok = False, ack_node = x, ack_deduped = False\<rparr>"

text \<open>
  \<^verbatim>\<open>replicaWriteLatency.observe\<close>. A body that cannot be read is an exception after the success has been
  observed, and is observed as an error too.
\<close>

definition observe_write :: "string \<Rightarrow> string \<Rightarrow> int \<Rightarrow> 'n world \<Rightarrow> 'n world" where
  "observe_write x outcome ms w = bump (observe_replicaWriteLatency x outcome (of_int ms / 1000)) w"

definition putToNode ::
  "'n server \<Rightarrow> call_env \<Rightarrow> string option \<Rightarrow> string \<Rightarrow> string \<Rightarrow> bytes \<Rightarrow> 'n world
     \<Rightarrow> ack \<times> 'n world" where
  "putToNode serve env url x h buf w =
     (let (res, w1) = fetch serve (fate_of env x) (nonce_of env x) url (PutChunk h (Buffer buf)) w
      in case res of
           None \<Rightarrow> (nack x, observe_write x ''error'' (settled_ms env x) w1)
         | Some r \<Rightarrow>
             let ok = (status r = 200 \<or> status r = 201);
                 w2 = observe_write x (if ok then ''success'' else ''error'') (settled_ms env x) w1
             in if \<not> ok then (nack x, w2)
                else (case payload r of
                        PutBody _ d \<Rightarrow> (\<lparr>ack_ok = True, ack_node = x, ack_deduped = d\<rparr>, w2)
                      | Garbled _ \<Rightarrow> (nack x, observe_write x ''error'' (failed_ms env x) w2)
                      | _ \<Rightarrow> (\<lparr>ack_ok = True, ack_node = x, ack_deduped = False\<rparr>, w2)))"

text \<open>\<^verbatim>\<open>Promise.all\<close> over the preference list: it waits for every call.\<close>

fun put_all ::
  "'n server \<Rightarrow> call_env \<Rightarrow> (string \<Rightarrow> string option) \<Rightarrow> string \<Rightarrow> bytes \<Rightarrow> string list \<Rightarrow> 'n world
     \<Rightarrow> ack list \<times> 'n world" where
  "put_all serve env urls h buf [] w = ([], w)"
| "put_all serve env urls h buf (x # xs) w =
     (let (a, w1) = putToNode serve env (urls x) x h buf w;
          (as, w2) = put_all serve env urls h buf xs w1
      in (a # as, w2))"

record put_report =
  rep_hash :: string
  rep_acks :: nat
  rep_of :: nat
  rep_deduped :: bool
  rep_preferenceList :: "string list"

definition putChunk ::
  "'n server \<Rightarrow> sha1 \<Rightarrow> call_env \<Rightarrow> coordinator \<Rightarrow> string \<Rightarrow> bytes \<Rightarrow> 'n world
     \<Rightarrow> (js_error + put_report) \<times> 'n world" where
  "putChunk serve sha1 env co h buf w =
     (case preferenceList sha1 (co_ring co) h (repl_n co) of
        None \<Rightarrow> (Inl Diverges, w)
      | Some pl \<Rightarrow>
          let (results, w1) = put_all serve env (nodesById co) h buf pl w;
              acks = filter ack_ok results
          in if js_less (js_nat (length acks)) (write_w co) then
               (Inl (QuorumWriteError h (length acks)), bump inc_quorumWriteFailures w1)
             else
               let anyNewWrite = list_ex (\<lambda>a. \<not> ack_deduped a) acks
               in (Inr \<lparr>rep_hash = h, rep_acks = length acks, rep_of = length pl,
                         rep_deduped = (\<not> anyNewWrite), rep_preferenceList = pl\<rparr>,
                   if anyNewWrite then w1 else bump (inc_dedupBytesSaved (length buf)) w1))"

datatype get_result = GotBytes bytes | NotOk string

text \<open>The bytes of a response body; only byte bodies come with a successful read.\<close>

definition body_bytes :: "chunk_payload \<Rightarrow> bytes" where
  "body_bytes p = (case p of BytesBody _ b \<Rightarrow> b | Garbled b \<Rightarrow> b | _ \<Rightarrow> [])"

text \<open>\<open>None\<close>: the call threw.\<close>

definition getFromNode ::
  "'n server \<Rightarrow> call_env \<Rightarrow> string option \<Rightarrow> string \<Rightarrow> string \<Rightarrow> 'n world
     \<Rightarrow> get_result option \<times> 'n world" where
  "getFromNode serve env url x h w =
     (let (res, w') = fetch serve (fate_of env x) (nonce_of env x) url (GetChunk h) w
      in (case res of
            None \<Rightarrow> None
          | Some r \<Rightarrow> Some
              (if status r = 404 then NotOk ''not_found''
               else if status r = 409 then NotOk ''corrupt''
               else if \<not> (200 \<le> status r \<and> status r \<le> 299)
                 then NotOk (''http_'' @ decimal (status r))
               else GotBytes (body_bytes (payload r))), w'))"

fun get_loop ::
  "'n server \<Rightarrow> sha256 \<Rightarrow> call_env \<Rightarrow> (string \<Rightarrow> string option) \<Rightarrow> string \<Rightarrow> nat \<Rightarrow> nat \<Rightarrow> string list
     \<Rightarrow> string \<Rightarrow> 'n world \<Rightarrow> (js_error + bytes option) \<times> 'n world" where
  "get_loop serve sha env urls h tries i [] lastReason w =
     (if lastReason = ''not_found'' then Inr None else Inl (ChunkUnavailableError h tries), w)"
| "get_loop serve sha env urls h tries i (x # xs) lastReason w =
     (let (got, w1) = getFromNode serve env (urls x) x h w;
          res = (case got of None \<Rightarrow> NotOk ''network_error'' | Some r \<Rightarrow> r)
      in case res of
        GotBytes buf \<Rightarrow>
          if sha256_hex sha buf = h then
            (Inr (Some buf),
             if 0 < i then bump (inc_quorumReadFailovers ''failover_success'') w1 else w1)
          else
            get_loop serve sha env urls h tries (i + 1) xs ''integrity_mismatch''
              (bump (inc_quorumReadFailovers ''integrity_mismatch'')
                (bump inc_chunkIntegrityFailures w1))
      | NotOk reason \<Rightarrow>
          get_loop serve sha env urls h tries (i + 1) xs reason
            (if 0 < i \<or> reason \<noteq> ''not_found''
             then bump (inc_quorumReadFailovers reason) w1 else w1))"

definition getChunk ::
  "'n server \<Rightarrow> sha256 \<Rightarrow> sha1 \<Rightarrow> call_env \<Rightarrow> coordinator \<Rightarrow> string \<Rightarrow> 'n world
     \<Rightarrow> (js_error + bytes option) \<times> 'n world" where
  "getChunk serve sha sha1 env co h w =
     (case preferenceList sha1 (co_ring co) h (repl_n co) of
        None \<Rightarrow> (Inl Diverges, w)
      | Some pl \<Rightarrow>
          get_loop serve sha env (nodesById co) h (length pl) 0 pl ''no_replicas_configured'' w)"

fun delete_all ::
  "'n server \<Rightarrow> call_env \<Rightarrow> (string \<Rightarrow> string option) \<Rightarrow> string \<Rightarrow> string list \<Rightarrow> 'n world
     \<Rightarrow> bool list \<times> 'n world" where
  "delete_all serve env urls h [] w = ([], w)"
| "delete_all serve env urls h (x # xs) w =
     (let (res, w1) = fetch serve (fate_of env x) (nonce_of env x) (urls x) (DeleteChunk h) w;
          ok = (case res of None \<Rightarrow> False | Some r \<Rightarrow> 200 \<le> status r \<and> status r \<le> 299);
          (oks, w2) = delete_all serve env urls h xs w1
      in (ok # oks, w2))"

definition deleteChunk ::
  "'n server \<Rightarrow> sha1 \<Rightarrow> call_env \<Rightarrow> coordinator \<Rightarrow> string \<Rightarrow> 'n world
     \<Rightarrow> (js_error + nat) \<times> 'n world" where
  "deleteChunk serve sha1 env co h w =
     (case preferenceList sha1 (co_ring co) h (repl_n co) of
        None \<Rightarrow> (Inl Diverges, w)
      | Some pl \<Rightarrow>
          let (oks, w1) = delete_all serve env (nodesById co) h pl w
          in (Inr (length (filter (\<lambda>ok. ok) oks)), w1))"

section \<open>What one write does apart from the histogram\<close>

lemma bump_simps [simp]:
  "servers (bump f w) = servers w" "counters (bump f w) = f (counters w)"
  by (simp_all add: bump_def)

lemma observe_write_servers [simp]: "servers (observe_write x outcome ms w) = servers w"
  by (simp add: observe_write_def)

lemma counts_observe_write [simp]: "counts (counters (observe_write x outcome ms w)) = counts (counters w)"
  by (simp add: observe_write_def)

definition write_ack :: "string \<Rightarrow> chunk_payload response option \<Rightarrow> ack" where
  "write_ack x res =
     (case res of
        None \<Rightarrow> nack x
      | Some r \<Rightarrow>
          if status r = 200 \<or> status r = 201 then
            case payload r of
              PutBody _ d \<Rightarrow> \<lparr>ack_ok = True, ack_node = x, ack_deduped = d\<rparr>
            | Garbled _ \<Rightarrow> nack x
            | _ \<Rightarrow> \<lparr>ack_ok = True, ack_node = x, ack_deduped = False\<rparr>
          else nack x)"

lemma putToNode_parts:
  assumes "fetch serve (fate_of env x) (nonce_of env x) url (PutChunk h (Buffer buf)) w = (res, w1)"
  shows "fst (putToNode serve env url x h buf w) = write_ack x res"
    and "servers (snd (putToNode serve env url x h buf w)) = servers w1"
    and "counts (counters (snd (putToNode serve env url x h buf w))) = counts (counters w1)"
  using assms
  by (auto simp: putToNode_def write_ack_def Let_def split: option.split chunk_payload.split)

end
