(* ===== verification/FileSystem.thy ===== *)
theory FileSystem
  imports Prelude
begin

text \<open>
  The part of \<^verbatim>\<open>node:fs\<close> that \<^verbatim>\<open>src/chunkStore.js\<close> uses, on a directory tree: a directory is
  an association list from names to nodes, a path is the list of its segments below the
  store's root directory. A call that throws gives \<open>Inl FsError\<close> and leaves the tree alone.
\<close>

section \<open>The calls\<close>

datatype fsnode = File bytes | Dir "(string \<times> fsnode) list"

type_synonym path = "string list"

fun fs_lookup :: "fsnode \<Rightarrow> path \<Rightarrow> fsnode option" where
  "fs_lookup t [] = Some t"
| "fs_lookup (File b) (k # p) = None"
| "fs_lookup (Dir es) (k # p) =
     (case map_of es k of None \<Rightarrow> None | Some t \<Rightarrow> fs_lookup t p)"

fun fs_mkdirp :: "fsnode \<Rightarrow> path \<Rightarrow> fsnode option" where
  "fs_mkdirp (File b) p = None"
| "fs_mkdirp (Dir es) [] = Some (Dir es)"
| "fs_mkdirp (Dir es) (k # p) =
     map_option (\<lambda>t. Dir (AList.update k t es))
       (fs_mkdirp (case map_of es k of None \<Rightarrow> Dir [] | Some t \<Rightarrow> t) p)"

fun fs_write :: "fsnode \<Rightarrow> path \<Rightarrow> bytes \<Rightarrow> fsnode option" where
  "fs_write (File b) p c = None"
| "fs_write (Dir es) [] c = None"
| "fs_write (Dir es) [k] c =
     (case map_of es k of
        Some (Dir ds) \<Rightarrow> None
      | _ \<Rightarrow> Some (Dir (AList.update k (File c) es)))"
| "fs_write (Dir es) (k # j # p) c =
     (case map_of es k of
        None \<Rightarrow> None
      | Some t \<Rightarrow> map_option (\<lambda>t'. Dir (AList.update k t' es)) (fs_write t (j # p) c))"

fun fs_unlink :: "fsnode \<Rightarrow> path \<Rightarrow> fsnode option" where
  "fs_unlink (File b) p = None"
| "fs_unlink (Dir es) [] = None"
| "fs_unlink (Dir es) [k] =
     (case map_of es k of
        Some (File c) \<Rightarrow> Some (Dir (AList.delete k es))
      | _ \<Rightarrow> None)"
| "fs_unlink (Dir es) (k # j # p) =
     (case map_of es k of
        None \<Rightarrow> None
      | Some t \<Rightarrow> map_option (\<lambda>t'. Dir (AList.update k t' es)) (fs_unlink t (j # p)))"

definition fs_result :: "fsnode option \<Rightarrow> js_error + fsnode" where
  "fs_result r = (case r of None \<Rightarrow> Inl FsError | Some t \<Rightarrow> Inr t)"

definition existsSync :: "fsnode \<Rightarrow> path \<Rightarrow> bool" where
  "existsSync t p \<longleftrightarrow> fs_lookup t p \<noteq> None"

definition readFileSync :: "fsnode \<Rightarrow> path \<Rightarrow> js_error + bytes" where
  "readFileSync t p = (case fs_lookup t p of Some (File b) \<Rightarrow> Inr b | _ \<Rightarrow> Inl FsError)"

text \<open>\<^verbatim>\<open>mkdirSync(dir, { recursive: true })\<close>.\<close>

definition mkdirSync :: "fsnode \<Rightarrow> path \<Rightarrow> js_error + fsnode" where
  "mkdirSync t p = fs_result (fs_mkdirp t p)"

definition writeFileSync :: "fsnode \<Rightarrow> path \<Rightarrow> bytes \<Rightarrow> js_error + fsnode" where
  "writeFileSync t p b = fs_result (fs_write t p b)"

definition unlinkSync :: "fsnode \<Rightarrow> path \<Rightarrow> js_error + fsnode" where
  "unlinkSync t p = fs_result (fs_unlink t p)"

text \<open>
  \<^verbatim>\<open>renameSync\<close> of a file: one atomic step that replaces whatever file is at the target.
\<close>

definition renameSync :: "fsnode \<Rightarrow> path \<Rightarrow> path \<Rightarrow> js_error + fsnode" where
  "renameSync t p q =
     (case fs_lookup t p of
        Some (File b) \<Rightarrow>
          (case fs_unlink t p of
             None \<Rightarrow> Inl FsError
           | Some t' \<Rightarrow> fs_result (fs_write t' q b))
      | _ \<Rightarrow> Inl FsError)"

section \<open>The tree as a map from paths to contents\<close>

fun fs_file :: "fsnode \<Rightarrow> path \<Rightarrow> bytes option" where
  "fs_file (File b) [] = Some b"
| "fs_file (File b) (k # p) = None"
| "fs_file (Dir es) [] = None"
| "fs_file (Dir es) (k # p) = (case map_of es k of None \<Rightarrow> None | Some t \<Rightarrow> fs_file t p)"

lemma fs_file_File [simp]: "fs_file (File b) p = (if p = [] then Some b else None)"
  by (cases p) auto

lemma fs_lookup_File [simp]: "fs_lookup (File b) p = (if p = [] then Some (File b) else None)"
  by (cases p) auto

lemma fs_file_lookup:
  "fs_file t p = (case fs_lookup t p of Some (File b) \<Rightarrow> Some b | _ \<Rightarrow> None)"
  by (induction t p rule: fs_file.induct) (auto split: option.splits fsnode.splits)

lemma fs_file_mkdirp [fs_simps]: "fs_mkdirp t p = Some t' \<Longrightarrow> fs_file t' q = fs_file t q"
proof (induction t p arbitrary: t' q rule: fs_mkdirp.induct)
  case (3 es k p)
  let ?sub = "case map_of es k of None \<Rightarrow> Dir [] | Some t \<Rightarrow> t"
  from 3(2) obtain t1 where t1: "fs_mkdirp ?sub p = Some t1" "t' = Dir (AList.update k t1 es)"
    by auto
  show ?case
  proof (cases q)
    case Nil
    with t1 show ?thesis by simp
  next
    case (Cons j q')
    show ?thesis
    proof (cases "j = k")
      case True
      have "fs_file (Dir []) q' = None" by (cases q') auto
      with 3(1) [OF t1(1), of q'] t1 True Cons show ?thesis
        by (simp add: update_conv' split: option.splits)
    next
      case False
      with t1 Cons show ?thesis by (simp add: update_conv')
    qed
  qed
qed auto

lemma fs_file_write [fs_simps]:
  "fs_write t p c = Some t' \<Longrightarrow> fs_file t' q = (if q = p then Some c else fs_file t q)"
proof (induction t p c arbitrary: t' q rule: fs_write.induct)
  case (3 es k c)
  then have t': "t' = Dir (AList.update k (File c) es)" and nd: "\<And>ds. map_of es k \<noteq> Some (Dir ds)"
    by (auto split: option.splits fsnode.splits)
  have "fs_file (Dir es) (k # j # p) = None" for j p
    using nd by (auto split: option.splits) (metis fs_file.simps(2) fsnode.exhaust)
  with t' show ?case by (cases q rule: remdups_adj.cases) (auto simp: update_conv')
next
  case (4 es k j p c)
  then obtain t1 t2 where t: "map_of es k = Some t1" "fs_write t1 (j # p) c = Some t2"
      "t' = Dir (AList.update k t2 es)"
    by (auto split: option.splits)
  with 4(1) [OF t(1,2)] show ?case by (cases q) (auto simp: update_conv')
qed auto

lemma fs_file_unlink [fs_simps]:
  "fs_unlink t p = Some t' \<Longrightarrow> fs_file t' q = (if q = p then None else fs_file t q)"
proof (induction t p arbitrary: t' q rule: fs_unlink.induct)
  case (3 es k)
  then obtain c where "map_of es k = Some (File c)" "t' = Dir (AList.delete k es)"
    by (auto split: option.splits fsnode.splits)
  then show ?case by (cases q rule: remdups_adj.cases) (auto simp: delete_conv')
next
  case (4 es k j p)
  then obtain t1 t2 where t: "map_of es k = Some t1" "fs_unlink t1 (j # p) = Some t2"
      "t' = Dir (AList.update k t2 es)"
    by (auto split: option.splits)
  with 4(1) [OF t(1,2)] show ?case by (cases q) (auto simp: update_conv')
qed auto

section \<open>Trees of uniform depth\<close>

text \<open>
  In the store's tree all files lie at the same depth and all directories above it, and no
  directory holds a name twice. In such a tree the calls of the store cannot fail.
\<close>

fun fs_depth :: "nat \<Rightarrow> fsnode \<Rightarrow> bool" where
  "fs_depth 0 (File b) = True"
| "fs_depth 0 (Dir es) = False"
| "fs_depth (Suc n) (File b) = False"
| "fs_depth (Suc n) (Dir es) = (distinct (map fst es) \<and> (\<forall>t \<in> snd ` set es. fs_depth n t))"

lemma fs_depth_Dir: "fs_depth (Suc n) t \<longleftrightarrow>
    (\<exists>es. t = Dir es \<and> distinct (map fst es) \<and> (\<forall>t \<in> snd ` set es. fs_depth n t))"
  by (cases t) auto

lemma fs_depth_0: "fs_depth 0 t \<longleftrightarrow> (\<exists>b. t = File b)"
  by (cases t) auto

lemma fs_depth_sub: "fs_depth (Suc n) (Dir es) \<Longrightarrow> map_of es k = Some t \<Longrightarrow> fs_depth n t"
  by (auto dest: map_of_SomeD)

lemma snd_update_subset: "snd ` set (AList.update k t es) \<subseteq> insert t (snd ` set es)"
  by (induction es) auto

lemma fs_depth_update:
  assumes "fs_depth (Suc n) (Dir es)" and t: "fs_depth n t"
  shows "fs_depth (Suc n) (Dir (AList.update k t es))"
proof -
  have d: "distinct (map fst es)" and all: "\<forall>t \<in> snd ` set es. fs_depth n t"
    using assms(1) unfolding fs_depth.simps by blast+
  show ?thesis
  proof (unfold fs_depth.simps, intro conjI ballI)
    show "distinct (map fst (AList.update k t es))" using d by (rule distinct_update)
    fix u assume "u \<in> snd ` set (AList.update k t es)"
    then have "u \<in> insert t (snd ` set es)" by (rule subsetD [OF snd_update_subset])
    with all t show "fs_depth n u" by blast
  qed
qed

lemma fs_depth_delete:
  assumes "fs_depth (Suc n) (Dir es)"
  shows "fs_depth (Suc n) (Dir (AList.delete k es))"
proof -
  have "distinct (map fst es)" and all: "\<forall>t \<in> snd ` set es. fs_depth n t"
    using assms unfolding fs_depth.simps by blast+
  then have "distinct (map fst (AList.delete k es))" by (intro AList.distinct_delete)
  with all show ?thesis by (auto simp: AList.delete_eq)
qed

lemma fs_mkdirp_depth:
  "fs_depth n t \<Longrightarrow> length p < n \<Longrightarrow> \<exists>t'. fs_mkdirp t p = Some t' \<and> fs_depth n t'"
proof (induction t p arbitrary: n rule: fs_mkdirp.induct)
  case (3 es k p)
  then obtain m where n: "n = Suc m" "length p < m" by (cases n) auto
  let ?sub = "case map_of es k of None \<Rightarrow> Dir [] | Some t \<Rightarrow> t"
  have "fs_depth m ?sub"
    using 3(2) n by (cases m) (auto split: option.splits dest: fs_depth_sub)
  from 3(1) [OF this n(2)] obtain t' where "fs_mkdirp ?sub p = Some t'" "fs_depth m t'" by blast
  with 3(2) n show ?case by (auto intro: fs_depth_update simp del: fs_depth.simps)
qed (auto elim: fs_depth.elims)

lemma fs_mkdirp_makes: "fs_mkdirp t p = Some t' \<Longrightarrow> \<exists>es. fs_lookup t' p = Some (Dir es)"
proof (induction t p arbitrary: t' rule: fs_mkdirp.induct)
  case (3 es k p)
  then show ?case by (auto simp: update_conv')
qed auto

lemma fs_write_depth:
  "fs_depth n t \<Longrightarrow> length p = n \<Longrightarrow> fs_lookup t (butlast p) = Some (Dir ds) \<Longrightarrow> p \<noteq> [] \<Longrightarrow>
     \<exists>t'. fs_write t p c = Some t' \<and> fs_depth n t'"
proof (induction t p c arbitrary: n rule: fs_write.induct)
  case (3 es k c)
  then show ?case
    by (auto split: option.splits fsnode.splits simp del: fs_depth.simps(4)
        intro!: fs_depth_update dest: fs_depth_sub)
next
  case (4 es k j p c)
  then obtain m t where m: "n = Suc m" "map_of es k = Some t" by (cases n) (auto split: option.splits)
  with 4 have "fs_depth m t" by (auto dest: fs_depth_sub)
  with 4 m obtain t' where "fs_write t (j # p) c = Some t'" "fs_depth m t'" by fastforce
  with 4 m show ?case by (auto intro: fs_depth_update simp del: fs_depth.simps)
qed (auto elim: fs_depth.elims)

lemma fs_unlink_depth:
  "fs_depth n t \<Longrightarrow> fs_unlink t p = Some t' \<Longrightarrow> fs_depth n t'"
proof (induction t p arbitrary: n t' rule: fs_unlink.induct)
  case (3 es k)
  then show ?case
    by (cases n) (auto split: option.splits fsnode.splits simp del: fs_depth.simps(4)
        intro: fs_depth_delete)
next
  case (4 es k j p)
  then obtain m where "n = Suc m" by (cases n) auto
  with 4 show ?case
    by (auto split: option.splits simp del: fs_depth.simps(4) intro!: fs_depth_update
        dest: fs_depth_sub)
qed auto

lemma fs_unlink_file: "fs_file t p = Some b \<Longrightarrow> p \<noteq> [] \<Longrightarrow> \<exists>t'. fs_unlink t p = Some t'"
proof (induction t p rule: fs_unlink.induct)
  case (3 es k)
  then show ?case by (auto split: option.splits fsnode.splits elim: fs_file.elims)
next
  case (4 es k j p)
  then show ?case by (auto split: option.splits)
qed auto

lemma fs_lookup_depth_file:
  "fs_depth n t \<Longrightarrow> length p = n \<Longrightarrow> fs_lookup t p = Some u \<Longrightarrow> \<exists>b. u = File b"
proof (induction t p arbitrary: n rule: fs_lookup.induct)
  case (3 es k p)
  then show ?case by (cases n) (auto split: option.splits dest: fs_depth_sub simp del: fs_depth.simps)
qed (auto simp: fs_depth_0)

text \<open>Taking a file away or writing one keeps every directory in place.\<close>

lemma fs_unlink_dirs:
  "fs_unlink t p = Some t' \<Longrightarrow> fs_lookup t q = Some (Dir es) \<Longrightarrow> \<exists>es'. fs_lookup t' q = Some (Dir es')"
proof (induction t p arbitrary: t' q rule: fs_unlink.induct)
  case (3 ds k)
  then show ?case by (cases q) (auto split: option.splits fsnode.splits if_splits simp: delete_conv')
next
  case (4 ds k j p)
  then show ?case by (cases q) (auto split: option.splits if_splits simp: update_conv')
qed auto

lemma fs_write_dirs:
  "fs_write t p c = Some t' \<Longrightarrow> fs_lookup t q = Some (Dir es) \<Longrightarrow> \<exists>es'. fs_lookup t' q = Some (Dir es')"
proof (induction t p c arbitrary: t' q rule: fs_write.induct)
  case (3 ds k c)
  then show ?case
    by (cases q) (auto split: option.splits fsnode.splits if_splits simp: update_conv'
        elim: fs_lookup.elims)
next
  case (4 ds k j p c)
  then show ?case by (cases q) (auto split: option.splits if_splits simp: update_conv')
qed auto

end
