(* ===== verification/ChunkStore.thy ===== *)
theory ChunkStore
  imports FileSystem
begin

text \<open>
  \<^verbatim>\<open>src/chunkStore.js\<close>: a storage node's chunk store on disk. Every operation is the code's
  sequence of file-system calls on a directory tree. \<open>copies\<close> abstracts the tree to a map
  from hashes to the bytes stored under them; each operation is shown to act on that map.
\<close>

section \<open>The code\<close>

definition tmp_name :: "nonce \<Rightarrow> string" where
  "tmp_name z = ''.tmp-'' @ decimal (fst z) @ ''-'' @ hex_encode (snd z)"

definition chunk_dir :: "string \<Rightarrow> path" where
  "chunk_dir h = [take 2 h, take 2 (drop 2 h)]"

definition pathFor :: "string \<Rightarrow> js_error + (path \<times> path)" where
  "pathFor h =
     (if \<not> valid_hash h then Inl TypeError
      else let dir = chunk_dir h in Inr (dir, dir @ [h]))"

definition new_store :: fsnode where
  "new_store = Dir []"

definition has_chunk :: "string \<Rightarrow> fsnode \<Rightarrow> js_error + bool" where
  "has_chunk h t =
     (case pathFor h of Inl e \<Rightarrow> Inl e | Inr (dir, file) \<Rightarrow> Inr (existsSync t file))"

record put_outcome =
  written :: bool
  deduped :: bool

text \<open>What \<^verbatim>\<open>createHash(...).update\<close> accepts, as the bytes it feeds to the digest.\<close>

fun hash_input :: "js_value \<Rightarrow> bytes option" where
  "hash_input (Buffer b) = Some b"
| "hash_input (Text s) = Some (utf8 s)"
| "hash_input Other = None"

definition put_chunk ::
  "sha256 \<Rightarrow> nonce \<Rightarrow> string \<Rightarrow> js_value \<Rightarrow> fsnode \<Rightarrow> (js_error + put_outcome) \<times> fsnode" where
  "put_chunk sha z h v t =
     (case hash_input v of
        None \<Rightarrow> (Inl TypeError, t)
      | Some buf \<Rightarrow>
          let actual = sha256_hex sha buf
          in if actual \<noteq> h then (Inl (ChunkIntegrityError h actual), t)
             else case pathFor h of
               Inl e \<Rightarrow> (Inl e, t)
             | Inr (dir, file) \<Rightarrow>
                 if existsSync t file then (Inr \<lparr>written = False, deduped = True\<rparr>, t)
                 else case mkdirSync t dir of
                   Inl e \<Rightarrow> (Inl e, t)
                 | Inr t1 \<Rightarrow>
                     let tmp = dir @ [tmp_name z]
                     in case writeFileSync t1 tmp buf of
                       Inl e \<Rightarrow> (Inl e, t1)
                     | Inr t2 \<Rightarrow>
                         case renameSync t2 tmp file of
                           Inl e \<Rightarrow> (Inl e, t2)
                         | Inr t3 \<Rightarrow> (Inr \<lparr>written = True, deduped = False\<rparr>, t3))"

definition get_chunk :: "sha256 \<Rightarrow> string \<Rightarrow> fsnode \<Rightarrow> js_error + bytes option" where
  "get_chunk sha h t =
     (case pathFor h of
        Inl e \<Rightarrow> Inl e
      | Inr (dir, file) \<Rightarrow>
          if \<not> existsSync t file then Inr None
          else case readFileSync t file of
            Inl e \<Rightarrow> Inl e
          | Inr buf \<Rightarrow>
              let actual = sha256_hex sha buf
              in if actual \<noteq> h then Inl (ChunkIntegrityError h actual) else Inr (Some buf))"

definition delete_chunk :: "string \<Rightarrow> fsnode \<Rightarrow> (js_error + bool) \<times> fsnode" where
  "delete_chunk h t =
     (case pathFor h of
        Inl e \<Rightarrow> (Inl e, t)
      | Inr (dir, file) \<Rightarrow>
          if existsSync t file then
            case unlinkSync t file of
              Inl e \<Rightarrow> (Inl e, t)
            | Inr t' \<Rightarrow> (Inr True, t')
          else (Inr False, t))"

text \<open>The recursive directory walk of \<^verbatim>\<open>stats\<close>, with its two counters.\<close>

function stats_walk :: "(string \<times> fsnode) list \<Rightarrow> nat \<times> nat \<Rightarrow> nat \<times> nat" where
  "stats_walk [] acc = acc"
| "stats_walk ((name, t) # es) acc =
     (if prefix ''.tmp-'' name then stats_walk es acc
      else case t of
        Dir ds \<Rightarrow> stats_walk es (stats_walk ds acc)
      | File b \<Rightarrow> stats_walk es (fst acc + 1, snd acc + length b))"
  by pat_completeness auto
termination
  by (relation "measure (\<lambda>(es, acc). size_list (size_prod (\<lambda>_. 0) size) es)") auto

definition store_stats :: "fsnode \<Rightarrow> nat \<times> nat" where
  "store_stats t =
     (if existsSync t [] then (case t of Dir es \<Rightarrow> stats_walk es (0, 0) | File b \<Rightarrow> (0, 0))
      else (0, 0))"

section \<open>The abstraction\<close>

definition chunk_file :: "string \<Rightarrow> path" where
  "chunk_file h = chunk_dir h @ [h]"

definition copies :: "fsnode \<Rightarrow> string \<Rightarrow> bytes option" where
  "copies t h = (if valid_hash h then fs_file t (chunk_file h) else None)"

definition store_wf :: "fsnode \<Rightarrow> bool" where
  "store_wf t \<longleftrightarrow> fs_depth 3 t"

text \<open>No copy is corrupt: what is stored under a hash hashes to it.\<close>

definition store_sound :: "sha256 \<Rightarrow> fsnode \<Rightarrow> bool" where
  "store_sound sha t \<longleftrightarrow> (\<forall>h b. copies t h = Some b \<longrightarrow> sha256_hex sha b = h)"

lemma copies_invalid: "\<not> valid_hash h \<Longrightarrow> copies t h = None"
  by (simp add: copies_def)

lemma pathFor_valid [simp]: "valid_hash h \<Longrightarrow> pathFor h = Inr (chunk_dir h, chunk_file h)"
  by (simp add: pathFor_def chunk_file_def Let_def)

lemma pathFor_invalid [simp]: "\<not> valid_hash h \<Longrightarrow> pathFor h = Inl TypeError"
  by (simp add: pathFor_def)

lemma chunk_file_inj [simp]: "chunk_file h = chunk_file h' \<longleftrightarrow> h = h'"
  by (auto simp: chunk_file_def chunk_dir_def)

lemma length_chunk_path [simp]: "length (chunk_dir h) = 2" "length (chunk_file h) = 3"
  by (simp_all add: chunk_file_def chunk_dir_def)

lemma tmp_not_chunk: "valid_hash h \<Longrightarrow> valid_hash h' \<Longrightarrow> chunk_file h' \<noteq> chunk_dir h @ [tmp_name z]"
proof
  assume h: "valid_hash h'" and eq: "chunk_file h' = chunk_dir h @ [tmp_name z]"
  then have "h' = tmp_name z" by (simp add: chunk_file_def)
  then have "CHR ''.'' \<in> set h'" by (simp add: tmp_name_def)
  moreover have "set h' \<subseteq> hex_chars" using h by (auto simp: valid_hash_def list_all_iff)
  ultimately have "CHR ''.'' \<in> hex_chars" by blast
  then show False by (simp add: hex_chars_def)
qed

lemma exists_chunk:
  assumes "store_wf t" and "valid_hash h"
  shows "existsSync t (chunk_file h) \<longleftrightarrow> copies t h \<noteq> None"
proof -
  have "\<exists>b. u = File b" if "fs_lookup t (chunk_file h) = Some u" for u
    using fs_lookup_depth_file [of 3 t "chunk_file h" u] that assms by (simp add: store_wf_def)
  with assms(2) show ?thesis
    by (cases "fs_lookup t (chunk_file h)") (auto simp: existsSync_def copies_def fs_file_lookup)
qed

lemma read_chunk:
  "valid_hash h \<Longrightarrow> copies t h = Some b \<Longrightarrow> readFileSync t (chunk_file h) = Inr b"
  by (auto simp: copies_def fs_file_lookup readFileSync_def split: option.splits fsnode.splits)

lemma store_wf_new: "store_wf new_store"
  by (simp add: store_wf_def new_store_def eval_nat_numeral)

lemma copies_new: "copies new_store h = None"
  by (simp add: copies_def new_store_def chunk_file_def chunk_dir_def)

section \<open>The operations on the abstraction\<close>

lemma put_write:
  assumes wf: "store_wf t" and h: "valid_hash h" and new: "copies t h = None"
    and hash: "hash_input v = Some buf" "sha256_hex sha buf = h"
  shows "\<exists>t'. put_chunk sha z h v t = (Inr \<lparr>written = True, deduped = False\<rparr>, t')
    \<and> store_wf t' \<and> copies t' = (copies t)(h \<mapsto> buf)
    \<and> (\<forall>q. fs_file t' q \<noteq> None \<longrightarrow> q = chunk_file h \<or> fs_file t q \<noteq> None)"
proof -
  let ?dir = "chunk_dir h" and ?file = "chunk_file h" and ?tmp = "chunk_dir h @ [tmp_name z]"
  from wf h new have absent: "\<not> existsSync t ?file" by (simp add: exists_chunk)
  obtain t1 where t1: "fs_mkdirp t ?dir = Some t1" "fs_depth 3 t1"
    using fs_mkdirp_depth [of 3 t ?dir] wf by (auto simp: store_wf_def)
  from fs_mkdirp_makes [OF t1(1)] obtain es where "fs_lookup t1 ?dir = Some (Dir es)" ..
  then obtain t2 where t2: "fs_write t1 ?tmp buf = Some t2" "fs_depth 3 t2"
    using fs_write_depth [of 3 t1 ?tmp es buf] t1(2) by auto
  from fs_write_dirs [OF t2(1)] \<open>fs_lookup t1 ?dir = _\<close>
  obtain es2 where "fs_lookup t2 ?dir = Some (Dir es2)" by blast
  have f2: "fs_file t2 ?tmp = Some buf" using t2(1) by (simp add: fs_simps)
  then have l2: "fs_lookup t2 ?tmp = Some (File buf)"
    by (auto simp: fs_file_lookup split: option.splits fsnode.splits)
  from fs_unlink_file [OF f2] obtain t3 where t3: "fs_unlink t2 ?tmp = Some t3" by auto
  with t2(2) have d3: "fs_depth 3 t3" by (blast intro: fs_unlink_depth)
  from fs_unlink_dirs [OF t3 \<open>fs_lookup t2 ?dir = _\<close>]
  obtain es3 where "fs_lookup t3 ?dir = Some (Dir es3)" by blast
  then obtain t4 where t4: "fs_write t3 ?file buf = Some t4" "fs_depth 3 t4"
    using fs_write_depth [of 3 t3 ?file es3 buf] d3 by (auto simp: chunk_file_def)
  have "put_chunk sha z h v t = (Inr \<lparr>written = True, deduped = False\<rparr>, t4)"
    using absent h hash t1(1) t2(1) l2 t3 t4(1)
    by (simp add: put_chunk_def Let_def mkdirSync_def writeFileSync_def renameSync_def fs_result_def)
  moreover have "copies t4 h' = ((copies t)(h \<mapsto> buf)) h'" for h'
    using t1(1) t2(1) t3 t4(1) h tmp_not_chunk [of h h' z]
    by (auto simp: copies_def fs_simps)
  moreover have "q = ?file \<or> fs_file t q \<noteq> None" if "fs_file t4 q \<noteq> None" for q
    using that t1(1) t2(1) t3 t4(1) by (auto simp: fs_simps split: if_splits)
  ultimately show ?thesis using t4(2) by (auto simp: store_wf_def)
qed

text \<open>The whole behaviour of \<^verbatim>\<open>put\<close> on a well-formed store.\<close>

lemma put_chunk_cases:
  assumes "store_wf t"
  obtains
    (bad_type) "hash_input v = None" "put_chunk sha z h v t = (Inl TypeError, t)"
  | (mismatch) buf where "hash_input v = Some buf" "sha256_hex sha buf \<noteq> h"
      "put_chunk sha z h v t = (Inl (ChunkIntegrityError h (sha256_hex sha buf)), t)"
  | (dedup) buf old where "hash_input v = Some buf" "sha256_hex sha buf = h" "copies t h = Some old"
      "put_chunk sha z h v t = (Inr \<lparr>written = False, deduped = True\<rparr>, t)"
  | (stored) buf t' where "hash_input v = Some buf" "sha256_hex sha buf = h" "copies t h = None"
      "put_chunk sha z h v t = (Inr \<lparr>written = True, deduped = False\<rparr>, t')"
      "store_wf t'" "copies t' = (copies t)(h \<mapsto> buf)"
      "\<forall>q. fs_file t' q \<noteq> None \<longrightarrow> q = chunk_file h \<or> fs_file t q \<noteq> None"
proof (cases "hash_input v")
  case None
  then show ?thesis by (intro bad_type) (simp_all add: put_chunk_def)
next
  case (Some buf)
  show ?thesis
  proof (cases "sha256_hex sha buf = h")
    case False
    with Some show ?thesis by (intro mismatch [of buf]) (simp_all add: put_chunk_def Let_def)
  next
    case True
    then have h: "valid_hash h" using valid_sha256_hex [of sha buf] by simp
    show ?thesis
    proof (cases "copies t h")
      case None
      from put_write [OF assms h None Some True, of z]
      obtain t' where "put_chunk sha z h v t = (Inr \<lparr>written = True, deduped = False\<rparr>, t')"
          "store_wf t'" "copies t' = (copies t)(h \<mapsto> buf)"
          "\<forall>q. fs_file t' q \<noteq> None \<longrightarrow> q = chunk_file h \<or> fs_file t q \<noteq> None"
        by blast
      then show ?thesis by (rule stored [OF Some True None])
    next
      case old: (Some old)
      with assms h have "existsSync t (chunk_file h)" by (simp add: exists_chunk)
      with Some True h old show ?thesis
        by (intro dedup [of buf old]) (simp_all add: put_chunk_def Let_def)
    qed
  qed
qed

lemma get_chunk_eq:
  assumes "store_wf t"
  shows "get_chunk sha h t =
    (if \<not> valid_hash h then Inl TypeError
     else case copies t h of
       None \<Rightarrow> Inr None
     | Some b \<Rightarrow> if sha256_hex sha b = h then Inr (Some b)
                 else Inl (ChunkIntegrityError h (sha256_hex sha b)))"
proof (cases "valid_hash h")
  case False
  then show ?thesis by (simp add: get_chunk_def)
next
  case True
  with assms show ?thesis
    by (cases "copies t h") (simp_all add: get_chunk_def exists_chunk read_chunk Let_def)
qed

lemma delete_chunk_spec:
  assumes wf: "store_wf t" and h: "valid_hash h"
  shows "\<exists>t'. delete_chunk h t = (Inr (copies t h \<noteq> None), t')
    \<and> store_wf t' \<and> copies t' = (copies t)(h := None)
    \<and> (\<forall>q. fs_file t' q \<noteq> None \<longrightarrow> fs_file t q \<noteq> None)"
proof (cases "copies t h")
  case None
  then have "(copies t)(h := None) = copies t" by auto
  with None wf h show ?thesis by (simp add: delete_chunk_def exists_chunk)
next
  case (Some b)
  then have "fs_file t (chunk_file h) = Some b" using h by (simp add: copies_def)
  moreover have "chunk_file h \<noteq> []" by (simp add: chunk_file_def)
  ultimately obtain t' where t': "fs_unlink t (chunk_file h) = Some t'"
    using fs_unlink_file by blast
  then have "store_wf t'" using wf fs_unlink_depth unfolding store_wf_def by blast
  moreover have "copies t' = (copies t)(h := None)"
    using t' h by (auto simp: copies_def fs_simps)
  moreover have "fs_file t q \<noteq> None" if "fs_file t' q \<noteq> None" for q
    using that t' by (auto simp: fs_simps split: if_splits)
  ultimately show ?thesis
    using Some t' wf h by (simp add: delete_chunk_def exists_chunk unlinkSync_def fs_result_def)
qed

lemma delete_chunk_invalid: "\<not> valid_hash h \<Longrightarrow> delete_chunk h t = (Inl TypeError, t)"
  by (simp add: delete_chunk_def)

section \<open>Counting what is stored\<close>

definition visible :: "fsnode \<Rightarrow> path set" where
  "visible t = {p. fs_file t p \<noteq> None \<and> (\<forall>k \<in> set p. \<not> prefix ''.tmp-'' k)}"

definition weight :: "fsnode \<Rightarrow> nat" where
  "weight t = (\<Sum>p \<in> visible t. length (the (fs_file t p)))"

lemma visible_File: "visible (File b) = {[]}"
  by (auto simp: visible_def)

lemma weight_File: "weight (File b) = length b"
  by (simp add: weight_def visible_File)

lemma visible_empty: "visible (Dir []) = {}"
proof -
  have "fs_file (Dir []) p = None" for p by (cases p) auto
  then show ?thesis by (simp add: visible_def)
qed

lemma fs_file_Cons:
  "k \<notin> fst ` set es \<Longrightarrow> fs_file (Dir ((k, t) # es)) p =
     (case p of [] \<Rightarrow> None | j # q \<Rightarrow> if j = k then fs_file t q else fs_file (Dir es) p)"
  by (cases p) auto

lemma visible_Cons:
  assumes "k \<notin> fst ` set es"
  shows "visible (Dir ((k, t) # es)) =
    (if prefix ''.tmp-'' k then {} else (#) k ` visible t) \<union> visible (Dir es)"
proof -
  have none: "map_of es k = None" using assms map_of_eq_None_iff [of es k] by simp
  show ?thesis
  proof (rule set_eqI)
    fix p
    show "p \<in> visible (Dir ((k, t) # es)) \<longleftrightarrow>
        p \<in> (if prefix ''.tmp-'' k then {} else (#) k ` visible t) \<union> visible (Dir es)"
      using none by (cases p) (auto simp: visible_def)
  qed
qed

lemma weight_Cons:
  assumes k: "k \<notin> fst ` set es" and fin: "finite (visible t)" "finite (visible (Dir es))"
  shows "card (visible (Dir ((k, t) # es))) =
      (if prefix ''.tmp-'' k then 0 else card (visible t)) + card (visible (Dir es))"
    and "weight (Dir ((k, t) # es)) =
      (if prefix ''.tmp-'' k then 0 else weight t) + weight (Dir es)"
proof -
  have disj: "(#) k ` visible t \<inter> visible (Dir es) = {}"
    using k map_of_eq_None_iff [of es k] by (auto simp: visible_def)
  have old: "fs_file (Dir ((k, t) # es)) p = fs_file (Dir es) p" if "p \<in> visible (Dir es)" for p
    using that disj k map_of_eq_None_iff [of es k]
    by (auto simp: fs_file_Cons [OF k] visible_def split: list.splits)
  have rest: "(\<Sum>p \<in> visible (Dir es). length (the (fs_file (Dir ((k, t) # es)) p))) = weight (Dir es)"
    unfolding weight_def by (intro sum.cong refl) (simp only: old)
  have sub: "(\<Sum>p \<in> (#) k ` visible t. length (the (fs_file (Dir ((k, t) # es)) p))) = weight t"
    unfolding weight_def by (subst sum.reindex) auto
  show "card (visible (Dir ((k, t) # es))) =
      (if prefix ''.tmp-'' k then 0 else card (visible t)) + card (visible (Dir es))"
    using disj fin by (simp add: visible_Cons [OF k] card_Un_disjoint card_image)
  show "weight (Dir ((k, t) # es)) =
      (if prefix ''.tmp-'' k then 0 else weight t) + weight (Dir es)"
    using disj fin rest sub
    by (simp add: weight_def [of "Dir ((k, t) # es)"] visible_Cons [OF k] sum.union_disjoint
        del: fs_file.simps)
qed

lemma finite_visible: "fs_depth n t \<Longrightarrow> finite (visible t)"
proof (induction n arbitrary: t)
  case 0
  then show ?case by (auto simp: fs_depth_0 visible_File)
next
  case (Suc n)
  then obtain es where t: "t = Dir es" by (auto simp: fs_depth_Dir)
  have "finite (visible (Dir es))" if "distinct (map fst es)" "\<forall>u \<in> snd ` set es. fs_depth n u" for es
    using that
  proof (induction es)
    case Nil
    show ?case by (simp add: visible_empty)
  next
    case (Cons e es)
    with Suc.IH show ?case by (cases e) (auto simp: visible_Cons)
  qed
  with Suc.prems t show ?case unfolding t fs_depth.simps by blast
qed

lemma stats_walk_visible:
  "fs_depth (Suc n) (Dir es) \<Longrightarrow>
     stats_walk es acc = (fst acc + card (visible (Dir es)), snd acc + weight (Dir es))"
proof (induction es acc arbitrary: n rule: stats_walk.induct)
  case (1 acc)
  then show ?case by (simp add: visible_empty weight_def)
next
  case (2 name t es acc)
  then have k: "name \<notin> fst ` set es" and t: "fs_depth n t" and es: "fs_depth (Suc n) (Dir es)"
    by auto
  note fin = finite_visible [OF t] finite_visible [OF es]
  show ?case
  proof (cases "prefix ''.tmp-'' name")
    case True
    with 2(1) [OF True es] show ?thesis by (simp add: weight_Cons [OF k fin])
  next
    case False
    show ?thesis
    proof (cases t)
      case (File b)
      with 2(2) [OF False File es] False show ?thesis
        by (simp add: weight_Cons [OF k fin, unfolded File] visible_File weight_File)
    next
      case (Dir ds)
      then obtain m where "fs_depth (Suc m) (Dir ds)" using t by (cases n) auto
      from 2(3) [OF False Dir this] 2(4) [OF False Dir es] Dir False show ?thesis
        by (simp add: weight_Cons [OF k fin, unfolded Dir])
    qed
  qed
qed

text \<open>
  The only files are chunks under their hash, and temporary files that a crash left behind.
\<close>

definition store_named :: "fsnode \<Rightarrow> bool" where
  "store_named t \<longleftrightarrow> (\<forall>p. fs_file t p \<noteq> None \<longrightarrow>
     (\<exists>h. valid_hash h \<and> p = chunk_file h)
     \<or> (\<exists>d z. p = d @ [tmp_name z]))"

lemma tmp_prefix: "prefix ''.tmp-'' (tmp_name z)"
  by (simp add: tmp_name_def)

lemma no_tmp_chunk:
  assumes "valid_hash h" and "k \<in> set (chunk_file h)"
  shows "\<not> prefix ''.tmp-'' k"
proof
  assume "prefix ''.tmp-'' k"
  then have "CHR ''.'' \<in> set k" by (auto simp: prefix_def)
  moreover have "set k \<subseteq> set h"
    using assms(2) by (auto simp: chunk_file_def chunk_dir_def dest: in_set_takeD in_set_dropD)
  moreover have "set h \<subseteq> hex_chars" using assms(1) by (auto simp: valid_hash_def list_all_iff)
  ultimately have "CHR ''.'' \<in> hex_chars" by blast
  then show False by (simp add: hex_chars_def)
qed

lemma visible_chunks:
  assumes "store_named t"
  shows "visible t = chunk_file ` {h. copies t h \<noteq> None}"
proof -
  have "p \<in> chunk_file ` {h. copies t h \<noteq> None}" if p: "p \<in> visible t" for p
  proof -
    have "\<nexists>d z. p = d @ [tmp_name z]" using p tmp_prefix by (auto simp: visible_def)
    with assms p obtain h where "valid_hash h" "p = chunk_file h"
      unfolding store_named_def visible_def by blast
    with p show ?thesis by (auto simp: visible_def copies_def)
  qed
  moreover have "chunk_file h \<in> visible t" if "copies t h \<noteq> None" for h
    using that no_tmp_chunk [of h] by (auto simp: visible_def copies_def split: if_splits)
  ultimately show ?thesis by blast
qed

lemma stats_chunks:
  assumes "store_wf t" and "store_named t"
  shows "store_stats t =
    (card {h. copies t h \<noteq> None}, \<Sum>h | copies t h \<noteq> None. length (the (copies t h)))"
proof -
  obtain es where t: "t = Dir es" "fs_depth (Suc 2) (Dir es)"
    using assms(1) by (auto simp: store_wf_def eval_nat_numeral fs_depth_Dir)
  have inj: "inj_on chunk_file A" for A by (auto simp: inj_on_def)
  have "length (the (fs_file t (chunk_file h))) = length (the (copies t h))"
    if "copies t h \<noteq> None" for h
    using that by (auto simp: copies_def split: if_splits)
  then have "weight t = (\<Sum>h | copies t h \<noteq> None. length (the (copies t h)))"
    by (simp add: weight_def visible_chunks [OF assms(2)] sum.reindex [OF inj])
  moreover have "card (visible t) = card {h. copies t h \<noteq> None}"
    by (simp add: visible_chunks [OF assms(2)] card_image [OF inj])
  ultimately show ?thesis
    using stats_walk_visible [OF t(2), of "(0, 0)"] t(1)
    by (simp add: store_stats_def existsSync_def)
qed

section \<open>Stores that only the operations have touched\<close>

definition store_ok :: "sha256 \<Rightarrow> fsnode \<Rightarrow> bool" where
  "store_ok sha t \<longleftrightarrow> store_wf t \<and> store_sound sha t \<and> store_named t"

lemma store_ok_new: "store_ok sha new_store"
proof -
  have "fs_file new_store p = None" for p by (cases p) (simp_all add: new_store_def)
  then show ?thesis
    by (simp add: store_ok_def store_wf_new store_sound_def copies_new store_named_def)
qed

lemma store_ok_put:
  assumes "store_ok sha t"
  shows "store_ok sha (snd (put_chunk sha z h v t))"
proof -
  from assms have wf: "store_wf t" by (simp add: store_ok_def)
  then show ?thesis
  proof (cases rule: put_chunk_cases [of t v sha z h])
    case (stored buf t')
    then have "valid_hash h" using valid_sha256_hex [of sha buf] by simp
    with stored(7) assms have "store_named t'" unfolding store_ok_def store_named_def by blast
    with stored assms show ?thesis by (auto simp: store_ok_def store_sound_def)
  qed (use assms in simp_all)
qed

lemma store_ok_delete:
  assumes "store_ok sha t"
  shows "store_ok sha (snd (delete_chunk h t))"
proof (cases "valid_hash h")
  case True
  from assms have "store_wf t" by (simp add: store_ok_def)
  with delete_chunk_spec [OF this True] obtain t' where t': "snd (delete_chunk h t) = t'"
      "store_wf t'" "copies t' = (copies t)(h := None)"
      "\<forall>q. fs_file t' q \<noteq> None \<longrightarrow> fs_file t q \<noteq> None"
    by auto
  then have "store_named t'" using assms unfolding store_ok_def store_named_def by blast
  with t' assms show ?thesis by (auto simp: store_ok_def store_sound_def)
next
  case False
  with assms show ?thesis by (simp add: delete_chunk_invalid)
qed

datatype store_op = Put nonce string js_value | Delete string

fun store_step :: "sha256 \<Rightarrow> fsnode \<Rightarrow> store_op \<Rightarrow> fsnode" where
  "store_step sha t (Put z h v) = snd (put_chunk sha z h v t)"
| "store_step sha t (Delete h) = snd (delete_chunk h t)"

definition store_run :: "sha256 \<Rightarrow> store_op list \<Rightarrow> fsnode" where
  "store_run sha ops = foldl (store_step sha) new_store ops"

lemma store_ok_run: "store_ok sha (store_run sha ops)"
proof -
  have "store_ok sha (foldl (store_step sha) t ops)" if "store_ok sha t" for t
    using that
  proof (induction ops arbitrary: t)
    case (Cons op ops)
    then show ?case by (cases op) (auto intro: store_ok_put store_ok_delete)
  qed simp
  then show ?thesis unfolding store_run_def using store_ok_new by blast
qed

section \<open>Properties\<close>

text \<open>
  C20: \<^verbatim>\<open>put\<close> refines insertion into a map. Bytes that do not hash to the claimed name are
  refused and change nothing; a name that is already there is reported as deduplicated and
  changes nothing; otherwise the store afterwards holds the bytes under that name, every other
  chunk is as before, and no call of the file system fails.
\<close>

theorem put_chunk_refines_map:
  assumes "store_wf t"
  shows "\<exists>r t'. put_chunk sha z h (Buffer buf) t = (r, t') \<and> store_wf t' \<and>
    (if sha256_hex sha buf \<noteq> h then r = Inl (ChunkIntegrityError h (sha256_hex sha buf)) \<and> t' = t
     else if copies t h \<noteq> None then r = Inr \<lparr>written = False, deduped = True\<rparr> \<and> t' = t
     else r = Inr \<lparr>written = True, deduped = False\<rparr> \<and> copies t' = (copies t)(h \<mapsto> buf))"
  by (cases rule: put_chunk_cases [OF assms, of "Buffer buf" sha z h]) (auto simp: assms)

theorem put_chunk_refines_map_witness:
  "\<exists>t'. put_chunk (\<lambda>_. 5) (1, [7]) (sha256_hex (\<lambda>_. 5) [3]) (Buffer [3]) new_store
      = (Inr \<lparr>written = True, deduped = False\<rparr>, t')
    \<and> copies t' (sha256_hex (\<lambda>_. 5) [3]) = Some [3]"
  using put_chunk_refines_map [OF store_wf_new, of "\<lambda>_. 5" "(1, [7])" "sha256_hex (\<lambda>_. 5) [3]" "[3]"]
  by (auto simp: copies_new)

text \<open>
  What a well-formed store answers to \<^verbatim>\<open>get\<close>: a malformed name throws, a missing chunk
  is \<^verbatim>\<open>null\<close>, a copy whose bytes no longer hash to its name is reported as corrupt and never
  returned, and everything else is returned as stored. Deleting removes exactly that chunk.
\<close>

theorem get_and_delete_chunk:
  assumes "store_wf t"
  shows "get_chunk sha h t =
      (if \<not> valid_hash h then Inl TypeError
       else case copies t h of
         None \<Rightarrow> Inr None
       | Some b \<Rightarrow> if sha256_hex sha b = h then Inr (Some b)
                   else Inl (ChunkIntegrityError h (sha256_hex sha b)))
    \<and> (\<exists>t'. delete_chunk h t =
          (if valid_hash h then Inr (copies t h \<noteq> None) else Inl TypeError, t')
        \<and> store_wf t' \<and> copies t' = (copies t)(h := None))"
proof (cases "valid_hash h")
  case True
  with get_chunk_eq [OF assms, of sha h] delete_chunk_spec [OF assms True] show ?thesis by auto
next
  case False
  with assms have "(copies t)(h := None) = copies t" by (auto simp: copies_invalid)
  with False get_chunk_eq [OF assms, of sha h] assms show ?thesis
    by (simp add: delete_chunk_invalid)
qed

theorem get_and_delete_chunk_witness:
  "get_chunk (\<lambda>_. 5) ''zz'' new_store = Inl TypeError"
  using get_and_delete_chunk [OF store_wf_new, of "\<lambda>_. 5" "''zz''"] by (simp add: valid_hash_def)

text \<open>
  After any sequence of puts and deletes on an empty store, whatever names and bytes the
  requests carried, no copy is corrupt: a chunk that is there hashes to its name and is
  returned by \<^verbatim>\<open>get\<close>.
\<close>

theorem store_run_sound:
  "copies (store_run sha ops) h = (case get_chunk sha h (store_run sha ops) of
      Inr r \<Rightarrow> r | Inl e \<Rightarrow> None)"
proof -
  have ok: "store_wf (store_run sha ops)" "store_sound sha (store_run sha ops)"
    using store_ok_run [of sha ops] by (simp_all add: store_ok_def)
  then show ?thesis
    by (auto simp: get_chunk_eq copies_invalid store_sound_def split: option.splits)
qed

text \<open>
  \<^verbatim>\<open>stats\<close> counts every stored chunk once, however often it was uploaded: the number of
  names in the store and the sum of the sizes of their bytes, without temporary files.
\<close>

theorem store_stats_counts_chunks:
  "store_stats (store_run sha ops) =
    (card {h. copies (store_run sha ops) h \<noteq> None},
     \<Sum>h | copies (store_run sha ops) h \<noteq> None. length (the (copies (store_run sha ops) h)))"
  using store_ok_run [of sha ops] by (intro stats_chunks) (simp_all add: store_ok_def)

text \<open>
  A put does not repair. Where the copy on disk is corrupt, uploading the right bytes
  again is answered as a successful, deduplicated write, and the next read still finds the
  corrupt copy.
\<close>

theorem put_chunk_keeps_corrupt_copy:
  assumes "store_wf t" and "copies t h = Some old" and "sha256_hex sha old \<noteq> h"
    and "sha256_hex sha buf = h"
  shows "put_chunk sha z h (Buffer buf) t = (Inr \<lparr>written = False, deduped = True\<rparr>, t)
    \<and> get_chunk sha h t = Inl (ChunkIntegrityError h (sha256_hex sha old))"
proof -
  from assms(4) have "valid_hash h" using valid_sha256_hex [of sha buf] by simp
  with assms have "get_chunk sha h t = Inl (ChunkIntegrityError h (sha256_hex sha old))"
    by (simp add: get_chunk_eq)
  then show ?thesis
    by (cases rule: put_chunk_cases [OF assms(1), of "Buffer buf" sha z h]) (use assms in auto)
qed

theorem put_chunk_keeps_corrupt_copy_witness:
  "\<exists>t. put_chunk (\<lambda>b. if b = [1] then 1 else 0) (1, []) (sha256_hex (\<lambda>_. 1) []) (Buffer [1]) t
      = (Inr \<lparr>written = False, deduped = True\<rparr>, t)
    \<and> copies t (sha256_hex (\<lambda>_. 1) []) = Some [2]"
proof -
  let ?h = "sha256_hex (\<lambda>_. 1) []" and ?sha = "\<lambda>b :: bytes. if b = [1] then 1 else 0 :: 256 word"
  obtain t where t: "store_wf t" "copies t ?h = Some [2]"
    using put_write [OF store_wf_new valid_sha256_hex [of "\<lambda>_. 1" "[]"] copies_new,
        of "Buffer [2]" "[2]" "\<lambda>_. 1" "(1, [])"]
    by auto
  have "sha256_hex ?sha [2] \<noteq> ?h" "sha256_hex ?sha [1] = ?h" by simp_all
  from put_chunk_keeps_corrupt_copy [OF t this] t show ?thesis by blast
qed

end
