(* ===== verification/StorageNode.thy ===== *)
theory StorageNode
  imports ChunkStore ChunkService
begin

text \<open>
  \<^verbatim>\<open>src/storageNode.js\<close>: the HTTP handlers of a storage node around its chunk store. An
  exception a handler does not catch becomes the framework's response with status 500.
\<close>

section \<open>The code\<close>

record storage_node =
  node_id :: string
  node_store :: fsnode

definition buildStorageNode :: "string \<Rightarrow> storage_node" where
  "buildStorageNode nodeId = \<lparr>node_id = nodeId, node_store = new_store\<rparr>"

definition is_integrity_error :: "js_error \<Rightarrow> bool" where
  "is_integrity_error e = (case e of ChunkIntegrityError _ _ \<Rightarrow> True | _ \<Rightarrow> False)"

definition node_put ::
  "sha256 \<Rightarrow> nonce \<Rightarrow> string \<Rightarrow> js_value \<Rightarrow> storage_node \<Rightarrow> chunk_payload response \<times> storage_node" where
  "node_put sha z h body n =
     (let (result, t) = put_chunk sha z h body (node_store n);
          n' = n\<lparr>node_store := t\<rparr>
      in case result of
        Inr r \<Rightarrow> (reply (if written r then 201 else 200) (PutBody (written r) (deduped r)), n')
      | Inl e \<Rightarrow>
          if is_integrity_error e then (reply 422 (ErrorBody e), n')
          else (reply 500 (ErrorBody e), n'))"

definition node_get ::
  "sha256 \<Rightarrow> string \<Rightarrow> storage_node \<Rightarrow> chunk_payload response \<times> storage_node" where
  "node_get sha h n =
     (case get_chunk sha h (node_store n) of
        Inr None \<Rightarrow> (reply 404 NotFoundBody, n)
      | Inr (Some buf) \<Rightarrow> (reply 200 (BytesBody h buf), n)
      | Inl e \<Rightarrow>
          if is_integrity_error e then (reply 409 (CorruptBody e), n)
          else (reply 500 (ErrorBody e), n))"

definition node_delete ::
  "string \<Rightarrow> storage_node \<Rightarrow> chunk_payload response \<times> storage_node" where
  "node_delete h n =
     (let (result, t) = delete_chunk h (node_store n);
          n' = n\<lparr>node_store := t\<rparr>
      in case result of
        Inr d \<Rightarrow> (reply 200 (DeletedBody d), n')
      | Inl e \<Rightarrow> (reply 500 (ErrorBody e), n'))"

definition node_health :: "storage_node \<Rightarrow> chunk_payload response" where
  "node_health n = reply 200 (HealthBody (node_id n))"

definition node_stats :: "storage_node \<Rightarrow> chunk_payload response" where
  "node_stats n =
     (let (count, total) = store_stats (node_store n)
      in reply 200 (StatsBody (node_id n) count total))"

fun node_serve :: "sha256 \<Rightarrow> storage_node server" where
  "node_serve sha z (PutChunk h v) n = node_put sha z h v n"
| "node_serve sha z (GetChunk h) n = node_get sha h n"
| "node_serve sha z (DeleteChunk h) n = node_delete h n"
| "node_serve sha z GetHealth n = (node_health n, n)"
| "node_serve sha z GetStats n = (node_stats n, n)"

section \<open>A storage node keeps the contract\<close>

definition node_wf :: "storage_node \<Rightarrow> bool" where
  "node_wf n \<longleftrightarrow> store_wf (node_store n)"

definition node_copy :: "storage_node \<Rightarrow> string \<Rightarrow> bytes option" where
  "node_copy n h = copies (node_store n) h"

lemma node_wf_build: "node_wf (buildStorageNode x)"
  by (simp add: node_wf_def buildStorageNode_def store_wf_new)

lemma node_copy_build: "node_copy (buildStorageNode x) h = None"
  by (simp add: node_copy_def buildStorageNode_def copies_new)

lemma node_put_contract:
  assumes "node_wf n"
  shows "\<exists>r n'. node_put sha z h (Buffer b) n = (r, n') \<and> node_wf n' \<and>
        (if sha256_hex sha b \<noteq> h then status r = 422 \<and> node_copy n' = node_copy n
         else if node_copy n h \<noteq> None
           then r = reply 200 (PutBody False True) \<and> node_copy n' = node_copy n
         else r = reply 201 (PutBody True False) \<and> node_copy n' = (node_copy n)(h \<mapsto> b))"
proof -
  from assms have wf: "store_wf (node_store n)" by (simp add: node_wf_def)
  have same: "node_copy n = copies (node_store n)" by (rule ext) (simp add: node_copy_def)
  show ?thesis
    by (cases rule: put_chunk_cases [OF wf, of "Buffer b" sha z h])
      (auto simp: node_put_def node_wf_def is_integrity_error_def same wf
        intro!: ext, auto simp: node_copy_def)
qed

lemma node_get_contract:
  "node_wf n \<Longrightarrow> valid_hash h \<Longrightarrow> node_get sha h n =
     (case node_copy n h of
        None \<Rightarrow> reply 404 NotFoundBody
      | Some b \<Rightarrow> if sha256_hex sha b = h then reply 200 (BytesBody h b)
                  else reply 409 (CorruptBody (ChunkIntegrityError h (sha256_hex sha b))), n)"
  by (auto simp: node_get_def node_wf_def node_copy_def get_chunk_eq is_integrity_error_def
      split: option.splits)

lemma node_delete_contract:
  assumes "node_wf n" and "valid_hash h"
  shows "\<exists>n'. node_delete h n = (reply 200 (DeletedBody (node_copy n h \<noteq> None)), n')
    \<and> node_wf n' \<and> node_copy n' = (node_copy n)(h := None)"
  using delete_chunk_spec [of "node_store n" h] assms
  by (auto simp: node_delete_def node_wf_def node_copy_def [abs_def])

interpretation node: chunk_service "node_serve sha" sha node_wf node_copy for sha
  by unfold_locales
    (simp_all add: node_put_contract node_get_contract node_delete_contract del: not_None_eq)

section \<open>Properties\<close>

text \<open>
  The status code of an upload to a storage node, for any name and any kind of body: 201
  for a new chunk, 200 for one that is there, 422 when the bytes do not hash to the name,
  500 only for a body that is neither a buffer nor a string; the check of the name's syntax
  never fires, because a name that is not a digest has already failed the comparison.
\<close>

theorem node_put_status:
  assumes "node_wf n"
  shows "status (fst (node_put sha z h body n)) =
    (case hash_input body of
       None \<Rightarrow> 500
     | Some buf \<Rightarrow> if sha256_hex sha buf \<noteq> h then 422
                   else if node_copy n h = None then 201 else 200)
    \<and> node_wf (snd (node_put sha z h body n))"
proof -
  from assms have wf: "store_wf (node_store n)" by (simp add: node_wf_def)
  show ?thesis
    by (cases rule: put_chunk_cases [OF wf, of body sha z h])
      (auto simp: node_put_def node_wf_def node_copy_def is_integrity_error_def wf)
qed

theorem node_put_status_witness:
  "status (fst (node_put (\<lambda>_. 1) (0, []) ''../../etc/passwd'' (Buffer [1]) (buildStorageNode ''node-0'')))
    = 422"
proof -
  have "\<not> valid_hash ''../../etc/passwd''" by (simp add: valid_hash_def)
  then have "sha256_hex (\<lambda>_. 1) [1] \<noteq> ''../../etc/passwd''"
    using valid_sha256_hex [of "\<lambda>_. 1" "[1]"] by metis
  then show ?thesis
    using node_put_status [OF node_wf_build, of "\<lambda>_. 1" "(0, [])" "''../../etc/passwd''" "Buffer [1]" "''node-0''"]
    by simp
qed

text \<open>
  A node never serves bytes under a wrong name. Whatever is on its disk, an answer 200 to
  a read carries bytes that hash to the name asked for, and reading changes nothing.
\<close>

theorem node_get_verified:
  assumes "node_wf n" and "valid_hash h" and "status (fst (node_get sha h n)) = 200"
  shows "\<exists>b. fst (node_get sha h n) = reply 200 (BytesBody h b) \<and> sha256_hex sha b = h
    \<and> node_copy n h = Some b \<and> snd (node_get sha h n) = n"
  using node.get_ok_verified [of n h sha "(0, [])"] node.get_keeps_node [of n h sha "(0, [])"] assms
  by auto

theorem node_get_verified_witness:
  "\<exists>n. fst (node_get (\<lambda>_. 1) (sha256_hex (\<lambda>_. 1) [4]) n)
    = reply 200 (BytesBody (sha256_hex (\<lambda>_. 1) [4]) [4])"
proof -
  let ?h = "sha256_hex (\<lambda>_. 1) [4]"
  obtain n where n: "node_wf n" "node_copy n ?h = Some [4]"
    using node_put_contract [OF node_wf_build, of "\<lambda>_. 1" "(0, [])" ?h "[4]" "''node-0''"]
    by (auto simp: node_copy_build)
  then have "status (fst (node_get (\<lambda>_. 1) ?h n)) = 200" by (simp add: node_get_contract)
  from node_get_verified [OF n(1) valid_sha256_hex this] n show ?thesis by auto
qed

end
