(* ===== verification/Quorum.thy ===== *)
theory Quorum
  imports Coordinator StorageNode GcInterface
begin

text \<open>
  What the coordinator guarantees over any chunk service: the lemmas are proved once inside
  the contract \<open>chunk_service\<close>, about the code of \<^verbatim>\<open>src/coordinator.js\<close>, and hold for the
  storage node by its interpretation.
\<close>

section \<open>The replicas of a world\<close>

text \<open>What the node \<open>x\<close> has under a name; \<open>None\<close> also when no server runs at its URL.\<close>

definition held ::
  "('n \<Rightarrow> string \<Rightarrow> bytes option) \<Rightarrow> (string \<Rightarrow> string option) \<Rightarrow> 'n world \<Rightarrow> string \<Rightarrow> string \<Rightarrow> bytes option" where
  "held copy urls w x h =
     (case Option.bind (urls x) (servers w) of None \<Rightarrow> None | Some n \<Rightarrow> copy n h)"

definition world_ok :: "('n \<Rightarrow> bool) \<Rightarrow> 'n world \<Rightarrow> bool" where
  "world_ok ok w \<longleftrightarrow> (\<forall>u n. servers w u = Some n \<longrightarrow> ok n)"

text \<open>
  How one world follows from another: the same servers run, and at each one the copies are
  related by \<open>R\<close>.
\<close>

definition evolves ::
  "('n \<Rightarrow> string \<Rightarrow> bytes option) \<Rightarrow>
     ((string \<Rightarrow> bytes option) \<Rightarrow> (string \<Rightarrow> bytes option) \<Rightarrow> bool) \<Rightarrow> 'n world \<Rightarrow> 'n world \<Rightarrow> bool" where
  "evolves copy R w w' \<longleftrightarrow>
     (\<forall>u. rel_option (\<lambda>n n'. R (copy n) (copy n')) (servers w u) (servers w' u))"

text \<open>A put can only add the bytes under a name that was free; a delete can only remove.\<close>

definition put_rel ::
  "sha256 \<Rightarrow> string \<Rightarrow> bytes \<Rightarrow> (string \<Rightarrow> bytes option) \<Rightarrow> (string \<Rightarrow> bytes option) \<Rightarrow> bool" where
  "put_rel sha h b c c' \<longleftrightarrow> c' = c \<or> c h = None \<and> sha256_hex sha b = h \<and> c' = c(h \<mapsto> b)"

definition delete_rel :: "string \<Rightarrow> (string \<Rightarrow> bytes option) \<Rightarrow> (string \<Rightarrow> bytes option) \<Rightarrow> bool" where
  "delete_rel h c c' \<longleftrightarrow> c' = c \<or> c' = c(h := None)"

text \<open>The node is asked for the chunk, answers, and does not have it.\<close>

definition says_absent ::
  "('n \<Rightarrow> string \<Rightarrow> bytes option) \<Rightarrow> call_env \<Rightarrow> (string \<Rightarrow> string option) \<Rightarrow> 'n world
     \<Rightarrow> string \<Rightarrow> string \<Rightarrow> bool" where
  "says_absent copy env urls w h x \<longleftrightarrow> fate_of env x = Deliver
     \<and> Option.bind (urls x) (servers w) \<noteq> None \<and> held copy urls w x h = None"

lemma held_bump [simp]: "held copy urls (bump f w) x h = held copy urls w x h"
  by (simp add: held_def)

lemma world_ok_bump [simp]: "world_ok ok (bump f w) \<longleftrightarrow> world_ok ok w"
  by (simp add: world_ok_def)

lemma says_absent_bump [simp]:
  "says_absent copy env urls (bump f w) h x \<longleftrightarrow> says_absent copy env urls w h x"
  by (simp add: says_absent_def)

lemma evolves_bump [simp]: "evolves copy R w (bump f w') \<longleftrightarrow> evolves copy R w w'"
  by (simp add: evolves_def)

lemma evolves_refl: "(\<And>c. R c c) \<Longrightarrow> evolves copy R w w"
  by (simp add: evolves_def option.rel_refl)

lemma evolves_trans:
  assumes "\<And>a b c. R a b \<Longrightarrow> R b c \<Longrightarrow> R a c" and "evolves copy R w1 w2" and "evolves copy R w2 w3"
  shows "evolves copy R w1 w3"
  unfolding evolves_def
proof
  fix u
  show "rel_option (\<lambda>n n'. R (copy n) (copy n')) (servers w1 u) (servers w3 u)"
    using assms(2,3) [unfolded evolves_def, THEN spec [of _ u]]
    by (cases "servers w1 u") (simp, clarsimp simp: option_rel_Some1, rule assms(1))
qed

lemma evolves_step:
  assumes "servers w u = Some n" and "R (copy n) (copy n')" and "\<And>c. R c c"
  shows "evolves copy R w (w\<lparr>servers := (servers w)(u \<mapsto> n')\<rparr>)"
  using assms by (auto simp: evolves_def intro: option.rel_refl)

lemma held_eq:
  "held copy urls w x =
     (case Option.bind (urls x) (servers w) of None \<Rightarrow> (\<lambda>h. None) | Some n \<Rightarrow> copy n)"
  by (rule ext) (simp add: held_def split: option.split)

lemma evolves_held:
  assumes "evolves copy R w w'"
  shows "held copy urls w x = held copy urls w' x
    \<or> R (held copy urls w x) (held copy urls w' x)"
proof (cases "urls x")
  case None
  then show ?thesis by (simp add: held_eq)
next
  case (Some u)
  then show ?thesis
    using assms [unfolded evolves_def, THEN spec [of _ u]]
    by (cases "servers w u"; cases "servers w' u") (auto simp: held_eq)
qed

lemma evolves_servers:
  assumes "evolves copy R w w'"
  shows "Option.bind url (servers w') = None \<longleftrightarrow> Option.bind url (servers w) = None"
proof (cases url)
  case (Some u)
  with assms [unfolded evolves_def, THEN spec [of _ u]] show ?thesis
    by (cases "servers w u"; cases "servers w' u") simp_all
qed simp

lemma put_rel_refl: "put_rel sha h b c c"
  by (simp add: put_rel_def)

lemma put_rel_trans: "put_rel sha h b c d \<Longrightarrow> put_rel sha h b d e \<Longrightarrow> put_rel sha h b c e"
  by (auto simp: put_rel_def)

lemma delete_rel_refl: "delete_rel h c c"
  by (simp add: delete_rel_def)

lemma delete_rel_trans: "delete_rel h c d \<Longrightarrow> delete_rel h d e \<Longrightarrow> delete_rel h c e"
  by (auto simp: delete_rel_def)

lemma world_ok_step:
  "world_ok ok w \<Longrightarrow> ok n' \<Longrightarrow> world_ok ok (w\<lparr>servers := (servers w)(u \<mapsto> n')\<rparr>)"
  by (auto simp: world_ok_def)

lemma fetch_cases:
  assumes "fetch serve f z url req w = (res, w')"
  obtains
    (dead) "res = None" "w' = w" "f = Drop \<or> Option.bind url (servers w) = None"
  | (served) u n r n' where "url = Some u" "servers w u = Some n" "serve z req n = (r, n')"
      "w' = w\<lparr>servers := (servers w)(u \<mapsto> n')\<rparr>" "f \<noteq> Drop"
      "res = None \<and> f = LostReply \<or> res = Some r \<and> f = Deliver
       \<or> (\<exists>b. f = Garble b \<and> res = Some (r\<lparr>payload := Garbled b\<rparr>))"
proof (cases "f = Drop \<or> Option.bind url (servers w) = None")
  case True
  with assms show ?thesis
    by (intro dead) (auto simp: fetch_def split: option.splits)
next
  case False
  then obtain u n where un: "url = Some u" "servers w u = Some n" "f \<noteq> Drop"
    by (cases url) auto
  obtain r n' where s: "serve z req n = (r, n')" by (cases "serve z req n")
  from assms un s show ?thesis
    by (intro served [of u n r n']) (auto simp: fetch_def split: fate.splits)
qed

lemma fetch_counters [frame_simps]: "counters (snd (fetch serve f z url req w)) = counters w"
  by (auto simp: fetch_def Let_def split: option.splits prod.splits)

lemma put_all_counters [frame_simps]:
  "counts (counters (snd (put_all serve env urls h b xs w))) = counts (counters w)"
proof (induction xs arbitrary: w)
  case (Cons x xs)
  have "counts (counters (snd (putToNode serve env (urls x) x h b w))) = counts (counters w)"
    using putToNode_parts(3) [OF prod.collapse [symmetric]] by (simp add: frame_simps)
  with Cons.IH show ?case by (simp add: split_beta)
qed simp

lemma delete_all_counters [frame_simps]:
  "counters (snd (delete_all serve env urls h xs w)) = counters w"
  by (induction xs arbitrary: w) (simp_all add: Let_def split_beta frame_simps)

section \<open>Reads need no contract to be safe\<close>

lemma get_loop_verified:
  "get_loop serve sha env urls h k i xs reason w = (Inr (Some b), w') \<Longrightarrow> sha256_hex sha b = h"
proof (induction xs arbitrary: i reason w)
  case Nil
  then show ?case by (simp split: if_splits)
next
  case (Cons x xs)
  obtain got w1 where g: "getFromNode serve env (urls x) x h w = (got, w1)"
    by (cases "getFromNode serve env (urls x) x h w")
  then show ?case
    using Cons.prems Cons.IH
    by (auto simp: Let_def split: option.splits get_result.splits if_splits)
qed

lemma put_all_dropped:
  "\<forall>x \<in> set xs. fate_of env x = Drop
     \<Longrightarrow> fst (put_all serve env urls h b xs w) = map nack xs
       \<and> servers (snd (put_all serve env urls h b xs w)) = servers w"
proof (induction xs arbitrary: w)
  case (Cons x xs)
  have "fetch serve (fate_of env x) (nonce_of env x) (urls x) (PutChunk h (Buffer b)) w = (None, w)"
    using Cons.prems by (simp add: fetch_def split: option.split)
  from putToNode_parts(1,2) [OF this] Cons show ?case
    by (simp add: split_beta write_ack_def)
qed simp

lemma no_nack [simp]: "filter ack_ok (map nack xs) = []"
  by (induction xs) (simp_all add: nack_def)

section \<open>The coordinator as a client of the contract\<close>

context chunk_service
begin

lemma put_answer:
  assumes "node_ok n" and "serve z (PutChunk h (Buffer b)) n = (r, n')"
  shows "node_ok n'" and "put_rel sha h b (copy n) (copy n')"
    and "ack_ok (write_ack x (Some r)) \<Longrightarrow> sha256_hex sha b = h \<and> copy n' h \<noteq> None
      \<and> (\<not> ack_deduped (write_ack x (Some r)) \<longrightarrow> copy n' h = Some b)"
proof -
  from serve_put [OF assms(1), of z h b] assms(2)
  have s: "node_ok n'"
    "if sha256_hex sha b \<noteq> h then status r = 422 \<and> copy n' = copy n
       else if copy n h \<noteq> None then r = reply 200 (PutBody False True) \<and> copy n' = copy n
       else r = reply 201 (PutBody True False) \<and> copy n' = (copy n)(h \<mapsto> b)"
    by auto
  show "node_ok n'" by (rule s(1))
  show "put_rel sha h b (copy n) (copy n')" using s(2) by (auto simp: put_rel_def split: if_splits)
  show "sha256_hex sha b = h \<and> copy n' h \<noteq> None \<and> (\<not> ack_deduped (write_ack x (Some r)) \<longrightarrow> copy n' h = Some b)"
    if "ack_ok (write_ack x (Some r))"
    using s(2) that by (auto simp: write_ack_def nack_def split: if_splits)
qed

lemma put_node_step:
  assumes ok: "world_ok node_ok w" and put: "putToNode serve env url x h b w = (a, w')"
  shows "world_ok node_ok w'" and "evolves copy (put_rel sha h b) w w'" and "ack_node a = x"
    and "ack_ok a \<Longrightarrow> sha256_hex sha b = h"
    and "ack_ok a \<Longrightarrow> \<exists>u n. url = Some u \<and> servers w' u = Some n \<and> copy n h \<noteq> None
           \<and> (\<not> ack_deduped a \<longrightarrow> copy n h = Some b)"
proof -
  obtain res w1 where f: "fetch serve (fate_of env x) (nonce_of env x) url
      (PutChunk h (Buffer b)) w = (res, w1)" by fastforce
  from putToNode_parts(1,2) [OF f] put have w': "servers w' = servers w1" and a: "a = write_ack x res"
    by simp_all
  note a = a [unfolded write_ack_def]
  have same: "world_ok node_ok w' \<longleftrightarrow> world_ok node_ok w1" "evolves copy R w w' \<longleftrightarrow> evolves copy R w w1" for R
    by (simp_all add: world_ok_def evolves_def w')
  show "ack_node a = x"
    by (simp add: a nack_def split: option.splits chunk_payload.splits)
  have "world_ok node_ok w' \<and> evolves copy (put_rel sha h b) w w'
      \<and> (ack_ok a \<longrightarrow> sha256_hex sha b = h)
      \<and> (ack_ok a \<longrightarrow> (\<exists>u n. url = Some u \<and> servers w' u = Some n \<and> copy n h \<noteq> None
           \<and> (\<not> ack_deduped a \<longrightarrow> copy n h = Some b)))"
    using f
  proof (cases rule: fetch_cases)
    case dead
    then show ?thesis
      using ok by (auto simp: same a nack_def intro: evolves_refl put_rel_refl)
  next
    case (served u n r n')
    from ok served(2) have n: "node_ok n" by (auto simp: world_ok_def)
    note put = put_answer [OF n served(3)]
    have "evolves copy (put_rel sha h b) w w'"
      unfolding same served(4) by (rule evolves_step [OF served(2) put(2) put_rel_refl])
    moreover have "world_ok node_ok w'"
      unfolding same served(4) by (rule world_ok_step [OF ok put(1)])
    moreover have "ack_ok a \<longrightarrow> sha256_hex sha b = h \<and> copy n' h \<noteq> None
        \<and> (\<not> ack_deduped a \<longrightarrow> copy n' h = Some b)"
      using put(3) [of x] served(6) by (auto simp: a write_ack_def nack_def split: if_splits)
    ultimately show ?thesis
      using served(1,4) by (auto simp: w')
  qed
  then show "world_ok node_ok w'" "evolves copy (put_rel sha h b) w w'"
    "ack_ok a \<Longrightarrow> sha256_hex sha b = h"
    "ack_ok a \<Longrightarrow> \<exists>u n. url = Some u \<and> servers w' u = Some n \<and> copy n h \<noteq> None
           \<and> (\<not> ack_deduped a \<longrightarrow> copy n h = Some b)"
    by blast+
qed

lemma put_all_step:
  assumes "world_ok node_ok w" and "put_all serve env urls h b xs w = (as, w')"
  shows "world_ok node_ok w' \<and> evolves copy (put_rel sha h b) w w' \<and> map ack_node as = xs
    \<and> (\<forall>a \<in> set as. ack_ok a \<longrightarrow> sha256_hex sha b = h \<and> held copy urls w' (ack_node a) h \<noteq> None
         \<and> (\<not> ack_deduped a \<longrightarrow> held copy urls w' (ack_node a) h = Some b))"
  using assms
proof (induction xs arbitrary: w as)
  case Nil
  then show ?case by (auto intro: evolves_refl put_rel_refl)
next
  case (Cons x xs)
  obtain a w1 where a: "putToNode serve env (urls x) x h b w = (a, w1)" by fastforce
  obtain as2 where as2: "put_all serve env urls h b xs w1 = (as2, w')" "as = a # as2"
    using Cons.prems(2) a by (auto split: prod.splits)
  note first = put_node_step [OF Cons.prems(1) a]
  note rest = Cons.IH [OF first(1) as2(1)]
  have "held copy urls w' x h \<noteq> None \<and> (\<not> ack_deduped a \<longrightarrow> held copy urls w' x h = Some b)"
    if "ack_ok a"
  proof -
    from first(5) [OF that] have "held copy urls w1 x h \<noteq> None"
        "\<not> ack_deduped a \<longrightarrow> held copy urls w1 x h = Some b"
      by (auto simp: held_def)
    moreover have "held copy urls w1 x = held copy urls w' x
        \<or> put_rel sha h b (held copy urls w1 x) (held copy urls w' x)"
      using rest by (intro evolves_held) simp
    ultimately show ?thesis by (auto simp: put_rel_def)
  qed
  with first rest as2(2) show ?case
    using evolves_trans [OF put_rel_trans first(2)] by auto
qed

lemma get_node_step:
  assumes ok: "world_ok node_ok w" and h: "valid_hash h"
  shows "snd (getFromNode serve env url x h w) = w"
    and "fate_of env x = Deliver \<Longrightarrow> url = Some u \<Longrightarrow> servers w u = Some n \<Longrightarrow> copy n h = Some b
      \<Longrightarrow> sha256_hex sha b = h \<Longrightarrow> fst (getFromNode serve env url x h w) = Some (GotBytes b)"
    and "fate_of env x = Deliver \<Longrightarrow> url = Some u \<Longrightarrow> servers w u = Some n \<Longrightarrow> copy n h = None
      \<Longrightarrow> fst (getFromNode serve env url x h w) = Some (NotOk ''not_found'')"
    and "fate_of env x = Drop \<Longrightarrow> fst (getFromNode serve env url x h w) = None"
proof -
  obtain res w1 where f: "fetch serve (fate_of env x) (nonce_of env x) url (GetChunk h) w
      = (res, w1)" by fastforce
  from f have "w1 = w"
  proof (cases rule: fetch_cases)
    case (served u n r n')
    from ok served(2) have "node_ok n" by (auto simp: world_ok_def)
    then have "n' = n" using get_keeps_node [of n h "nonce_of env x"] served(3) h by simp
    with served(2,4) show ?thesis by (simp add: fun_upd_idem)
  qed
  then show "snd (getFromNode serve env url x h w) = w" using f by (simp add: getFromNode_def)
  show "fst (getFromNode serve env url x h w) = Some (GotBytes b)"
    if "fate_of env x = Deliver" "url = Some u" "servers w u = Some n" "copy n h = Some b"
      "sha256_hex sha b = h"
    using that ok h serve_get [of n h "nonce_of env x"]
    by (auto simp: getFromNode_def fetch_def world_ok_def body_bytes_def)
  show "fst (getFromNode serve env url x h w) = Some (NotOk ''not_found'')"
    if "fate_of env x = Deliver" "url = Some u" "servers w u = Some n" "copy n h = None"
    using that ok h serve_get [of n h "nonce_of env x"]
    by (auto simp: getFromNode_def fetch_def world_ok_def)
  show "fst (getFromNode serve env url x h w) = None" if "fate_of env x = Drop"
    using that by (simp add: getFromNode_def fetch_def split: option.splits)
qed

lemma get_loop_servers:
  "world_ok node_ok w \<Longrightarrow> valid_hash h \<Longrightarrow>
     servers (snd (get_loop serve sha env urls h k i xs reason w)) = servers w"
proof (induction xs arbitrary: i reason w)
  case (Cons x xs)
  obtain got where "getFromNode serve env (urls x) x h w = (got, w)"
    using get_node_step(1) [OF Cons.prems] by (metis surjective_pairing)
  with Cons show ?case
    by (simp add: Let_def split: option.splits get_result.splits)
qed simp

lemma get_loop_finds:
  assumes "world_ok node_ok w" and h: "valid_hash h"
    and "x \<in> set xs" and x: "fate_of env x = Deliver" "held copy urls w x h = Some b"
      "sha256_hex sha b = h"
  shows "\<exists>b' w'. get_loop serve sha env urls h k i xs reason w = (Inr (Some b'), w')
    \<and> sha256_hex sha b' = h"
  using assms
proof (induction xs arbitrary: i reason w)
  case (Cons y ys)
  obtain got where got: "getFromNode serve env (urls y) y h w = (got, w)"
    using get_node_step(1) [OF Cons.prems(1,2)] by (metis surjective_pairing)
  show ?case
  proof (cases "\<exists>c. got = Some (GotBytes c) \<and> sha256_hex sha c = h")
    case True
    with got show ?thesis by (auto simp: Let_def)
  next
    case False
    have "x \<noteq> y"
    proof
      assume "x = y"
      moreover obtain u n where "urls x = Some u" "servers w u = Some n" "copy n h = Some b"
        using Cons.prems(5) by (auto simp: held_def split: option.splits bind_splits)
      then have "fst (getFromNode serve env (urls x) x h w) = Some (GotBytes b)"
        using get_node_step(2) [OF Cons.prems(1,2), of env x "urls x" u n b] x by simp
      ultimately show False using got False x(3) by simp
    qed
    with Cons.prems(3) have "x \<in> set ys" by simp
    from Cons.IH [OF _ h this x(1) _ x(3)] Cons.prems(1,5) got False show ?thesis
      by (auto simp: Let_def split: option.splits get_result.splits)
  qed
qed simp

lemma delete_node_step:
  assumes ok: "world_ok node_ok w" and h: "valid_hash h"
    and f: "fetch serve (fate_of env x) (nonce_of env x) url (DeleteChunk h) w = (res, w')"
  shows "world_ok node_ok w' \<and> evolves copy (delete_rel h) w w'
    \<and> (fate_of env x \<noteq> Drop \<longrightarrow> (\<forall>u n. url = Some u \<longrightarrow> servers w' u = Some n \<longrightarrow> copy n h = None))"
  using f
proof (cases rule: fetch_cases)
  case dead
  with ok show ?thesis by (auto intro: evolves_refl delete_rel_refl)
next
  case (served u n r n')
  from ok served(2) have n: "node_ok n" by (auto simp: world_ok_def)
  from serve_delete [OF n h, of "nonce_of env x"] served(3)
  have s: "node_ok n'" "copy n' = (copy n)(h := None)" by auto
  have "evolves copy (delete_rel h) w w'"
    unfolding served(4) using served(2) s(2)
    by (intro evolves_step) (auto simp: delete_rel_def)
  with s served(1,4) ok show ?thesis by (auto simp: world_ok_step)
qed

lemma delete_all_step:
  assumes "world_ok node_ok w" and h: "valid_hash h"
    and "delete_all serve env urls h xs w = (oks, w')"
  shows "world_ok node_ok w' \<and> evolves copy (delete_rel h) w w' \<and> length oks = length xs
    \<and> (\<forall>x \<in> set xs. fate_of env x \<noteq> Drop \<longrightarrow> held copy urls w' x h = None)"
  using assms(1,3)
proof (induction xs arbitrary: w oks)
  case Nil
  then show ?case by (auto intro: evolves_refl delete_rel_refl)
next
  case (Cons x xs)
  obtain res w1 where f: "fetch serve (fate_of env x) (nonce_of env x) (urls x) (DeleteChunk h) w
      = (res, w1)" by fastforce
  obtain oks2 where oks2: "delete_all serve env urls h xs w1 = (oks2, w')"
      "length oks = Suc (length oks2)"
    using Cons.prems(2) f by (auto simp: Let_def split: prod.splits)
  note first = delete_node_step [OF Cons.prems(1) h f]
  note rest = Cons.IH [OF conjunct1 [OF first] oks2(1)]
  have "held copy urls w' x h = None" if "fate_of env x \<noteq> Drop"
  proof -
    have "held copy urls w1 x h = None"
      using first that by (auto simp: held_def split: option.splits bind_splits)
    moreover have "held copy urls w1 x = held copy urls w' x
        \<or> delete_rel h (held copy urls w1 x) (held copy urls w' x)"
      using rest by (intro evolves_held) simp
    ultimately show ?thesis by (auto simp: delete_rel_def)
  qed
  with first rest oks2(2) show ?case
    using evolves_trans [OF delete_rel_trans conjunct1 [OF conjunct2 [OF first]]] by auto
qed

lemma put_node_delivers:
  assumes "world_ok node_ok w" and "putToNode serve env url x h b w = (a, w')"
    and "sha256_hex sha b = h" and "fate_of env x = Deliver" and "Option.bind url (servers w) = Some n"
  shows "ack_ok a"
proof -
  from assms(1,5) have "node_ok n" by (cases url) (auto simp: world_ok_def)
  from serve_put [OF this, of "nonce_of env x" h b] assms(2-5) show ?thesis
    by (auto simp: putToNode_def fetch_def Let_def split: if_splits)
qed

lemma put_all_delivers:
  assumes "world_ok node_ok w" and "put_all serve env urls h b xs w = (as, w')"
    and "sha256_hex sha b = h"
  shows "length (filter (\<lambda>x. fate_of env x = Deliver \<and> Option.bind (urls x) (servers w) \<noteq> None) xs)
    \<le> length (filter ack_ok as)"
  using assms(1,2)
proof (induction xs arbitrary: w as)
  case (Cons x xs)
  obtain a w1 where a: "putToNode serve env (urls x) x h b w = (a, w1)" by fastforce
  obtain as2 where as2: "put_all serve env urls h b xs w1 = (as2, w')" "as = a # as2"
    using Cons.prems(2) a by (auto split: prod.splits)
  note first = put_node_step [OF Cons.prems(1) a]
  have "Option.bind (urls y) (servers w1) = None \<longleftrightarrow> Option.bind (urls y) (servers w) = None" for y
    using first(2) by (rule evolves_servers)
  with Cons.IH [OF first(1) as2(1)] put_node_delivers [OF Cons.prems(1) a assms(3)] as2(2)
  show ?case by auto
qed simp

lemma delete_all_count:
  assumes "world_ok node_ok w" and h: "valid_hash h"
    and "delete_all serve env urls h xs w = (oks, w')"
  shows "length (filter (\<lambda>ok. ok) oks)
    = length (filter (\<lambda>x. fate_of env x \<notin> {Drop, LostReply}
        \<and> Option.bind (urls x) (servers w) \<noteq> None) xs)"
  using assms(1,3)
proof (induction xs arbitrary: w oks)
  case (Cons x xs)
  obtain res w1 where f: "fetch serve (fate_of env x) (nonce_of env x) (urls x) (DeleteChunk h) w
      = (res, w1)" by fastforce
  let ?ok = "case res of None \<Rightarrow> False | Some r \<Rightarrow> 200 \<le> status r \<and> status r \<le> 299"
  obtain oks2 where oks2: "delete_all serve env urls h xs w1 = (oks2, w')" "oks = ?ok # oks2"
    using Cons.prems(2) f by (auto simp: Let_def split: prod.splits)
  note first = delete_node_step [OF Cons.prems(1) h f]
  have same: "Option.bind (urls y) (servers w1) = None \<longleftrightarrow> Option.bind (urls y) (servers w) = None" for y
    using first by (intro evolves_servers [where copy = copy and R = "delete_rel h"]) simp
  have "?ok \<longleftrightarrow> fate_of env x \<notin> {Drop, LostReply} \<and> Option.bind (urls x) (servers w) \<noteq> None"
    using f
  proof (cases rule: fetch_cases)
    case dead
    then show ?thesis by auto
  next
    case (served u n r n')
    from Cons.prems(1) served(2) have "node_ok n" by (auto simp: world_ok_def)
    from serve_delete [OF this h, of "nonce_of env x"] served show ?thesis by auto
  qed
  with Cons.IH [OF conjunct1 [OF first] oks2(1)] oks2(2) show ?case
    by (simp add: same)
qed simp

lemma get_node_bad:
  assumes ok: "world_ok node_ok w" and h: "valid_hash h"
    and clean: "\<forall>b. fate_of env x \<noteq> Garble b"
    and bad: "\<And>b. held copy urls w x h = Some b \<Longrightarrow> sha256_hex sha b \<noteq> h"
  obtains "says_absent copy env urls w h x" "getFromNode serve env (urls x) x h w = (Some (NotOk ''not_found''), w)"
  | r where "r \<noteq> ''not_found''"
      "\<not> says_absent copy env urls w h x"
      "getFromNode serve env (urls x) x h w = (None, w) \<or> getFromNode serve env (urls x) x h w = (Some (NotOk r), w)"
proof (cases "fate_of env x = Deliver \<and> Option.bind (urls x) (servers w) \<noteq> None")
  case False
  have "getFromNode serve env (urls x) x h w = (None, w)"
  proof -
    have "fst (getFromNode serve env (urls x) x h w) = None"
      using False clean by (cases "fate_of env x")
        (auto simp: getFromNode_def fetch_def Let_def split: option.splits prod.splits)
    then show ?thesis using get_node_step(1) [OF ok h] by (metis surjective_pairing)
  qed
  with that(2) [of "''corrupt''"] False show thesis by (auto simp: says_absent_def)
next
  case True
  then obtain u n where un: "urls x = Some u" "servers w u = Some n" by (cases "urls x") auto
  with ok have n: "node_ok n" by (auto simp: world_ok_def)
  have held: "held copy urls w x h = copy n h" using un by (simp add: held_def)
  show thesis
  proof (cases "copy n h")
    case None
    with True un n h held that(1) show thesis
      by (auto simp: getFromNode_def fetch_def serve_get fun_upd_idem says_absent_def)
  next
    case (Some b)
    with bad held have "sha256_hex sha b \<noteq> h" by simp
    with True un n h held Some that(2) [of "''corrupt''"] show thesis
      by (auto simp: getFromNode_def fetch_def serve_get fun_upd_idem says_absent_def)
  qed
qed

lemma get_loop_exhausted:
  assumes "world_ok node_ok w" and h: "valid_hash h"
    and "\<And>x b. x \<in> set xs \<Longrightarrow> held copy urls w x h = Some b \<Longrightarrow> sha256_hex sha b \<noteq> h"
    and "\<And>x b. x \<in> set xs \<Longrightarrow> fate_of env x \<noteq> Garble b" and "xs \<noteq> []"
  shows "fst (get_loop serve sha env urls h k i xs reason w)
    = (if says_absent copy env urls w h (last xs) then Inr None else Inl (ChunkUnavailableError h k))"
  using assms(1,3-)
proof (induction xs arbitrary: i reason w)
  case (Cons x xs)
  have clean: "\<forall>b. fate_of env x \<noteq> Garble b" and
    bad: "\<And>b. held copy urls w x h = Some b \<Longrightarrow> sha256_hex sha b \<noteq> h"
    using Cons.prems(2,3) by auto
  have IH: "fst (get_loop serve sha env urls h k j xs reason' (if c then bump f w else w))
    = (if says_absent copy env urls w h (last xs) then Inr None else Inl (ChunkUnavailableError h k))"
    if "xs \<noteq> []" for j reason' c f
  proof -
    let ?w = "if c then bump f w else w"
    have "world_ok node_ok ?w" using Cons.prems(1) by simp
    moreover have "sha256_hex sha b \<noteq> h" if "y \<in> set xs" "held copy urls ?w y h = Some b" for y b
      using Cons.prems(2) [of y b] that by (cases c) simp_all
    ultimately show ?thesis
      using Cons.IH [of ?w j reason'] Cons.prems(3) that by (cases c) fastforce+
  qed
  show ?case
  proof (rule get_node_bad [OF Cons.prems(1) h clean bad])
    assume "says_absent copy env urls w h x"
      "getFromNode serve env (urls x) x h w = (Some (NotOk ''not_found''), w)"
    then show ?thesis by (cases "xs = []") (simp_all add: IH)
  next
    fix r assume r: "r \<noteq> ''not_found''" "\<not> says_absent copy env urls w h x"
      "getFromNode serve env (urls x) x h w = (None, w)
        \<or> getFromNode serve env (urls x) x h w = (Some (NotOk r), w)"
    from r(3) show ?thesis
      using r(1,2) IH [of _ _ True] by (cases "xs = []") auto
  qed
qed simp

end

section \<open>The cluster of storage nodes\<close>

abbreviation cluster_ok :: "storage_node world \<Rightarrow> bool" where
  "cluster_ok \<equiv> world_ok node_wf"

abbreviation replica ::
  "coordinator \<Rightarrow> storage_node world \<Rightarrow> string \<Rightarrow> string \<Rightarrow> bytes option" where
  "replica co \<equiv> held node_copy (nodesById co)"

definition cluster_sound :: "sha256 \<Rightarrow> storage_node world \<Rightarrow> bool" where
  "cluster_sound sha w \<longleftrightarrow>
     (\<forall>u n h b. servers w u = Some n \<longrightarrow> node_copy n h = Some b \<longrightarrow> sha256_hex sha b = h)"

lemma replica_sound:
  "cluster_sound sha w \<Longrightarrow> replica co w x h = Some b \<Longrightarrow> sha256_hex sha b = h"
  by (auto simp: cluster_sound_def held_def split: option.splits bind_splits)

lemma put_rel_sound:
  assumes "cluster_sound sha w" and "evolves node_copy (put_rel sha h b) w w'"
  shows "cluster_sound sha w'"
  unfolding cluster_sound_def
proof (intro allI impI)
  fix u n' h' b' assume n': "servers w' u = Some n'" "node_copy n' h' = Some b'"
  with assms(2) [unfolded evolves_def, THEN spec [of _ u]] obtain n where
    "servers w u = Some n" "put_rel sha h b (node_copy n) (node_copy n')"
    by (auto simp: option_rel_Some2)
  with n' assms(1) show "sha256_hex sha b' = h'"
    by (auto simp: put_rel_def cluster_sound_def split: if_splits)
qed

lemma delete_rel_sound:
  assumes "cluster_sound sha w" and "evolves node_copy (delete_rel h) w w'"
  shows "cluster_sound sha w'"
  unfolding cluster_sound_def
proof (intro allI impI)
  fix u n' h' b' assume n': "servers w' u = Some n'" "node_copy n' h' = Some b'"
  with assms(2) [unfolded evolves_def, THEN spec [of _ u]] obtain n where
    "servers w u = Some n" "delete_rel h (node_copy n) (node_copy n')"
    by (auto simp: option_rel_Some2)
  with n' assms(1) show "sha256_hex sha b' = h'"
    by (auto simp: delete_rel_def cluster_sound_def split: if_splits)
qed

text \<open>
  What a chunk write reports, given the number of acknowledgements and whether one of them was
  for a new copy, and how it changes the counters.
\<close>

definition quorum_outcome ::
  "coordinator \<Rightarrow> string \<Rightarrow> bytes \<Rightarrow> string list \<Rightarrow> nat \<Rightarrow> bool
     \<Rightarrow> js_error + put_report \<Rightarrow> metrics \<Rightarrow> metrics \<Rightarrow> bool" where
  "quorum_outcome co h buf pl k new r m m' \<longleftrightarrow>
     (if js_less (js_nat k) (write_w co)
      then r = Inl (QuorumWriteError h k) \<and> counts m' = inc_quorumWriteFailures (counts m)
      else r = Inr \<lparr>rep_hash = h, rep_acks = k, rep_of = length pl, rep_deduped = (\<not> new),
                     rep_preferenceList = pl\<rparr>
        \<and> counts m' = (if new then counts m else inc_dedupBytesSaved (length buf) (counts m)))"

lemma putChunk_outcome:
  assumes "preferenceList sha1 (co_ring co) h (repl_n co) = Some pl"
    and "put_all serve env (nodesById co) h buf pl w = (as, w1)"
    and "putChunk serve sha1 env co h buf w = (r, w')"
  shows "servers w' = servers w1"
    and "quorum_outcome co h buf pl (length (filter ack_ok as))
      (list_ex (\<lambda>a. \<not> ack_deduped a) (filter ack_ok as)) r (counters w1) (counters w')"
proof -
  have *: "(r, w') = (let acks = filter ack_ok as
     in if js_less (js_nat (length acks)) (write_w co) then
          (Inl (QuorumWriteError h (length acks)), bump inc_quorumWriteFailures w1)
        else
          let anyNewWrite = list_ex (\<lambda>a. \<not> ack_deduped a) acks
          in (Inr \<lparr>rep_hash = h, rep_acks = length acks, rep_of = length pl,
                    rep_deduped = (\<not> anyNewWrite), rep_preferenceList = pl\<rparr>,
              if anyNewWrite then w1 else bump (inc_dedupBytesSaved (length buf)) w1))"
    using assms unfolding putChunk_def by simp
  show "servers w' = servers w1"
    using * by (simp add: Let_def split: if_splits)
  show "quorum_outcome co h buf pl (length (filter ack_ok as))
      (list_ex (\<lambda>a. \<not> ack_deduped a) (filter ack_ok as)) r (counters w1) (counters w')"
    using * unfolding quorum_outcome_def by (simp add: Let_def split: if_splits)
qed

text \<open>The result of a chunk write, with the list of the nodes that acknowledged it.\<close>

lemma putChunk_result:
  assumes ok: "cluster_ok w" and put: "putChunk (node_serve sha) sha1 env co h buf w = (r, w')"
    and pl: "preferenceList sha1 (co_ring co) h (repl_n co) = Some pl"
  obtains acked new where "set acked \<subseteq> set pl" "distinct acked"
    "acked \<noteq> [] \<longrightarrow> sha256_hex sha buf = h" "\<forall>x \<in> set acked. replica co w' x h \<noteq> None"
    "cluster_ok w'" "evolves node_copy (put_rel sha h buf) w w'"
    "sha256_hex sha buf = h \<longrightarrow>
       length (filter (\<lambda>x. fate_of env x = Deliver
         \<and> Option.bind (nodesById co x) (servers w) \<noteq> None) pl) \<le> length acked"
    "new \<longrightarrow> (\<exists>x \<in> set acked. replica co w' x h = Some buf)"
    "quorum_outcome co h buf pl (length acked) new r (counters w) (counters w')"
proof -
  obtain as w1 where as: "put_all (node_serve sha) env (nodesById co) h buf pl w = (as, w1)"
    by fastforce
  note step = node.put_all_step [OF ok as] and out = putChunk_outcome [OF pl as put]
  have cnt: "counts (counters w1) = counts (counters w)"
    using put_all_counters [of "node_serve sha" env "nodesById co" h buf pl w] as by simp
  let ?acked = "map ack_node (filter ack_ok as)"
  let ?new = "list_ex (\<lambda>a. \<not> ack_deduped a) (filter ack_ok as)"
  have "distinct (map ack_node as)"
    using preferenceList_distinct [OF pl] step by simp
  then have dist: "distinct ?acked" by (rule distinct_map_filter)
  have sub: "set ?acked \<subseteq> set pl" using step by auto
  have same: "replica co w' x h = replica co w1 x h" "cluster_ok w' \<longleftrightarrow> cluster_ok w1"
    "evolves node_copy R w w' \<longleftrightarrow> evolves node_copy R w w1" for x R
    by (simp_all add: out held_def world_ok_def evolves_def)
  show thesis
  proof (rule that [of ?acked ?new])
    show "?acked \<noteq> [] \<longrightarrow> sha256_hex sha buf = h"
      using step by (auto simp: filter_empty_conv)
    show "\<forall>x \<in> set ?acked. replica co w' x h \<noteq> None" using step by (auto simp: same)
    show "sha256_hex sha buf = h \<longrightarrow>
       length (filter (\<lambda>x. fate_of env x = Deliver
         \<and> Option.bind (nodesById co x) (servers w) \<noteq> None) pl) \<le> length ?acked"
      using node.put_all_delivers [OF ok as] by simp
    show "?new \<longrightarrow> (\<exists>x \<in> set ?acked. replica co w' x h = Some buf)"
      using step by (auto simp: list_ex_iff same)
    show "quorum_outcome co h buf pl (length ?acked) ?new r (counters w) (counters w')"
      using out(2) by (simp add: quorum_outcome_def cnt)
  qed (use step dist sub same in simp_all)
qed

lemma getChunk_finds:
  assumes "cluster_ok w" and "valid_hash h"
    and pl: "preferenceList sha1 (co_ring co) h (repl_n co) = Some pl"
    and "x \<in> set pl" and "fate_of env x = Deliver" and "replica co w x h = Some b"
    and "sha256_hex sha b = h"
  shows "\<exists>b' w'. getChunk (node_serve sha) sha sha1 env co h w = (Inr (Some b'), w')
    \<and> sha256_hex sha b' = h"
  using node.get_loop_finds [OF assms(1,2,4-7)] by (simp add: getChunk_def pl)

lemma getChunk_servers:
  assumes "cluster_ok w" and "valid_hash h"
  shows "servers (snd (getChunk (node_serve sha) sha sha1 env co h w)) = servers w"
  using node.get_loop_servers [OF assms]
  by (simp add: getChunk_def split: option.split)

lemma getChunk_hash:
  "getChunk serve sha sha1 env co h w = (Inr (Some b), w') \<Longrightarrow> sha256_hex sha b = h"
  by (auto simp: getChunk_def get_loop_verified split: option.splits)

lemma putChunk_frame:
  assumes "cluster_ok w" and "putChunk (node_serve sha) sha1 env co h buf w = (r, w')"
  shows "cluster_ok w' \<and> evolves node_copy (put_rel sha h buf) w w'"
proof (cases "preferenceList sha1 (co_ring co) h (repl_n co)")
  case None
  with assms show ?thesis by (auto simp: putChunk_def intro: evolves_refl put_rel_refl)
next
  case (Some pl)
  show ?thesis by (rule putChunk_result [OF assms Some]) simp
qed

lemma deleteChunk_result:
  assumes "cluster_ok w" and "valid_hash h"
    and "deleteChunk (node_serve sha) sha1 env co h w = (r, w')"
  shows "cluster_ok w' \<and> evolves node_copy (delete_rel h) w w'
    \<and> (case preferenceList sha1 (co_ring co) h (repl_n co) of
          None \<Rightarrow> r = Inl Diverges
        | Some pl \<Rightarrow> r = Inr (length (filter (\<lambda>x. fate_of env x \<notin> {Drop, LostReply}
                \<and> Option.bind (nodesById co x) (servers w) \<noteq> None) pl))
            \<and> (\<forall>x \<in> set pl. fate_of env x \<noteq> Drop \<longrightarrow> replica co w' x h = None))"
proof (cases "preferenceList sha1 (co_ring co) h (repl_n co)")
  case None
  with assms show ?thesis by (auto simp: deleteChunk_def intro: evolves_refl delete_rel_refl)
next
  case (Some pl)
  obtain oks w1 where d: "delete_all (node_serve sha) env (nodesById co) h pl w = (oks, w1)"
    by fastforce
  with assms(3) Some have "r = Inr (length (filter (\<lambda>ok. ok) oks))" "w' = w1"
    by (simp_all add: deleteChunk_def)
  with node.delete_all_step [OF assms(1,2) d] node.delete_all_count [OF assms(1,2) d] Some
  show ?thesis by simp
qed

text \<open>
  The coordinator provides the deletion of chunks to the collector. The circumstances of a
  delete are given per chunk.
\<close>

definition delete_reached :: "sha1 \<Rightarrow> (string \<Rightarrow> call_env) \<Rightarrow> coordinator \<Rightarrow> string \<Rightarrow> string set" where
  "delete_reached sha1 envs co h =
     (case preferenceList sha1 (co_ring co) h (repl_n co) of
        None \<Rightarrow> {}
      | Some pl \<Rightarrow> {x \<in> set pl. fate_of (envs h) x \<noteq> Drop})"

definition delete_answers ::
  "sha1 \<Rightarrow> (string \<Rightarrow> call_env) \<Rightarrow> coordinator \<Rightarrow> 'n world \<Rightarrow> string \<Rightarrow> bool" where
  "delete_answers sha1 envs co w h =
     (case preferenceList sha1 (co_ring co) h (repl_n co) of
        None \<Rightarrow> False
      | Some pl \<Rightarrow> \<exists>x \<in> set pl. fate_of (envs h) x \<notin> {Drop, LostReply}
          \<and> Option.bind (nodesById co x) (servers w) \<noteq> None)"

lemma delete_all_dropped:
  "\<forall>x \<in> set xs. fate_of env x = Drop \<Longrightarrow> snd (delete_all serve env urls h xs w) = w"
  by (induction xs) (auto simp: Let_def split_beta fetch_def split: option.splits)

interpretation replicas: chunk_deleter
  "\<lambda>h. deleteChunk (node_serve sha) sha1 (envs h) co h" cluster_ok "replica co"
  "delete_reached sha1 envs co" "delete_answers sha1 envs co"
  "\<lambda>h. preferenceList sha1 (co_ring co) h (repl_n co) \<noteq> None"
  for sha sha1 envs co
proof
  fix w w' h r assume ok: "cluster_ok w" "valid_hash h"
    and d: "deleteChunk (node_serve sha) sha1 (envs h) co h w = (r, w')"
  note res = deleteChunk_result [OF ok d]
  have rel: "replica co w x = replica co w' x \<or> delete_rel h (replica co w x) (replica co w' x)" for x
    using res by (intro evolves_held) simp
  show "cluster_ok w'" using res by simp
  show "replica co w' x g = replica co w x g" if "g \<noteq> h" for x g
    using rel [of x] that by (auto simp: delete_rel_def)
  show "replica co w' x h = None \<or> replica co w' x h = replica co w x h" for x
    using rel [of x] by (auto simp: delete_rel_def)
  show "replica co w' x h = None" if "x \<in> delete_reached sha1 envs co h" for x
    using res that by (auto simp: delete_reached_def split: option.splits)
  show "replica co w' x h = replica co w x h" if none: "delete_reached sha1 envs co h = {}" for x
  proof (cases "preferenceList sha1 (co_ring co) h (repl_n co)")
    case None
    with d have "w' = w" by (simp add: deleteChunk_def)
    then show ?thesis by simp
  next
    case (Some pl)
    with none have "\<forall>x \<in> set pl. fate_of (envs h) x = Drop" by (auto simp: delete_reached_def)
    note drop = delete_all_dropped [OF this, of "node_serve sha" "nodesById co" h w]
    from d Some have "w' = snd (delete_all (node_serve sha) (envs h) (nodesById co) h pl w)"
      by (auto simp: deleteChunk_def Let_def split_beta)
    then have "w' = w" unfolding drop .
    then show ?thesis by simp
  qed
  show "\<exists>k. r = Inr k \<and> (0 < k \<longleftrightarrow> delete_answers sha1 envs co w h)"
    if "preferenceList sha1 (co_ring co) h (repl_n co) \<noteq> None"
    using res that by (auto simp: delete_answers_def filter_empty_conv)
  show "delete_answers sha1 envs co w' = delete_answers sha1 envs co w"
    using conjunct1 [OF conjunct2 [OF res], THEN evolves_servers]
    by (simp add: delete_answers_def fun_eq_iff split: option.split)
qed

section \<open>A small cluster for the examples\<close>

definition demo_ring :: hash_ring where
  "demo_ring = addNode (\<lambda>_. 0) ''c'' (addNode (\<lambda>_. 0) ''b'' (addNode (\<lambda>_. 0) ''a'' (new_ring 1)))"

definition demo :: coordinator where
  "demo = \<lparr>co_ring = demo_ring, nodesById = Some, repl_n = js_nat 3, write_w = js_nat 2\<rparr>"

definition demo_world :: "storage_node world" where
  "demo_world = \<lparr>servers = (\<lambda>u. Some (buildStorageNode u)), counters = no_metrics\<rparr>"

definition demo_env :: "string set \<Rightarrow> call_env" where
  "demo_env down = \<lparr>fate_of = (\<lambda>x. if x \<in> down then Drop else Deliver), nonce_of = (\<lambda>_. (0, [])),
     settled_ms = (\<lambda>_. 0), failed_ms = (\<lambda>_. 0)\<rparr>"

lemma demo_ring_wf: "ring_wf demo_ring"
  unfolding demo_ring_def by (intro ring_wf_addNode ring_wf_new)

lemma demo_ring_nodes: "ring_nodes demo_ring = [''a'', ''b'', ''c'']"
  by (simp add: demo_ring_def addNode_def new_ring_def)

lemma demo_vnodes: "vnodesPerNode demo_ring = 1"
  by (simp add: demo_ring_def)

lemma demo_ring_fits: "ring_fits demo_ring"
  using length_ring_entries [OF demo_ring_wf] by (simp add: ring_fits_def demo_ring_nodes demo_vnodes)

lemma demo_pl: "\<exists>pl. preferenceList sha1 demo_ring h (js_nat 3) = Some pl
    \<and> distinct pl \<and> set pl = {''a'', ''b'', ''c''}"
proof -
  let ?order = "node_order sha1 demo_ring h"
  have "length ?order = 3"
    using length_node_order [OF demo_ring_wf] by (simp add: demo_vnodes ring_size_def demo_ring_nodes)
  then have "preferenceList sha1 demo_ring h (js_nat 3) = Some ?order"
    by (simp add: preferenceList_Some demo_ring_wf demo_ring_fits)
  moreover have "set ?order = {''a'', ''b'', ''c''}"
    using set_node_order [OF demo_ring_wf] by (auto simp: demo_vnodes demo_ring_nodes)
  ultimately show ?thesis by simp
qed

lemma demo_list:
  obtains pl where "preferenceList sha1 (co_ring demo) h (repl_n demo) = Some pl" "distinct pl"
    "set pl = {''a'', ''b'', ''c''}"
proof -
  obtain pl where "preferenceList sha1 demo_ring h (js_nat 3) = Some pl" "distinct pl"
      "set pl = {''a'', ''b'', ''c''}"
    using demo_pl by blast
  then show thesis by (intro that [of pl]) (simp_all add: demo_def)
qed

lemma demo_world_ok: "cluster_ok demo_world"
  by (simp add: world_ok_def demo_world_def node_wf_build)

lemma demo_world_sound: "cluster_sound sha demo_world"
  by (simp add: cluster_sound_def demo_world_def node_copy_build)

lemma demo_put:
  assumes "\<exists>x \<in> {''a'', ''b'', ''c''}. down \<subseteq> {x}" and "h = sha256_hex sha buf"
  shows "\<exists>rep w'. putChunk (node_serve sha) sha1 (demo_env down) demo h buf demo_world = (Inr rep, w')"
proof -
  obtain pl where pl: "preferenceList sha1 demo_ring h (js_nat 3) = Some pl" "distinct pl"
      "set pl = {''a'', ''b'', ''c''}"
    using demo_pl by blast
  obtain r w' where put: "putChunk (node_serve sha) sha1 (demo_env down) demo h buf demo_world = (r, w')"
    by fastforce
  have pl': "preferenceList sha1 (co_ring demo) h (repl_n demo) = Some pl"
    using pl by (simp add: demo_def)
  let ?up = "filter (\<lambda>x. fate_of (demo_env down) x = Deliver
      \<and> Option.bind (nodesById demo x) (servers demo_world) \<noteq> None) pl"
  have "?up = filter (\<lambda>x. x \<notin> down) pl"
    by (intro filter_cong) (simp_all add: demo_env_def demo_def demo_world_def)
  moreover have "2 \<le> length (filter (\<lambda>x. x \<notin> down) pl)"
  proof -
    obtain x where x: "x \<in> {''a'', ''b'', ''c''}" "down \<subseteq> {x}" using assms(1) by blast
    have "2 \<le> card (set pl - {x})" using x(1) pl(3) by auto
    also have "\<dots> \<le> card (set (filter (\<lambda>x. x \<notin> down) pl))"
      using x(2) by (intro card_mono) auto
    also have "\<dots> \<le> length (filter (\<lambda>x. x \<notin> down) pl)" by (rule card_length)
    finally show ?thesis .
  qed
  ultimately have enough: "2 \<le> length ?up" by simp
  show ?thesis
  proof (rule putChunk_result [OF demo_world_ok put pl'])
    fix acked :: "string list" and new
    assume "sha256_hex sha buf = h \<longrightarrow> length ?up \<le> length acked"
      and "quorum_outcome demo h buf pl (length acked) new r (counters demo_world) (counters w')"
    with enough assms(2) put show ?thesis
      by (auto simp: quorum_outcome_def demo_def split: if_splits)
  qed
qed

lemma demo_copy:
  "\<exists>w. cluster_ok w \<and> replica demo w ''a'' (sha256_hex sha buf) = Some buf"
proof -
  obtain n where n: "node_wf n" "node_copy n (sha256_hex sha buf) = Some buf"
    using node_put_contract [OF node_wf_build, of sha "(0, [])" "sha256_hex sha buf" buf "''a''"]
    by (auto simp: node_copy_build)
  then show ?thesis
    by (intro exI [of _ "\<lparr>servers = [''a'' \<mapsto> n], counters = no_metrics\<rparr>"])
      (simp add: world_ok_def held_def demo_def)
qed

section \<open>Properties\<close>

text \<open>
  C15: a chunk write that succeeds is on at least W replicas. With W a natural number, there
  are at least W distinct nodes of the preference list that acknowledged it and have a copy
  under the name; unless W is 0 the bytes hash to the name; and if the report says the chunk
  was not deduplicated, one of those nodes has exactly these bytes.
\<close>

theorem putChunk_quorum:
  assumes "cluster_ok w" and "write_w co = js_nat k"
    and put: "putChunk (node_serve sha) sha1 env co h buf w = (Inr rep, w')"
  shows "\<exists>acked. distinct acked \<and> set acked \<subseteq> set (rep_preferenceList rep)
    \<and> length acked = rep_acks rep \<and> k \<le> rep_acks rep
    \<and> preferenceList sha1 (co_ring co) h (repl_n co) = Some (rep_preferenceList rep)
    \<and> (\<forall>x \<in> set acked. replica co w' x h \<noteq> None)
    \<and> (acked \<noteq> [] \<longrightarrow> sha256_hex sha buf = h)
    \<and> (\<not> rep_deduped rep \<longrightarrow> (\<exists>x \<in> set acked. replica co w' x h = Some buf))"
proof -
  from put obtain pl where pl: "preferenceList sha1 (co_ring co) h (repl_n co) = Some pl"
    by (auto simp: putChunk_def split: option.splits)
  show ?thesis
    by (rule putChunk_result [OF assms(1) put pl])
      (use pl assms(2) in \<open>auto simp: quorum_outcome_def split: if_splits\<close>)
qed

theorem putChunk_quorum_witness:
  "\<exists>rep w'. putChunk (node_serve (\<lambda>_. 1)) (\<lambda>_. 0) (demo_env {''b''}) demo
      (sha256_hex (\<lambda>_. 1) [9]) [9] demo_world = (Inr rep, w') \<and> 2 \<le> rep_acks rep"
proof -
  have "\<exists>x \<in> {''a'', ''b'', ''c''}. {''b''} \<subseteq> {x}" by simp
  from demo_put [OF this refl] obtain rep w' where
    put: "putChunk (node_serve (\<lambda>_. 1)) (\<lambda>_. 0) (demo_env {''b''}) demo
      (sha256_hex (\<lambda>_. 1) [9]) [9] demo_world = (Inr rep, w')" by blast
  have "write_w demo = js_nat 2" by (simp add: demo_def)
  from putChunk_quorum [OF demo_world_ok this put] put show ?thesis by blast
qed

lemma putChunk_succeeds:
  assumes "cluster_ok w" and "write_w co = js_nat k" and "sha256_hex sha buf = h"
    and "preferenceList sha1 (co_ring co) h (repl_n co) = Some pl"
    and "k \<le> length (filter (\<lambda>x. fate_of env x = Deliver
           \<and> Option.bind (nodesById co x) (servers w) \<noteq> None) pl)"
  obtains rep w' where "putChunk (node_serve sha) sha1 env co h buf w = (Inr rep, w')"
proof -
  obtain r w' where put: "putChunk (node_serve sha) sha1 env co h buf w = (r, w')" by fastforce
  have "\<exists>rep. r = Inr rep"
    by (rule putChunk_result [OF assms(1) put assms(4)])
      (use put assms(2,3,5) in \<open>auto simp: quorum_outcome_def split: if_splits\<close>)
  with put that show thesis by blast
qed

text \<open>
  Availability of writes. If at least W nodes of the preference list answer, the write of
  bytes under their own hash succeeds, whatever happens at the others.
\<close>

theorem putChunk_available:
  assumes "cluster_ok w" and "write_w co = js_nat k" and "sha256_hex sha buf = h"
    and "preferenceList sha1 (co_ring co) h (repl_n co) = Some pl"
    and "k \<le> length (filter (\<lambda>x. fate_of env x = Deliver
           \<and> Option.bind (nodesById co x) (servers w) \<noteq> None) pl)"
  shows "\<exists>rep w'. putChunk (node_serve sha) sha1 env co h buf w = (Inr rep, w')"
  by (rule putChunk_succeeds [OF assms]) blast

theorem putChunk_available_witness:
  "\<exists>rep w'. putChunk (node_serve (\<lambda>_. 1)) (\<lambda>_. 0) (demo_env {''a'', ''b'', ''c''})
      (demo\<lparr>write_w := js_nat 0\<rparr>) (sha256_hex (\<lambda>_. 1) [9]) [9] demo_world = (Inr rep, w')"
proof -
  obtain pl where "preferenceList (\<lambda>_. 0) (co_ring (demo\<lparr>write_w := js_nat 0\<rparr>))
      (sha256_hex (\<lambda>_. 1) [9]) (repl_n (demo\<lparr>write_w := js_nat 0\<rparr>)) = Some pl"
    using demo_pl [of "\<lambda>_. 0" "sha256_hex (\<lambda>_. 1) [9]"] by (auto simp: demo_def)
  from putChunk_available [OF demo_world_ok _ refl this, of 0] show ?thesis by simp
qed

text \<open>
  A write never damages anything. Whatever its outcome and whatever the network does, on
  every node every copy of every chunk is as before, except that a node without a copy of
  this chunk may now have the bytes, and then they hash to its name.
\<close>

theorem putChunk_only_adds:
  assumes "cluster_ok w" and "putChunk (node_serve sha) sha1 env co h buf w = (r, w')"
  shows "cluster_ok w' \<and> (\<forall>x. replica co w' x = replica co w x
    \<or> replica co w x h = None \<and> sha256_hex sha buf = h
      \<and> replica co w' x = (replica co w x)(h \<mapsto> buf))"
proof (intro conjI allI)
  from putChunk_frame [OF assms] show "cluster_ok w'" by simp
  fix x
  have "replica co w x = replica co w' x
      \<or> put_rel sha h buf (replica co w x) (replica co w' x)"
    using putChunk_frame [OF assms] by (intro evolves_held) simp
  then show "replica co w' x = replica co w x
    \<or> replica co w x h = None \<and> sha256_hex sha buf = h
      \<and> replica co w' x = (replica co w x)(h \<mapsto> buf)"
    unfolding put_rel_def by (elim disjE) (simp_all add: disjI1)
qed

theorem putChunk_only_adds_witness:
  "cluster_ok (snd (putChunk (node_serve (\<lambda>_. 1)) (\<lambda>_. 0) (demo_env {''b''}) demo ''x'' [9] demo_world))"
  using putChunk_only_adds [OF demo_world_ok surjective_pairing, of "\<lambda>_. 1" "\<lambda>_. 0"
      "demo_env {''b''}" demo "''x''" "[9]"]
  by blast

text \<open>
  End-to-end integrity. Bytes that a read returns hash to the chunk's name, with any
  nodes at all behind the network: corrupt disks, altered responses, nodes that break the
  contract.
\<close>

theorem getChunk_verified:
  assumes "getChunk serve sha sha1 env co h w = (Inr (Some b), w')"
  shows "sha256_hex sha b = h"
  using assms by (rule getChunk_hash)

theorem getChunk_verified_witness:
  "\<exists>b. sha256_hex (\<lambda>_. 1) b = sha256_hex (\<lambda>_. 1) [9]
    \<and> fst (getChunk (\<lambda>z req n. (reply 200 (Garbled [9]), n)) (\<lambda>_. 1) (\<lambda>_. 0) (demo_env {})
         demo (sha256_hex (\<lambda>_. 1) [9]) demo_world) = Inr (Some b)"
proof -
  let ?h = "sha256_hex (\<lambda>_. 1) [9]"
  obtain pl where pl: "preferenceList (\<lambda>_. 0) demo_ring ?h (js_nat 3) = Some pl"
      "set pl = {''a'', ''b'', ''c''}"
    using demo_pl by blast
  then obtain x xs where "pl = x # xs" by (cases pl) auto
  with pl have "\<exists>w'. getChunk (\<lambda>z req n. (reply 200 (Garbled [9]), n)) (\<lambda>_. 1) (\<lambda>_. 0) (demo_env {})
      demo ?h demo_world = (Inr (Some [9]), w')"
    by (simp add: getChunk_def demo_def getFromNode_def fetch_def demo_env_def demo_world_def
        body_bytes_def)
  then show ?thesis using getChunk_verified by fastforce
qed

text \<open>
  C16: failover. If one node of the preference list answers and has an uncorrupted copy, the
  read returns bytes that hash to the name, whatever the nodes before it do, and it changes
  nothing on any node.
\<close>

theorem getChunk_failover:
  assumes "cluster_ok w" and "valid_hash h"
    and "preferenceList sha1 (co_ring co) h (repl_n co) = Some pl"
    and "x \<in> set pl" and "fate_of env x = Deliver"
    and "replica co w x h = Some b" and "sha256_hex sha b = h"
  shows "\<exists>b' w'. getChunk (node_serve sha) sha sha1 env co h w = (Inr (Some b'), w')
    \<and> sha256_hex sha b' = h \<and> servers w' = servers w"
  using getChunk_finds [OF assms] getChunk_servers [OF assms(1,2), of sha sha1 env co]
  by force

theorem getChunk_failover_witness:
  "\<exists>w b w'. getChunk (node_serve (\<lambda>_. 1)) (\<lambda>_. 1) (\<lambda>_. 0) (demo_env {''b'', ''c''}) demo
      (sha256_hex (\<lambda>_. 1) [9]) w = (Inr (Some b), w') \<and> sha256_hex (\<lambda>_. 1) b = sha256_hex (\<lambda>_. 1) [9]"
proof -
  let ?h = "sha256_hex (\<lambda>_. 1) [9]"
  obtain w where w: "cluster_ok w" "replica demo w ''a'' ?h = Some [9]"
    using demo_copy by blast
  obtain pl where pl: "preferenceList (\<lambda>_. 0) (co_ring demo) ?h (repl_n demo) = Some pl"
      "distinct pl" "set pl = {''a'', ''b'', ''c''}"
    by (rule demo_list)
  have "''a'' \<in> set pl" "fate_of (demo_env {''b'', ''c''}) ''a'' = Deliver"
    by (simp_all add: pl(3) demo_env_def)
  from getChunk_failover [OF w(1) valid_sha256_hex pl(1) this w(2) refl]
  obtain b w' where "getChunk (node_serve (\<lambda>_. 1)) (\<lambda>_. 1) (\<lambda>_. 0) (demo_env {''b'', ''c''}) demo ?h w
      = (Inr (Some b), w')" "sha256_hex (\<lambda>_. 1) b = ?h" by (elim exE conjE)
  then show ?thesis by (intro exI conjI)
qed



text \<open>
  A delete reports the number of nodes that answered, which says nothing about whether
  they had the chunk; every node it reached has no copy left, also where the answer was lost,
  and no copy of any other chunk changes on any node.
\<close>

theorem deleteChunk_exact:
  assumes "cluster_ok w" and "valid_hash h"
    and "preferenceList sha1 (co_ring co) h (repl_n co) = Some pl"
    and "deleteChunk (node_serve sha) sha1 env co h w = (r, w')"
  shows "r = Inr (length (filter (\<lambda>x. fate_of env x \<notin> {Drop, LostReply}
      \<and> Option.bind (nodesById co x) (servers w) \<noteq> None) pl))
    \<and> (\<forall>x \<in> set pl. fate_of env x \<noteq> Drop \<longrightarrow> replica co w' x h = None)
    \<and> (\<forall>x g. g \<noteq> h \<longrightarrow> replica co w' x g = replica co w x g)
    \<and> cluster_ok w'"
proof -
  note res = deleteChunk_result [OF assms(1,2,4), unfolded assms(3) option.case]
  have "replica co w' x g = replica co w x g" if "g \<noteq> h" for x g
  proof -
    have "replica co w x = replica co w' x \<or> delete_rel h (replica co w x) (replica co w' x)"
      using res by (intro evolves_held) simp
    with that show ?thesis by (auto simp: delete_rel_def)
  qed
  with res show ?thesis by simp
qed

theorem deleteChunk_exact_witness:
  "fst (deleteChunk (node_serve (\<lambda>_. 1)) (\<lambda>_. 0) (demo_env {''b''}) demo (sha256_hex (\<lambda>_. 1) [9])
    demo_world) = Inr 2"
proof -
  let ?h = "sha256_hex (\<lambda>_. 1) [9]"
  obtain pl where pl: "preferenceList (\<lambda>_. 0) demo_ring ?h (js_nat 3) = Some pl" "distinct pl"
      "set pl = {''a'', ''b'', ''c''}"
    using demo_pl by blast
  have "preferenceList (\<lambda>_. 0) (co_ring demo) ?h (repl_n demo) = Some pl"
    using pl(1) by (simp add: demo_def)
  from deleteChunk_exact [OF demo_world_ok valid_sha256_hex this surjective_pairing]
  have "fst (deleteChunk (node_serve (\<lambda>_. 1)) (\<lambda>_. 0) (demo_env {''b''}) demo ?h demo_world)
    = Inr (length (filter (\<lambda>x. fate_of (demo_env {''b''}) x \<notin> {Drop, LostReply}
      \<and> Option.bind (nodesById demo x) (servers demo_world) \<noteq> None) pl))" by blast
  also have "filter (\<lambda>x. fate_of (demo_env {''b''}) x \<notin> {Drop, LostReply}
      \<and> Option.bind (nodesById demo x) (servers demo_world) \<noteq> None) pl = filter (\<lambda>x. x \<noteq> ''b'') pl"
    by (intro filter_cong) (simp_all add: demo_env_def demo_def demo_world_def)
  also have "length \<dots> = 2"
    using length_filter_neq [OF pl(2), of "''b''"] distinct_card [OF pl(2)] pl(3) by simp
  finally show ?thesis .
qed

text \<open>
  A write quorum that is not a number (\<^verbatim>\<open>WRITE_QUORUM\<close> set to text) accepts every write:
  with no node reachable at all the write succeeds with no acknowledgement, reports the chunk
  as deduplicated, and stores it nowhere.
\<close>

theorem putChunk_nan_quorum:
  assumes "write_w co = NaN" and pl: "preferenceList sha1 (co_ring co) h (repl_n co) = Some pl"
    and "\<forall>x \<in> set pl. fate_of env x = Drop"
  shows "\<exists>w'. putChunk serve sha1 env co h buf w
      = (Inr \<lparr>rep_hash = h, rep_acks = 0, rep_of = length pl, rep_deduped = True,
              rep_preferenceList = pl\<rparr>, w') \<and> servers w' = servers w"
  using conjunct1 [OF put_all_dropped [OF assms(3), of serve "nodesById co" h buf w]]
    conjunct2 [OF put_all_dropped [OF assms(3), of serve "nodesById co" h buf w]] assms(1)
  by (simp add: putChunk_def pl split_beta)

theorem putChunk_nan_quorum_witness:
  "\<exists>rep w'. putChunk (node_serve (\<lambda>_. 1)) (\<lambda>_. 0) (demo_env {''a'', ''b'', ''c''})
      (demo\<lparr>write_w := NaN\<rparr>) (sha256_hex (\<lambda>_. 1) [9]) [9] demo_world = (Inr rep, w')
    \<and> rep_acks rep = 0 \<and> servers w' = servers demo_world"
proof -
  let ?h = "sha256_hex (\<lambda>_. 1) [9]"
  obtain pl where pl: "preferenceList (\<lambda>_. 0) demo_ring ?h (js_nat 3) = Some pl"
      "set pl = {''a'', ''b'', ''c''}"
    using demo_pl by blast
  have "preferenceList (\<lambda>_. 0) (co_ring (demo\<lparr>write_w := NaN\<rparr>)) ?h (repl_n (demo\<lparr>write_w := NaN\<rparr>))
      = Some pl"
    using pl(1) by (simp add: demo_def)
  moreover have "\<forall>x \<in> set pl. fate_of (demo_env {''a'', ''b'', ''c''}) x = Drop"
    by (simp add: pl(2) demo_env_def)
  ultimately show ?thesis
    using putChunk_nan_quorum [of "demo\<lparr>write_w := NaN\<rparr>" "\<lambda>_. 0" ?h pl
        "demo_env {''a'', ''b'', ''c''}" "node_serve (\<lambda>_. 1)" "[9]" demo_world] by fastforce
qed

text \<open>
  When no replica has good bytes, the outcome depends on the last node of the preference
  list alone: the read says the chunk does not exist exactly if that node answers and has no
  copy, even if all the others are unreachable or have a corrupt copy.
\<close>

theorem getChunk_exhausted:
  assumes "cluster_ok w" and "valid_hash h"
    and pl: "preferenceList sha1 (co_ring co) h (repl_n co) = Some pl" and "pl \<noteq> []"
    and "\<And>x b. x \<in> set pl \<Longrightarrow> replica co w x h = Some b \<Longrightarrow> sha256_hex sha b \<noteq> h"
    and "\<And>x b. x \<in> set pl \<Longrightarrow> fate_of env x \<noteq> Garble b"
  shows "fst (getChunk (node_serve sha) sha sha1 env co h w)
    = (if says_absent node_copy env (nodesById co) w h (last pl)
       then Inr None else Inl (ChunkUnavailableError h (length pl)))"
  using node.get_loop_exhausted [OF assms(1,2,5,6,4)] by (simp add: getChunk_def pl)

theorem getChunk_exhausted_witness:
  "\<exists>x. fst (getChunk (node_serve (\<lambda>_. 1)) (\<lambda>_. 1) (\<lambda>_. 0)
      (demo_env ({''a'', ''b'', ''c''} - {x})) demo (sha256_hex (\<lambda>_. 1) [9]) demo_world) = Inr None"
proof -
  let ?h = "sha256_hex (\<lambda>_. 1) [9]"
  obtain pl where pl: "preferenceList (\<lambda>_. 0) (co_ring demo) ?h (repl_n demo) = Some pl"
      "distinct pl" "set pl = {''a'', ''b'', ''c''}"
    by (rule demo_list)
  have ne: "pl \<noteq> []"
  proof
    assume "pl = []"
    with pl(3) show False by simp
  qed
  let ?env = "demo_env ({''a'', ''b'', ''c''} - {last pl})"
  have none: "replica demo demo_world x ?h = None" for x
    by (simp add: held_def demo_world_def demo_def node_copy_build)
  have "Option.bind (nodesById demo (last pl)) (servers demo_world) \<noteq> None"
    by (simp add: demo_def demo_world_def)
  then have absent: "says_absent node_copy ?env (nodesById demo) demo_world ?h (last pl)"
    unfolding says_absent_def using none by (simp add: demo_env_def)
  have "fst (getChunk (node_serve (\<lambda>_. 1)) (\<lambda>_. 1) (\<lambda>_. 0) ?env demo ?h demo_world)
    = (if says_absent node_copy ?env (nodesById demo) demo_world ?h (last pl)
       then Inr None else Inl (ChunkUnavailableError ?h (length pl)))"
    by (rule getChunk_exhausted [OF demo_world_ok valid_sha256_hex pl(1) ne])
      (simp_all add: none demo_env_def)
  then show ?thesis using absent by (simp only: if_True) (rule exI)
qed

end
