(* ===== verification/MetadataStore.thy ===== *)
theory MetadataStore
  imports GcInterface
begin

text \<open>
  \<^verbatim>\<open>src/metadataStore.js\<close>: the four SQL tables, each as the list of its rows in insertion
  order, and one definition per method. The methods run their statements without a
  transaction, so a statement that fails leaves the effects of the earlier ones. The random
  part of an id and the clock are arguments.
\<close>

section \<open>The tables\<close>

record file_row =
  file_id :: string
  file_created_at :: int
  current_version_id :: "string option"

record version_row =
  version_id :: string
  version_file_id :: string
  version_size :: nat
  version_created_at :: int

record manifest_row =
  manifest_version_id :: string
  seq :: nat
  chunk_hash :: string

record refcount_row =
  refcount_hash :: string
  refcount :: int

record metadata =
  files :: "file_row list"
  versions :: "version_row list"
  manifest_chunks :: "manifest_row list"
  chunk_refcounts :: "refcount_row list"

definition empty_db :: metadata where
  "empty_db = \<lparr>files = [], versions = [], manifest_chunks = [], chunk_refcounts = []\<rparr>"

section \<open>The methods\<close>

definition newId :: "string \<Rightarrow> bytes \<Rightarrow> string" where
  "newId pre random = pre @ ''_'' @ hex_encode random"

definition createFile :: "bytes \<Rightarrow> int \<Rightarrow> metadata \<Rightarrow> (js_error + string) \<times> metadata" where
  "createFile random now db =
     (let fileId = newId ''file'' random
      in if fileId \<in> file_id ` set (files db) then (Inl SqlConstraintError, db)
         else (Inr fileId,
               db\<lparr>files := files db @
                   [\<lparr>file_id = fileId, file_created_at = now, current_version_id = None\<rparr>]\<rparr>))"

text \<open>The upsert of \<^verbatim>\<open>bumpRefcount\<close>.\<close>

fun bump_refcount :: "string \<Rightarrow> refcount_row list \<Rightarrow> refcount_row list" where
  "bump_refcount h [] = [\<lparr>refcount_hash = h, refcount = 1\<rparr>]"
| "bump_refcount h (r # rs) =
     (if refcount_hash r = h then r\<lparr>refcount := refcount r + 1\<rparr> # rs
      else r # bump_refcount h rs)"

text \<open>The loop over \<^verbatim>\<open>chunkHashes\<close>: one manifest row and one upsert per chunk.\<close>

fun commit_chunks ::
  "string \<Rightarrow> string list \<Rightarrow> nat \<Rightarrow> metadata \<Rightarrow> (js_error + unit) \<times> metadata" where
  "commit_chunks v [] k db = (Inr (), db)"
| "commit_chunks v (h # hs) k db =
     (if (v, k) \<in> (\<lambda>m. (manifest_version_id m, seq m)) ` set (manifest_chunks db)
      then (Inl SqlConstraintError, db)
      else commit_chunks v hs (k + 1)
             (db\<lparr>manifest_chunks := manifest_chunks db @
                   [\<lparr>manifest_version_id = v, seq = k, chunk_hash = h\<rparr>],
                 chunk_refcounts := bump_refcount h (chunk_refcounts db)\<rparr>))"

definition set_current :: "string \<Rightarrow> string \<Rightarrow> metadata \<Rightarrow> metadata" where
  "set_current f v db =
     db\<lparr>files := map (\<lambda>r. if file_id r = f then r\<lparr>current_version_id := Some v\<rparr> else r) (files db)\<rparr>"

text \<open>
  The insertion of the version row fails on a version id that is taken and on a file that does
  not exist (the foreign key, which \<^verbatim>\<open>node:sqlite\<close> enforces).
\<close>

definition commitVersion ::
  "bytes \<Rightarrow> int \<Rightarrow> string \<Rightarrow> string list \<Rightarrow> nat \<Rightarrow> metadata \<Rightarrow> (js_error + string) \<times> metadata" where
  "commitVersion random now fileId chunkHashes totalSize db =
     (let versionId = newId ''ver'' random
      in if versionId \<in> version_id ` set (versions db) \<or> fileId \<notin> file_id ` set (files db)
         then (Inl SqlConstraintError, db)
         else let db1 = db\<lparr>versions := versions db @
                    [\<lparr>version_id = versionId, version_file_id = fileId,
                      version_size = totalSize, version_created_at = now\<rparr>]\<rparr>
              in (case commit_chunks versionId chunkHashes 0 db1 of
                    (Inl e, db2) \<Rightarrow> (Inl e, db2)
                  | (Inr _, db2) \<Rightarrow> (Inr versionId, set_current fileId versionId db2)))"

definition getFile :: "metadata \<Rightarrow> string \<Rightarrow> file_row option" where
  "getFile db f = find (\<lambda>r. file_id r = f) (files db)"

record version_info = version_row +
  chunkHashes :: "string list"

definition getVersion :: "metadata \<Rightarrow> string \<Rightarrow> version_info option" where
  "getVersion db v =
     (case find (\<lambda>r. version_id r = v) (versions db) of
        None \<Rightarrow> None
      | Some r \<Rightarrow>
          let chunks = sort_key seq (filter (\<lambda>m. manifest_version_id m = v) (manifest_chunks db))
          in Some \<lparr>version_id = version_id r, version_file_id = version_file_id r,
                   version_size = version_size r, version_created_at = version_created_at r,
                   chunkHashes = map chunk_hash chunks\<rparr>)"

definition listVersions :: "metadata \<Rightarrow> string \<Rightarrow> version_row list" where
  "listVersions db f =
     sort_key version_created_at (filter (\<lambda>r. version_file_id r = f) (versions db))"

definition getRefcount :: "metadata \<Rightarrow> string \<Rightarrow> int" where
  "getRefcount db h =
     (case find (\<lambda>r. refcount_hash r = h) (chunk_refcounts db) of
        None \<Rightarrow> 0
      | Some r \<Rightarrow> refcount r)"

definition listOrphanedChunks :: "metadata \<Rightarrow> string list" where
  "listOrphanedChunks db =
     map refcount_hash (filter (\<lambda>r. refcount r \<le> 0) (chunk_refcounts db))"

definition reapOrphanedChunk :: "string \<Rightarrow> metadata \<Rightarrow> metadata" where
  "reapOrphanedChunk h db =
     db\<lparr>chunk_refcounts := filter (\<lambda>r. refcount_hash r \<noteq> h) (chunk_refcounts db)\<rparr>"

definition dec_refcount :: "string \<Rightarrow> refcount_row list \<Rightarrow> refcount_row list" where
  "dec_refcount h rs =
     map (\<lambda>r. if refcount_hash r = h then r\<lparr>refcount := refcount r - 1\<rparr> else r) rs"

definition decrementRefcounts :: "string list \<Rightarrow> metadata \<Rightarrow> metadata" where
  "decrementRefcounts hs db = db\<lparr>chunk_refcounts := fold dec_refcount hs (chunk_refcounts db)\<rparr>"

definition deleteVersion :: "string \<Rightarrow> metadata \<Rightarrow> metadata" where
  "deleteVersion v db =
     (case getVersion db v of
        None \<Rightarrow> db
      | Some version \<Rightarrow>
          let db1 = decrementRefcounts (chunkHashes version) db;
              db2 = db1\<lparr>manifest_chunks :=
                filter (\<lambda>m. manifest_version_id m \<noteq> v) (manifest_chunks db1)\<rparr>
          in db2\<lparr>versions := filter (\<lambda>r. version_id r \<noteq> v) (versions db2)\<rparr>)"

section \<open>Invariant\<close>

text \<open>How many manifest rows name a chunk: the references the count must agree with.\<close>

definition manifest_refs :: "metadata \<Rightarrow> string \<Rightarrow> nat" where
  "manifest_refs db h = count_list (map chunk_hash (manifest_chunks db)) h"

definition metadata_wf :: "metadata \<Rightarrow> bool" where
  "metadata_wf db \<longleftrightarrow>
     distinct (map file_id (files db))
     \<and> distinct (map version_id (versions db))
     \<and> distinct (map (\<lambda>m. (manifest_version_id m, seq m)) (manifest_chunks db))
     \<and> distinct (map refcount_hash (chunk_refcounts db))
     \<and> version_file_id ` set (versions db) \<subseteq> file_id ` set (files db)
     \<and> manifest_version_id ` set (manifest_chunks db) \<subseteq> version_id ` set (versions db)
     \<and> (\<forall>h. getRefcount db h = int (manifest_refs db h))"

text \<open>
  The steps of a client: the calls of the server and of the garbage collector, which reaps
  only what the store lists. A commit may fail part-way.
\<close>

inductive meta_step :: "metadata \<Rightarrow> metadata \<Rightarrow> bool" where
  create: "meta_step db (snd (createFile random now db))"
| commit: "meta_step db (snd (commitVersion random now f hs n db))"
| delete: "meta_step db (deleteVersion v db)"
| reap: "h \<in> set (listOrphanedChunks db) \<Longrightarrow> meta_step db (reapOrphanedChunk h db)"

inductive_cases meta_stepE: "meta_step db db'"

section \<open>The counts table as a function\<close>

definition count_of :: "refcount_row list \<Rightarrow> string \<Rightarrow> int" where
  "count_of rs h = (case find (\<lambda>r. refcount_hash r = h) rs of None \<Rightarrow> 0 | Some r \<Rightarrow> refcount r)"

lemma getRefcount_count_of: "getRefcount db h = count_of (chunk_refcounts db) h"
  by (simp add: getRefcount_def count_of_def)

lemma count_of_simps [simp]:
  "count_of [] h = 0"
  "count_of (r # rs) h = (if refcount_hash r = h then refcount r else count_of rs h)"
  by (simp_all add: count_of_def)

lemma count_of_row:
  "distinct (map refcount_hash rs) \<Longrightarrow> r \<in> set rs \<Longrightarrow> count_of rs (refcount_hash r) = refcount r"
  by (induction rs) force+

lemma count_of_unknown: "h \<notin> refcount_hash ` set rs \<Longrightarrow> count_of rs h = 0"
  by (induction rs) auto

lemma set_bump [simp]: "refcount_hash ` set (bump_refcount h rs) = insert h (refcount_hash ` set rs)"
  by (induction rs) auto

lemma distinct_bump:
  "distinct (map refcount_hash rs) \<Longrightarrow> distinct (map refcount_hash (bump_refcount h rs))"
proof (induction rs)
  case (Cons r rs)
  then have "refcount_hash r \<notin> refcount_hash ` set rs" by simp
  then have "refcount_hash r \<notin> refcount_hash ` set (bump_refcount h rs)" if "refcount_hash r \<noteq> h"
    using that by (simp only: set_bump insert_iff) simp
  with Cons show ?case by auto
qed simp

lemma count_of_bump [db_simps]:
  "count_of (bump_refcount h rs) g = count_of rs g + (if g = h then 1 else 0)"
  by (induction rs) auto

lemma count_of_bumps [db_simps]:
  "count_of (fold bump_refcount hs rs) g = count_of rs g + int (count_list hs g)"
  by (induction hs arbitrary: rs) (auto simp: db_simps)

lemma set_bumps: "refcount_hash ` set (fold bump_refcount hs rs) = set hs \<union> refcount_hash ` set rs"
  by (induction hs arbitrary: rs) auto

lemma distinct_bumps:
  "distinct (map refcount_hash rs) \<Longrightarrow> distinct (map refcount_hash (fold bump_refcount hs rs))"
  by (induction hs arbitrary: rs) (auto simp: distinct_bump)

lemma names_dec [simp]: "map refcount_hash (dec_refcount h rs) = map refcount_hash rs"
  by (simp add: dec_refcount_def)

lemma names_decs [simp]: "map refcount_hash (fold dec_refcount hs rs) = map refcount_hash rs"
  by (induction hs arbitrary: rs) auto

lemma count_of_dec [db_simps]:
  "count_of (dec_refcount h rs) g
    = count_of rs g - (if g = h \<and> h \<in> refcount_hash ` set rs then 1 else 0)"
  by (induction rs) (auto simp: dec_refcount_def)

lemma count_of_decs [db_simps]:
  "count_of (fold dec_refcount hs rs) g
    = count_of rs g - (if g \<in> refcount_hash ` set rs then int (count_list hs g) else 0)"
proof (induction hs arbitrary: rs)
  case (Cons h hs)
  have "refcount_hash ` set (dec_refcount h rs) = refcount_hash ` set rs"
    by (metis list.set_map names_dec)
  with Cons show ?case by (simp add: count_of_dec)
qed simp

lemma count_of_reap [db_simps]:
  "count_of (filter (\<lambda>r. refcount_hash r \<noteq> h) rs) g = (if g = h then 0 else count_of rs g)"
  by (induction rs) auto

section \<open>The manifest\<close>

definition manifest_rows :: "string \<Rightarrow> nat \<Rightarrow> string list \<Rightarrow> manifest_row list" where
  "manifest_rows v k hs =
     map (\<lambda>(i, h). \<lparr>manifest_version_id = v, seq = i, chunk_hash = h\<rparr>) (zip [k..<k + length hs] hs)"

lemma manifest_rows_Nil [simp]: "manifest_rows v k [] = []"
  by (simp add: manifest_rows_def)

lemma manifest_rows_Cons [simp]:
  "manifest_rows v k (h # hs)
    = \<lparr>manifest_version_id = v, seq = k, chunk_hash = h\<rparr> # manifest_rows v (Suc k) hs"
proof -
  have "[k..<k + length (h # hs)] = k # [Suc k..<Suc k + length hs]" by (simp add: upt_rec)
  then show ?thesis by (simp add: manifest_rows_def)
qed

lemma map_manifest_rows [simp]:
  "map chunk_hash (manifest_rows v k hs) = hs"
  "map seq (manifest_rows v k hs) = [k..<k + length hs]"
  by (simp_all add: manifest_rows_def comp_def split_beta map_fst_zip map_snd_zip)

lemma set_manifest_rows:
  "m \<in> set (manifest_rows v k hs) \<Longrightarrow> manifest_version_id m = v \<and> k \<le> seq m"
  by (auto simp: manifest_rows_def dest: set_zip_leftD)

lemma keys_manifest_rows:
  "map (\<lambda>m. (manifest_version_id m, seq m)) (manifest_rows v k hs)
    = map (Pair v) [k..<k + length hs]"
  by (simp add: manifest_rows_def comp_def split_beta map_fst_zip
      flip: map_map [of "Pair v" fst, unfolded comp_def])

text \<open>The loop of a commit in closed form, when the version has no rows yet.\<close>

lemma commit_chunks_eq:
  assumes "\<forall>m \<in> set (manifest_chunks db). manifest_version_id m = v \<longrightarrow> seq m < k"
  shows "commit_chunks v hs k db =
    (Inr (), db\<lparr>manifest_chunks := manifest_chunks db @ manifest_rows v k hs,
                chunk_refcounts := fold bump_refcount hs (chunk_refcounts db)\<rparr>)"
  using assms
proof (induction hs arbitrary: k db)
  case (Cons h hs)
  let ?db = "db\<lparr>manifest_chunks := manifest_chunks db @
        [\<lparr>manifest_version_id = v, seq = k, chunk_hash = h\<rparr>],
      chunk_refcounts := bump_refcount h (chunk_refcounts db)\<rparr>"
  have free: "(v, k) \<notin> (\<lambda>m. (manifest_version_id m, seq m)) ` set (manifest_chunks db)"
    using Cons.prems by (auto simp: image_iff)
  have "\<forall>m \<in> set (manifest_chunks ?db). manifest_version_id m = v \<longrightarrow> seq m < Suc k"
    using Cons.prems by (auto intro: less_SucI)
  note rest = Cons.IH [OF this]
  show ?case
    unfolding commit_chunks.simps(2) if_not_P [OF free] Suc_eq_plus1 [symmetric] rest by simp
qed simp

text \<open>The hashes of a version, in the order of their numbers.\<close>

definition version_chunks :: "metadata \<Rightarrow> string \<Rightarrow> string list" where
  "version_chunks db v =
     map chunk_hash (sort_key seq (filter (\<lambda>m. manifest_version_id m = v) (manifest_chunks db)))"

lemma getVersion_None [simp]: "getVersion db v = None \<longleftrightarrow> v \<notin> version_id ` set (versions db)"
  using find_key_None [of version_id v "versions db"]
  by (auto simp: getVersion_def Let_def split: option.splits)

lemma getVersion_in: "getVersion db v = Some ver \<Longrightarrow> v \<in> version_id ` set (versions db)"
  by (metis getVersion_None option.distinct(1))

lemma getVersion_chunks: "getVersion db v = Some ver \<Longrightarrow> chunkHashes ver = version_chunks db v"
  by (auto simp: getVersion_def version_chunks_def Let_def split: option.splits)

lemma getVersion_id: "getVersion db v = Some ver \<Longrightarrow> version_id ver = v"
  by (auto simp: getVersion_def Let_def find_Some_iff split: option.splits)

lemma count_version_chunks:
  "count_list (version_chunks db v) h
    = count_list (map chunk_hash (filter (\<lambda>m. manifest_version_id m = v) (manifest_chunks db))) h"
  by (simp add: version_chunks_def count_sort_key)

lemma set_version_chunks:
  "set (version_chunks db v) = chunk_hash ` {m \<in> set (manifest_chunks db). manifest_version_id m = v}"
  by (simp add: version_chunks_def)

section \<open>The methods in closed form, and the invariant\<close>

lemma metadata_wfD:
  assumes "metadata_wf db"
  shows "distinct (map file_id (files db))" "distinct (map version_id (versions db))"
    "distinct (map refcount_hash (chunk_refcounts db))"
    "version_file_id ` set (versions db) \<subseteq> file_id ` set (files db)"
    "manifest_version_id ` set (manifest_chunks db) \<subseteq> version_id ` set (versions db)"
    "getRefcount db h = int (manifest_refs db h)"
  using assms by (simp_all add: metadata_wf_def)

lemma ids_set_current [simp]: "map file_id (files (set_current f v db)) = map file_id (files db)"
  by (simp add: set_current_def)

lemma set_current_frame [frame_simps]:
  "versions (set_current f v db) = versions db"
  "manifest_chunks (set_current f v db) = manifest_chunks db"
  "chunk_refcounts (set_current f v db) = chunk_refcounts db"
  by (simp_all add: set_current_def)

lemma commitVersion_eq:
  assumes "metadata_wf db"
  shows "commitVersion random now f hs n db =
    (if newId ''ver'' random \<in> version_id ` set (versions db) \<or> f \<notin> file_id ` set (files db)
     then (Inl SqlConstraintError, db)
     else (Inr (newId ''ver'' random), set_current f (newId ''ver'' random)
       (db\<lparr>versions := versions db @ [\<lparr>version_id = newId ''ver'' random, version_file_id = f,
              version_size = n, version_created_at = now\<rparr>],
           manifest_chunks := manifest_chunks db @ manifest_rows (newId ''ver'' random) 0 hs,
           chunk_refcounts := fold bump_refcount hs (chunk_refcounts db)\<rparr>)))"
proof (cases "newId ''ver'' random \<in> version_id ` set (versions db) \<or> f \<notin> file_id ` set (files db)")
  case True
  then show ?thesis by (simp add: commitVersion_def)
next
  case False
  let ?v = "newId ''ver'' random"
  let ?db = "db\<lparr>versions := versions db @ [\<lparr>version_id = ?v, version_file_id = f,
      version_size = n, version_created_at = now\<rparr>]\<rparr>"
  have "\<forall>m \<in> set (manifest_chunks ?db). manifest_version_id m = ?v \<longrightarrow> seq m < 0"
  proof (intro ballI impI)
    fix m assume m: "m \<in> set (manifest_chunks ?db)" "manifest_version_id m = ?v"
    then have "?v \<in> version_id ` set (versions db)"
      using subsetD [OF metadata_wfD(5) [OF assms] imageI, of m] by simp
    with m False show "seq m < 0" by blast
  qed
  from commit_chunks_eq [OF this, of hs] False show ?thesis
    by (simp add: commitVersion_def Let_def)
qed

lemma deleteVersion_eq:
  "deleteVersion v db =
    (if v \<in> version_id ` set (versions db)
     then db\<lparr>chunk_refcounts := fold dec_refcount (version_chunks db v) (chunk_refcounts db),
             manifest_chunks := filter (\<lambda>m. manifest_version_id m \<noteq> v) (manifest_chunks db),
             versions := filter (\<lambda>r. version_id r \<noteq> v) (versions db)\<rparr>
     else db)"
proof (cases "getVersion db v")
  case None
  then have "v \<notin> version_id ` set (versions db)" by simp
  with None show ?thesis by (simp only: deleteVersion_def option.case if_False)
next
  case (Some ver)
  then have "v \<in> version_id ` set (versions db)" using getVersion_None [of db v] by auto
  with Some show ?thesis
    by (simp add: deleteVersion_def decrementRefcounts_def getVersion_chunks [OF Some] Let_def)
qed

lemma getRefcount_delete:
  assumes wf: "metadata_wf db" and "v \<in> version_id ` set (versions db)"
  shows "getRefcount (deleteVersion v db) h
    = getRefcount db h - int (count_list (version_chunks db v) h)"
    and "manifest_refs (deleteVersion v db) h
    = manifest_refs db h - count_list (version_chunks db v) h"
    and "count_list (version_chunks db v) h \<le> manifest_refs db h"
proof -
  have part: "manifest_refs db h = count_list (version_chunks db v) h
    + count_list (map chunk_hash (filter (\<lambda>m. manifest_version_id m \<noteq> v) (manifest_chunks db))) h"
    unfolding manifest_refs_def count_version_chunks by (rule count_list_partition)
  then show le: "count_list (version_chunks db v) h \<le> manifest_refs db h" by simp
  show "manifest_refs (deleteVersion v db) h
      = manifest_refs db h - count_list (version_chunks db v) h"
    using part assms(2) by (simp add: deleteVersion_eq manifest_refs_def)
  have "count_list (version_chunks db v) h = 0" if "h \<notin> refcount_hash ` set (chunk_refcounts db)"
    using le count_of_unknown [OF that] metadata_wfD(6) [OF wf, of h]
    by (simp add: getRefcount_count_of)
  then show "getRefcount (deleteVersion v db) h
      = getRefcount db h - int (count_list (version_chunks db v) h)"
    using assms(2) by (auto simp: getRefcount_count_of deleteVersion_eq count_of_decs)
qed

lemma metadata_wf_create: "metadata_wf db \<Longrightarrow> metadata_wf (snd (createFile random now db))"
  by (auto simp: createFile_def Let_def metadata_wf_def getRefcount_def manifest_refs_def)

lemma metadata_wf_commit:
  assumes wf: "metadata_wf db"
  shows "metadata_wf (snd (commitVersion random now f hs n db))"
proof (cases "newId ''ver'' random \<in> version_id ` set (versions db) \<or> f \<notin> file_id ` set (files db)")
  case True
  with wf show ?thesis by (simp add: commitVersion_eq)
next
  case False
  let ?v = "newId ''ver'' random"
  let ?db = "snd (commitVersion random now f hs n db)"
  have parts: "versions ?db = versions db @ [\<lparr>version_id = ?v, version_file_id = f,
      version_size = n, version_created_at = now\<rparr>]"
    "manifest_chunks ?db = manifest_chunks db @ manifest_rows ?v 0 hs"
    "chunk_refcounts ?db = fold bump_refcount hs (chunk_refcounts db)"
    "map file_id (files ?db) = map file_id (files db)"
    using False by (simp_all add: commitVersion_eq [OF wf] frame_simps)
  have ids: "file_id ` set (files ?db) = file_id ` set (files db)"
    by (metis list.set_map parts(4))
  have "?v \<notin> manifest_version_id ` set (manifest_chunks db)"
    using False metadata_wfD(5) [OF wf] by blast
  then have fresh: "(\<lambda>m. (manifest_version_id m, seq m)) ` set (manifest_chunks db)
      \<inter> set (map (Pair ?v) [0..<0 + length hs]) = {}"
    by (auto simp: image_iff)
  have "distinct (map (Pair ?v) [0..<0 + length hs])"
    by (simp add: distinct_map inj_on_def)
  with wf fresh have keys:
    "distinct (map (\<lambda>m. (manifest_version_id m, seq m)) (manifest_chunks ?db))"
    unfolding parts(2) map_append keys_manifest_rows metadata_wf_def distinct_append
    by (simp only: set_map)
  have refs: "getRefcount ?db h = int (manifest_refs ?db h)" for h
    using metadata_wfD(6) [OF wf, of h]
    by (simp add: getRefcount_count_of manifest_refs_def parts db_simps)
  have "manifest_version_id ` set (manifest_rows ?v 0 hs) \<subseteq> {?v}"
    using set_manifest_rows [of _ ?v 0 hs] by (intro image_subsetI) simp
  then have "manifest_version_id ` set (manifest_chunks ?db) \<subseteq> version_id ` set (versions ?db)"
    using metadata_wfD(5) [OF wf] unfolding parts(1,2) set_append image_Un by auto
  moreover have "distinct (map version_id (versions ?db))"
    using metadata_wfD(2) [OF wf] False by (simp add: parts(1))
  moreover have "version_file_id ` set (versions ?db) \<subseteq> file_id ` set (files ?db)"
    using metadata_wfD(4) [OF wf] False by (simp add: parts(1) ids)
  moreover have "distinct (map refcount_hash (chunk_refcounts ?db))"
    using metadata_wfD(3) [OF wf] by (simp add: parts(3) distinct_bumps)
  moreover have "distinct (map file_id (files ?db))"
    using metadata_wfD(1) [OF wf] by (simp only: parts(4))
  ultimately show ?thesis
    using keys refs unfolding metadata_wf_def by blast
qed

lemma metadata_wf_delete:
  assumes wf: "metadata_wf db"
  shows "metadata_wf (deleteVersion v db)"
proof (cases "v \<in> version_id ` set (versions db)")
  case False
  with wf show ?thesis by (simp add: deleteVersion_eq)
next
  case True
  have refs: "getRefcount (deleteVersion v db) h = int (manifest_refs (deleteVersion v db) h)" for h
    using getRefcount_delete [OF wf True, of h] metadata_wfD(6) [OF wf, of h] by simp
  have "distinct (map refcount_hash (chunk_refcounts (deleteVersion v db)))"
    using True metadata_wfD(3) [OF wf] by (simp add: deleteVersion_eq)
  moreover have "manifest_version_id ` set (manifest_chunks (deleteVersion v db))
      \<subseteq> version_id ` set (versions (deleteVersion v db))"
    using True metadata_wfD(5) [OF wf] by (auto simp: deleteVersion_eq)
  moreover have "version_file_id ` set (versions (deleteVersion v db))
      \<subseteq> file_id ` set (files (deleteVersion v db))"
    using True metadata_wfD(4) [OF wf] by (auto simp: deleteVersion_eq)
  ultimately show ?thesis
    using wf True refs unfolding metadata_wf_def by (simp add: deleteVersion_eq distinct_map_filter)
qed

lemma orphan_iff:
  assumes wf: "metadata_wf db"
  shows "h \<in> set (listOrphanedChunks db)
    \<longleftrightarrow> h \<in> refcount_hash ` set (chunk_refcounts db) \<and> manifest_refs db h = 0"
proof -
  have "refcount r = int (manifest_refs db (refcount_hash r))" if "r \<in> set (chunk_refcounts db)" for r
    using count_of_row [OF metadata_wfD(3) [OF wf] that] metadata_wfD(6) [OF wf, of "refcount_hash r"]
    by (simp add: getRefcount_count_of)
  then show ?thesis by (auto simp: listOrphanedChunks_def)
qed

lemma metadata_wf_reap:
  assumes wf: "metadata_wf db" and h: "manifest_refs db h = 0"
  shows "metadata_wf (reapOrphanedChunk h db)"
proof -
  have "getRefcount (reapOrphanedChunk h db) g = int (manifest_refs (reapOrphanedChunk h db) g)" for g
    using metadata_wfD(6) [OF wf, of g] h
    by (simp add: reapOrphanedChunk_def getRefcount_count_of manifest_refs_def db_simps)
  then show ?thesis
    using wf unfolding metadata_wf_def by (simp add: reapOrphanedChunk_def distinct_map_filter)
qed

lemma metadata_wf_empty: "metadata_wf empty_db"
  by (simp add: metadata_wf_def empty_db_def getRefcount_def manifest_refs_def)

lemma meta_step_wf: "meta_step db db' \<Longrightarrow> metadata_wf db \<Longrightarrow> metadata_wf db'"
  by (elim meta_stepE)
    (simp_all add: metadata_wf_create metadata_wf_commit metadata_wf_delete metadata_wf_reap orphan_iff)

lemma meta_reachable_wf: "rtranclp meta_step empty_db db \<Longrightarrow> metadata_wf db"
  by (induction rule: rtranclp_induct) (auto simp: metadata_wf_empty intro: meta_step_wf)

section \<open>What the queries return after an update\<close>

lemma find_append_key: "find P (xs @ ys) = (case find P xs of None \<Rightarrow> find P ys | Some x \<Rightarrow> Some x)"
  by (induction xs) auto

lemma find_map_same:
  "(\<And>x. f (g x) = f x) \<Longrightarrow> find (\<lambda>x. f x = k) (map g xs) = map_option g (find (\<lambda>x. f x = k) xs)"
  by (induction xs) auto

lemma find_filter_neq:
  "find (\<lambda>x. f x = k) (filter (\<lambda>x. f x \<noteq> j) xs) = (if k = j then None else find (\<lambda>x. f x = k) xs)"
  by (induction xs) auto

text \<open>A query for a version depends on its row and its manifest rows only.\<close>

lemma getVersion_cong:
  assumes "find (\<lambda>r. version_id r = v) (versions db) = find (\<lambda>r. version_id r = v) (versions db')"
    and "filter (\<lambda>m. manifest_version_id m = v) (manifest_chunks db)
       = filter (\<lambda>m. manifest_version_id m = v) (manifest_chunks db')"
  shows "getVersion db v = getVersion db' v"
  by (simp only: getVersion_def assms)

lemma getVersion_commit:
  assumes wf: "metadata_wf db" and v: "newId ''ver'' random = v"
    and fresh: "v \<notin> version_id ` set (versions db)" and f: "f \<in> file_id ` set (files db)"
  shows "getVersion (snd (commitVersion random now f hs n db)) u =
    (if u = v then Some \<lparr>version_id = v, version_file_id = f, version_size = n,
                         version_created_at = now, chunkHashes = hs\<rparr>
     else getVersion db u)"
proof -
  let ?db = "snd (commitVersion random now f hs n db)"
  have parts: "versions ?db = versions db @ [\<lparr>version_id = v, version_file_id = f,
      version_size = n, version_created_at = now\<rparr>]"
    "manifest_chunks ?db = manifest_chunks db @ manifest_rows v 0 hs"
    using fresh f by (simp_all add: commitVersion_eq [OF wf] v frame_simps)
  have rows: "filter (\<lambda>m. manifest_version_id m = u) (manifest_rows v 0 hs)
      = (if u = v then manifest_rows v 0 hs else [])" for u
    using set_manifest_rows [of _ v 0 hs] by (auto simp: filter_True filter_False)
  show ?thesis
  proof (cases "u = v")
    case True
    have "v \<notin> manifest_version_id ` set (manifest_chunks db)"
      using fresh metadata_wfD(5) [OF wf] by blast
    then have none: "filter (\<lambda>m. manifest_version_id m = v) (manifest_chunks db) = []"
      by (auto simp: filter_empty_conv)
    have "find (\<lambda>r. version_id r = v) (versions db) = None"
      using fresh find_key_None [of version_id v] by blast
    moreover have "sort_key seq (manifest_rows v 0 hs) = manifest_rows v 0 hs"
      by (rule sort_key_id_if_sorted) simp
    ultimately show ?thesis
      using True by (simp add: getVersion_def parts find_append_key none rows)
  next
    case False
    then show ?thesis
      by (simp, intro getVersion_cong) (simp_all add: parts rows find_append_key split: option.split)
  qed
qed

lemma getFile_commit:
  assumes wf: "metadata_wf db" and v: "newId ''ver'' random = v"
    and "v \<notin> version_id ` set (versions db)" and "f \<in> file_id ` set (files db)"
  shows "getFile (snd (commitVersion random now f hs n db)) g =
    (if g = f then map_option (\<lambda>r. r\<lparr>current_version_id := Some v\<rparr>) (getFile db f) else getFile db g)"
proof -
  let ?set = "\<lambda>r. if file_id r = f then r\<lparr>current_version_id := Some v\<rparr> else r"
  have "files (snd (commitVersion random now f hs n db)) = map ?set (files db)"
    using assms(3,4) by (simp add: commitVersion_eq [OF wf] v set_current_def)
  then have "getFile (snd (commitVersion random now f hs n db)) g = map_option ?set (getFile db g)"
    unfolding getFile_def by (simp add: find_map_same)
  moreover have "file_id r = g" if "getFile db g = Some r" for r
    using that by (auto simp: getFile_def find_Some_iff)
  ultimately show ?thesis by (cases "g = f"; cases "getFile db g") simp_all
qed

lemma getRefcount_commit:
  assumes wf: "metadata_wf db" and v: "newId ''ver'' random = v"
    and "v \<notin> version_id ` set (versions db)" and "f \<in> file_id ` set (files db)"
  shows "getRefcount (snd (commitVersion random now f hs n db)) h
    = getRefcount db h + int (count_list hs h)"
  using assms by (simp add: commitVersion_eq getRefcount_count_of frame_simps db_simps)

lemma getVersion_delete:
  "getVersion (deleteVersion v db) u = (if u = v then None else getVersion db u)"
proof (cases "u = v")
  case True
  have "v \<notin> version_id ` set (versions (deleteVersion v db))" by (auto simp: deleteVersion_eq)
  with True show ?thesis by simp
next
  case False
  have "filter (\<lambda>m. manifest_version_id m = u)
      (filter (\<lambda>m. manifest_version_id m \<noteq> v) (manifest_chunks db))
    = filter (\<lambda>m. manifest_version_id m = u) (manifest_chunks db)"
    using False by (auto intro: filter_cong)
  then have "getVersion (deleteVersion v db) u = getVersion db u"
    using False by (intro getVersion_cong) (auto simp: deleteVersion_eq find_filter_neq)
  with False show ?thesis by simp
qed

lemma files_delete [frame_simps]: "files (deleteVersion v db) = files db"
  by (simp add: deleteVersion_eq)

lemma getFile_delete [frame_simps]: "getFile (deleteVersion v db) f = getFile db f"
  by (simp add: getFile_def frame_simps)

lemma getVersion_reap [frame_simps]: "getVersion (reapOrphanedChunk h db) v = getVersion db v"
  by (intro getVersion_cong) (simp_all add: reapOrphanedChunk_def)

lemma getFile_reap [frame_simps]: "getFile (reapOrphanedChunk h db) f = getFile db f"
  by (simp add: getFile_def reapOrphanedChunk_def)

lemma getVersion_create [frame_simps]: "getVersion (snd (createFile random now db)) v = getVersion db v"
  by (intro getVersion_cong) (simp_all add: createFile_def Let_def)

lemma getFile_create:
  assumes "newId ''file'' random = f" and "f \<notin> file_id ` set (files db)"
  shows "createFile random now db
      = (Inr f, db\<lparr>files := files db @ [\<lparr>file_id = f, file_created_at = now, current_version_id = None\<rparr>]\<rparr>)"
    and "getFile (snd (createFile random now db)) g =
      (if g = f then Some \<lparr>file_id = f, file_created_at = now, current_version_id = None\<rparr> else getFile db g)"
  using assms find_key_None [of file_id f "files db"]
  by (auto simp: createFile_def getFile_def find_append_key split: option.splits)

text \<open>The references to a chunk are those of the versions, each in its own list of hashes.\<close>

lemma manifest_refs_versions:
  assumes "metadata_wf db"
  shows "manifest_refs db h = (\<Sum>r\<leftarrow>versions db. count_list (version_chunks db (version_id r)) h)"
proof -
  have "(\<Sum>v\<leftarrow>map version_id (versions db). count_list (version_chunks db v) h)
    = count_list (map chunk_hash (manifest_chunks db)) h"
    unfolding count_version_chunks
    by (rule count_list_groups) (use metadata_wfD(2,5) [OF assms] in simp_all)
  then show ?thesis by (simp add: manifest_refs_def comp_def)
qed

lemma manifest_refs_zero:
  assumes "metadata_wf db"
  shows "manifest_refs db h = 0 \<longleftrightarrow> (\<forall>v ver. getVersion db v = Some ver \<longrightarrow> h \<notin> set (chunkHashes ver))"
proof
  assume zero: "manifest_refs db h = 0"
  show "\<forall>v ver. getVersion db v = Some ver \<longrightarrow> h \<notin> set (chunkHashes ver)"
  proof (intro allI impI notI)
    fix v ver assume ver: "getVersion db v = Some ver" "h \<in> set (chunkHashes ver)"
    then have "h \<in> chunk_hash ` set (manifest_chunks db)"
      by (auto simp: getVersion_chunks set_version_chunks)
    with zero show False by (simp add: manifest_refs_def count_list_0_iff)
  qed
next
  assume none: "\<forall>v ver. getVersion db v = Some ver \<longrightarrow> h \<notin> set (chunkHashes ver)"
  have "count_list (version_chunks db (version_id r)) h = 0" if "r \<in> set (versions db)" for r
  proof -
    from that obtain ver where "getVersion db (version_id r) = Some ver"
      using getVersion_None [of db "version_id r"] by fastforce
    with none show ?thesis by (metis count_list_0_iff getVersion_chunks)
  qed
  then show "manifest_refs db h = 0"
    by (simp add: manifest_refs_versions [OF assms])
qed

text \<open>The store provides the table of counts that the collector works against.\<close>

interpretation counts: refcount_table listOrphanedChunks reapOrphanedChunk metadata_wf manifest_refs
  "\<lambda>db. refcount_hash ` set (chunk_refcounts db)" "\<lambda>db. (files db, versions db, manifest_chunks db)"
proof
  fix db :: metadata and h assume wf: "metadata_wf db"
  show "set (listOrphanedChunks db)
      = {h \<in> refcount_hash ` set (chunk_refcounts db). manifest_refs db h = 0}"
    using orphan_iff [OF wf] by blast
  show "distinct (listOrphanedChunks db)"
    using metadata_wfD(3) [OF wf] by (simp add: listOrphanedChunks_def distinct_map_filter)
  show "metadata_wf (reapOrphanedChunk h db)" if "manifest_refs db h = 0"
    using metadata_wf_reap [OF wf that] .
qed (auto simp: reapOrphanedChunk_def manifest_refs_def)

text \<open>A small database for the examples: one file with one version of three chunks.\<close>

definition demo_db :: metadata where
  "demo_db = snd (commitVersion [2] 5 ''file_01'' [''p'', ''q'', ''p''] 30 (snd (createFile [1] 5 empty_db)))"

lemma demo_db_reachable: "rtranclp meta_step empty_db demo_db"
  unfolding demo_db_def
  by (rule rtranclp.rtrancl_into_rtrancl [OF rtranclp.rtrancl_into_rtrancl [OF rtranclp.rtrancl_refl]])
    (rule create, rule commit)

lemma demo_db_wf: "metadata_wf demo_db"
  by (rule meta_reachable_wf [OF demo_db_reachable])

lemma demo_db_eq:
  "demo_db = \<lparr>files = [\<lparr>file_id = ''file_01'', file_created_at = 5, current_version_id = Some ''ver_02''\<rparr>],
     versions = [\<lparr>version_id = ''ver_02'', version_file_id = ''file_01'', version_size = 30,
                  version_created_at = 5\<rparr>],
     manifest_chunks = [\<lparr>manifest_version_id = ''ver_02'', seq = 0, chunk_hash = ''p''\<rparr>,
        \<lparr>manifest_version_id = ''ver_02'', seq = 1, chunk_hash = ''q''\<rparr>,
        \<lparr>manifest_version_id = ''ver_02'', seq = 2, chunk_hash = ''p''\<rparr>],
     chunk_refcounts = [\<lparr>refcount_hash = ''p'', refcount = 2\<rparr>, \<lparr>refcount_hash = ''q'', refcount = 1\<rparr>]\<rparr>"
  by code_simp

section \<open>Properties\<close>



text \<open>
  What the collector may delete. The chunks listed as orphaned are exactly those with a
  row in the counts table that no version of any file contains.
\<close>

theorem listOrphanedChunks_exact:
  assumes "rtranclp meta_step empty_db db"
  shows "h \<in> set (listOrphanedChunks db) \<longleftrightarrow> h \<in> refcount_hash ` set (chunk_refcounts db)
    \<and> (\<forall>v ver. getVersion db v = Some ver \<longrightarrow> h \<notin> set (chunkHashes ver))"
  using orphan_iff [OF meta_reachable_wf [OF assms], of h]
    manifest_refs_zero [OF meta_reachable_wf [OF assms], of h] by simp

theorem listOrphanedChunks_exact_witness:
  "''p'' \<in> set (listOrphanedChunks (deleteVersion ''ver_02'' demo_db))
    \<and> ''p'' \<notin> set (listOrphanedChunks demo_db)"
proof
  let ?db = "deleteVersion ''ver_02'' demo_db"
  have reach: "rtranclp meta_step empty_db ?db"
    by (rule rtranclp.rtrancl_into_rtrancl [OF demo_db_reachable]) (rule delete)
  have "getVersion ?db v = None" for v
    by (cases "v = ''ver_02''") (simp_all add: deleteVersion_eq demo_db_eq)
  moreover have "map refcount_hash (chunk_refcounts ?db) = [''p'', ''q'']"
    by (simp add: deleteVersion_eq demo_db_eq)
  then have "''p'' \<in> refcount_hash ` set (chunk_refcounts ?db)"
    by (metis list.set_intros(1) list.set_map)
  ultimately show "''p'' \<in> set (listOrphanedChunks ?db)"
    by (simp only: listOrphanedChunks_exact [OF reach]) simp
  show "''p'' \<notin> set (listOrphanedChunks demo_db)"
    by (simp add: listOrphanedChunks_def demo_db_eq)
qed

text \<open>
  C18: a commit to an existing file under a fresh id succeeds; the new version reads back with
  exactly the hashes given, in their order and with repetitions, and is the current one of its
  file; every other version and file reads as before; each count grows by the number of
  occurrences of its chunk.
\<close>

theorem commitVersion_roundtrip:
  assumes wf: "metadata_wf db" and found: "getFile db f = Some r"
    and v: "newId ''ver'' random = v" and fresh: "getVersion db v = None"
  shows "\<exists>db'. commitVersion random now f hs n db = (Inr v, db') \<and> metadata_wf db'
    \<and> getVersion db' v = Some \<lparr>version_id = v, version_file_id = f, version_size = n,
                               version_created_at = now, chunkHashes = hs\<rparr>
    \<and> getFile db' f = Some (r\<lparr>current_version_id := Some v\<rparr>)
    \<and> (\<forall>u. u \<noteq> v \<longrightarrow> getVersion db' u = getVersion db u)
    \<and> (\<forall>g. g \<noteq> f \<longrightarrow> getFile db' g = getFile db g)
    \<and> (\<forall>h. getRefcount db' h = getRefcount db h + int (count_list hs h))"
proof -
  have f: "f \<in> file_id ` set (files db)" using found by (auto simp: getFile_def find_Some_iff)
  have new: "v \<notin> version_id ` set (versions db)" using fresh by simp
  let ?c = "commitVersion random now f hs n db"
  have "fst ?c = Inr v" using f new v by (simp add: commitVersion_eq [OF wf])
  then have "?c = (Inr v, snd ?c)" by (metis prod.collapse)
  moreover have "metadata_wf (snd ?c)" by (rule metadata_wf_commit [OF wf])
  ultimately show ?thesis
    using getVersion_commit [OF wf v new f] getFile_commit [OF wf v new f]
      getRefcount_commit [OF wf v new f] found
    by (intro exI [of _ "snd ?c"]) simp
qed

theorem commitVersion_roundtrip_witness:
  "\<exists>db'. commitVersion [3] 9 ''file_01'' [''p''] 4 demo_db = (Inr ''ver_03'', db')
    \<and> getRefcount db' ''p'' = getRefcount demo_db ''p'' + 1"
proof -
  have found: "getFile demo_db ''file_01'' = Some \<lparr>file_id = ''file_01'', file_created_at = 5,
      current_version_id = Some ''ver_02''\<rparr>"
    by (simp add: demo_db_eq getFile_def)
  have v: "newId ''ver'' [3] = ''ver_03''" by code_simp
  have fresh: "getVersion demo_db ''ver_03'' = None" by (simp add: demo_db_eq)
  from commitVersion_roundtrip [OF demo_db_wf found v fresh, of 9 "[''p'']" 4] show ?thesis by auto
qed

text \<open>
  A commit is refused, and the database is as before, exactly if the file does not exist
  or the random id is taken; in particular a commit never stops half-way.
\<close>

theorem commitVersion_rejects:
  assumes "metadata_wf db"
  shows "(commitVersion random now f hs n db = (Inl SqlConstraintError, db)
      \<longleftrightarrow> getFile db f = None \<or> getVersion db (newId ''ver'' random) \<noteq> None)
    \<and> (\<forall>e db'. commitVersion random now f hs n db = (Inl e, db')
         \<longrightarrow> e = SqlConstraintError \<and> db' = db)"
  using find_key_None [of file_id f "files db"]
  by (auto simp: commitVersion_eq [OF assms] getFile_def split: if_splits)

theorem commitVersion_rejects_witness:
  "commitVersion [2] 9 ''file_01'' [''p''] 4 demo_db = (Inl SqlConstraintError, demo_db)
    \<and> commitVersion [3] 9 ''file_99'' [''p''] 4 demo_db = (Inl SqlConstraintError, demo_db)"
proof -
  have "newId ''ver'' [2] = ''ver_02''" by code_simp
  then have "getVersion demo_db (newId ''ver'' [2]) \<noteq> None" by (simp add: demo_db_eq)
  moreover have "getFile demo_db ''file_99'' = None" by (simp add: demo_db_eq getFile_def)
  ultimately show ?thesis
    using commitVersion_rejects [OF demo_db_wf, of "[2]" 9 "''file_01''" "[''p'']" 4]
      commitVersion_rejects [OF demo_db_wf, of "[3]" 9 "''file_99''" "[''p'']" 4] by blast
qed

text \<open>
  Deleting a version removes it and its manifest rows, lowers each count by the number of
  occurrences of its chunk in that version, and touches no other version and no file; a
  version that does not exist is ignored, so a second delete does nothing.
\<close>

theorem deleteVersion_exact:
  assumes wf: "metadata_wf db"
  shows "metadata_wf (deleteVersion v db)
    \<and> getVersion (deleteVersion v db) u = (if u = v then None else getVersion db u)
    \<and> files (deleteVersion v db) = files db
    \<and> getRefcount (deleteVersion v db) h = getRefcount db h
        - (case getVersion db v of None \<Rightarrow> 0 | Some ver \<Rightarrow> int (count_list (chunkHashes ver) h))
    \<and> deleteVersion v (deleteVersion v db) = deleteVersion v db"
proof -
  have gone: "v \<notin> version_id ` set (versions (deleteVersion v db))" by (auto simp: deleteVersion_eq)
  have "getRefcount (deleteVersion v db) h = getRefcount db h
      - (case getVersion db v of None \<Rightarrow> 0 | Some ver \<Rightarrow> int (count_list (chunkHashes ver) h))"
  proof (cases "getVersion db v")
    case None
    then have "deleteVersion v db = db" by (simp add: deleteVersion_eq)
    then show ?thesis by (simp only: None option.case)
  next
    case (Some ver)
    then have "v \<in> version_id ` set (versions db)" using getVersion_None [of db v] by auto
    from getRefcount_delete(1) [OF wf this] Some show ?thesis by (simp add: getVersion_chunks)
  qed
  moreover have "deleteVersion v (deleteVersion v db) = deleteVersion v db"
    by (subst deleteVersion_eq) (simp only: gone if_False)
  ultimately show ?thesis
    by (simp add: metadata_wf_delete [OF wf] getVersion_delete frame_simps)
qed

theorem deleteVersion_exact_witness:
  "getRefcount (deleteVersion ''ver_02'' demo_db) ''p'' = getRefcount demo_db ''p'' - 2"
proof -
  have "getVersion demo_db ''ver_02'' = Some \<lparr>version_id = ''ver_02'', version_file_id = ''file_01'',
      version_size = 30, version_created_at = 5, chunkHashes = [''p'', ''q'', ''p'']\<rparr>"
    by (simp add: demo_db_eq getVersion_def)
  with deleteVersion_exact [OF demo_db_wf, of "''ver_02''" "''ver_02''" "''p''"]
  show ?thesis by simp
qed

end
