(* ===== verification/Gc.thy ===== *)
theory Gc
  imports GcInterface Quorum MetadataStore
begin

text \<open>
  \<^verbatim>\<open>src/gc.js\<close>: one sweep of the garbage collector. The code takes the metadata store and the
  coordinator as objects, the definitions take the three methods it calls.
\<close>

section \<open>The code\<close>

record gc_report =
  scanned :: nat
  reclaimedChunks :: nat
  reclaimedBytes :: nat

fun gc_loop ::
  "(string \<Rightarrow> 'w \<Rightarrow> (js_error + nat) \<times> 'w) \<Rightarrow> (string \<Rightarrow> 'db \<Rightarrow> 'db) \<Rightarrow> nat option
     \<Rightarrow> string list \<Rightarrow> nat \<Rightarrow> nat \<Rightarrow> 'db \<Rightarrow> 'w \<Rightarrow> (js_error + nat \<times> nat) \<times> 'db \<times> 'w" where
  "gc_loop del reap hint [] chunks freed db w = (Inr (chunks, freed), db, w)"
| "gc_loop del reap hint (h # hs) chunks freed db w =
     (case del h w of
        (Inl e, w1) \<Rightarrow> (Inl e, db, w1)
      | (Inr deletedFromReplicas, w1) \<Rightarrow>
          if 0 < deletedFromReplicas then
            gc_loop del reap hint hs (chunks + 1)
              (case hint of None \<Rightarrow> freed | Some s \<Rightarrow> freed + s) (reap h db) w1
          else gc_loop del reap hint hs chunks freed (reap h db) w1)"

definition runGarbageCollection ::
  "('db \<Rightarrow> string list) \<Rightarrow> (string \<Rightarrow> 'db \<Rightarrow> 'db)
     \<Rightarrow> (string \<Rightarrow> 'n world \<Rightarrow> (js_error + nat) \<times> 'n world) \<Rightarrow> nat option
     \<Rightarrow> 'db \<Rightarrow> 'n world \<Rightarrow> (js_error + gc_report) \<times> 'db \<times> 'n world" where
  "runGarbageCollection orphans reap del hint db w =
     (let orphaned = orphans db
      in case gc_loop del reap hint orphaned 0 0 db w of
           (Inl e, db', w') \<Rightarrow> (Inl e, db', w')
         | (Inr (chunks, freed), db', w') \<Rightarrow>
             (Inr \<lparr>scanned = length orphaned, reclaimedChunks = chunks, reclaimedBytes = freed\<rparr>,
              db', if 0 < chunks then bump (inc_gcReclaimed chunks freed) w' else w'))"

text \<open>
  A sweep over the model's own store and cluster; the circumstances of each delete are a
  function of the chunk, which is swept at most once.
\<close>

definition gc_sweep ::
  "sha256 \<Rightarrow> sha1 \<Rightarrow> (string \<Rightarrow> call_env) \<Rightarrow> coordinator \<Rightarrow> nat option \<Rightarrow> metadata
     \<Rightarrow> storage_node world \<Rightarrow> (js_error + gc_report) \<times> metadata \<times> storage_node world" where
  "gc_sweep sha sha1 envs co hint =
     runGarbageCollection listOrphanedChunks reapOrphanedChunk
       (\<lambda>h. deleteChunk (node_serve sha) sha1 (envs h) co h) hint"

text \<open>What every delete keeps, a sweep keeps.\<close>

lemma gc_loop_preserves:
  assumes "\<forall>h \<in> set hs. \<forall>w r w'. I w \<longrightarrow> del h w = (r, w') \<longrightarrow> I w'"
    and "I w" and "gc_loop del reap hint hs k b db w = (q, db', w')"
  shows "I w'"
  using assms
proof (induction hs arbitrary: k b db w)
  case (Cons h hs)
  obtain r w1 where d: "del h w = (r, w1)" by fastforce
  have w1: "I w1" using Cons.prems(1,2) d by (meson list.set_intros(1))
  show ?case
  proof (cases r)
    case (Inl e)
    with Cons.prems(3) d w1 show ?thesis by simp
  next
    case (Inr n)
    then obtain k' b' where "gc_loop del reap hint hs k' b' (reap h db) w1 = (q, db', w')"
      using Cons.prems(3) d by (auto split: if_splits)
    have "\<forall>h \<in> set hs. \<forall>w r w'. I w \<longrightarrow> del h w = (r, w') \<longrightarrow> I w'"
      using Cons.prems(1) by (meson list.set_intros(2))
    from Cons.IH [OF this w1] \<open>gc_loop del reap hint hs k' b' (reap h db) w1 = _\<close> show ?thesis by blast
  qed
qed simp

section \<open>The collector as a client of the two interfaces\<close>

locale sweep =
  refcount_table orphans reap db_ok refs known view +
  chunk_deleter del w_ok copies reached answers placed
  for orphans :: "'db \<Rightarrow> string list" and reap db_ok refs known and view :: "'db \<Rightarrow> 'v"
    and del :: "string \<Rightarrow> 'w \<Rightarrow> (js_error + nat) \<times> 'w" and w_ok
    and copies :: "'w \<Rightarrow> 'node \<Rightarrow> string \<Rightarrow> bytes option" and reached answers placed
begin

lemma gc_loop_frame:
  assumes "db_ok db" and "w_ok w" and "\<forall>h \<in> set hs. refs db h = 0 \<and> valid_hash h"
    and "gc_loop del reap hint hs k b db w = (r, db', w')"
  shows "db_ok db' \<and> w_ok w' \<and> view db' = view db \<and> refs db' = refs db
    \<and> (\<forall>g x. g \<notin> set hs \<longrightarrow> copies w' x g = copies w x g)
    \<and> (\<forall>g x. copies w' x g = None \<or> copies w' x g = copies w x g)
    \<and> (\<forall>h \<in> set hs. reached h = {} \<longrightarrow> (\<forall>x. copies w' x h = copies w x h))"
  using assms
proof (induction hs arbitrary: k b db w)
  case (Cons h hs)
  have h: "valid_hash h" "refs db h = 0" using Cons.prems(3) by simp_all
  obtain q w1 where d: "del h w = (q, w1)" by fastforce
  note here = del_ok [OF Cons.prems(2) h(1) d] del_others [OF Cons.prems(2) h(1) d]
    del_shrinks [OF Cons.prems(2) h(1) d] del_unreached [OF Cons.prems(2) h(1) d]
  show ?case
  proof (cases q)
    case (Inl e)
    with Cons.prems d have "db' = db" "w' = w1" by simp_all
    with here Cons.prems(1) show ?thesis by (auto, metis+)
  next
    case (Inr n)
    then obtain k' b' where rest: "gc_loop del reap hint hs k' b' (reap h db) w1 = (r, db', w')"
      using Cons.prems(4) d by (auto split: if_splits)
    have "\<forall>g \<in> set hs. refs (reap h db) g = 0 \<and> valid_hash g"
      using Cons.prems(3) by (simp add: reap_refs)
    from Cons.IH [OF reap_ok [OF Cons.prems(1) h(2)] here(1) this rest]
    have IH: "db_ok db'" "w_ok w'" "view db' = view db" "refs db' = refs db"
      "\<And>g x. g \<notin> set hs \<Longrightarrow> copies w' x g = copies w1 x g"
      "\<And>g x. copies w' x g = None \<or> copies w' x g = copies w1 x g"
      "\<And>g x. g \<in> set hs \<Longrightarrow> reached g = {} \<Longrightarrow> copies w' x g = copies w1 x g"
      by (simp_all add: reap_view reap_refs)
    have shrink: "copies w' x g = None \<or> copies w' x g = copies w x g" for g x
      using IH(6) [where g = g and x = x] here(2) [of g x] here(3) [of x] by (cases "g = h") auto
    have keep: "copies w' x g = copies w x g" if "g \<in> set (h # hs)" "reached g = {}" for g x
      using that IH(5) [where g = g and x = x] IH(7) [where g = g and x = x] here(2) [of g x] here(4) [of x]
      by (cases "g = h"; cases "g \<in> set hs") auto
    show ?thesis
      using IH(1-5) shrink keep here(2) by simp
  qed
qed (simp add: assms)

lemma gc_loop_complete:
  assumes "db_ok db" and "w_ok w" and "\<forall>h \<in> set hs. refs db h = 0 \<and> valid_hash h \<and> placed h"
  shows "\<exists>db' w'. gc_loop del reap hint hs k b db w =
      (Inr (k + length (filter (answers w) hs),
            b + length (filter (answers w) hs) * (case hint of None \<Rightarrow> 0 | Some s \<Rightarrow> s)), db', w')
    \<and> known db' = known db - set hs
    \<and> (\<forall>h \<in> set hs. \<forall>x \<in> reached h. copies w' x h = None)"
  using assms
proof (induction hs arbitrary: k b db w)
  case (Cons h hs)
  have h: "valid_hash h" "refs db h = 0" "placed h" using Cons.prems(3) by simp_all
  obtain n w1 where d: "del h w = (Inr n, w1)" "0 < n \<longleftrightarrow> answers w h"
    by (rule del_returns [OF Cons.prems(2) h(1,3)])
  note w1 = del_ok [OF Cons.prems(2) h(1) d(1)] del_answers [OF Cons.prems(2) h(1) d(1)]
  have hs: "\<forall>g \<in> set hs. refs (reap h db) g = 0 \<and> valid_hash g \<and> placed g"
    using Cons.prems(3) by (simp add: reap_refs)
  let ?k = "if 0 < n then k + 1 else k"
  let ?b = "if 0 < n then case hint of None \<Rightarrow> b | Some s \<Rightarrow> b + s else b"
  have eq: "gc_loop del reap hint (h # hs) k b db w = gc_loop del reap hint hs ?k ?b (reap h db) w1"
    by (simp add: d)
  from Cons.IH [OF reap_ok [OF Cons.prems(1) h(2)] w1(1) hs, of ?k ?b]
  obtain db' w' where rest: "gc_loop del reap hint hs ?k ?b (reap h db) w1 =
      (Inr (?k + length (filter (answers w1) hs),
            ?b + length (filter (answers w1) hs) * (case hint of None \<Rightarrow> 0 | Some s \<Rightarrow> s)), db', w')"
    "known db' = known (reap h db) - set hs" "\<forall>h \<in> set hs. \<forall>x \<in> reached h. copies w' x h = None"
    by blast
  have "\<forall>g \<in> set hs. refs (reap h db) g = 0 \<and> valid_hash g" using hs by blast
  from gc_loop_frame [OF reap_ok [OF Cons.prems(1) h(2)] w1(1) this rest(1)]
  have "\<forall>x. copies w' x h = None \<or> copies w' x h = copies w1 x h" by blast
  then have "\<forall>x \<in> reached h. copies w' x h = None"
    using del_reached [OF Cons.prems(2) h(1) d(1)] by fastforce
  moreover have "known db' = known db - set (h # hs)"
    using rest(2) by (auto simp: reap_known)
  ultimately show ?case
    unfolding eq rest(1) using rest(3) d(2) w1(2)
    by (intro exI [of _ db'] exI [of _ w']) (auto split: option.split)
qed simp

end

section \<open>The sweep over the store and the cluster\<close>

interpretation sweeper: sweep listOrphanedChunks reapOrphanedChunk metadata_wf manifest_refs
  "\<lambda>db. refcount_hash ` set (chunk_refcounts db)" "\<lambda>db. (files db, versions db, manifest_chunks db)"
  "\<lambda>h. deleteChunk (node_serve sha) sha1 (envs h) co h" cluster_ok "replica co"
  "delete_reached sha1 envs co" "delete_answers sha1 envs co"
  "\<lambda>h. preferenceList sha1 (co_ring co) h (repl_n co) \<noteq> None"
  for sha sha1 envs co ..

text \<open>Every orphan has a name the nodes accept; the server only ever commits digests.\<close>

definition orphans_valid :: "metadata \<Rightarrow> bool" where
  "orphans_valid db \<longleftrightarrow> list_all valid_hash (listOrphanedChunks db)"

lemma orphans_ready:
  assumes "metadata_wf db" and "orphans_valid db"
  shows "\<forall>h \<in> set (listOrphanedChunks db). manifest_refs db h = 0 \<and> valid_hash h"
  using assms counts.set_orphans [OF assms(1)] by (auto simp: orphans_valid_def list_all_iff)

lemma gc_sweep_loop:
  assumes "gc_sweep sha sha1 envs co hint db w = (r, db', w')"
  obtains q w1 where "gc_loop (\<lambda>h. deleteChunk (node_serve sha) sha1 (envs h) co h) reapOrphanedChunk
      hint (listOrphanedChunks db) 0 0 db w = (q, db', w1)" "servers w' = servers w1"
    "case q of Inl e \<Rightarrow> r = Inl e
     | Inr (k, b) \<Rightarrow> r = Inr \<lparr>scanned = length (listOrphanedChunks db), reclaimedChunks = k,
                               reclaimedBytes = b\<rparr>"
proof -
  obtain q db1 w1 where loop: "gc_loop (\<lambda>h. deleteChunk (node_serve sha) sha1 (envs h) co h)
      reapOrphanedChunk hint (listOrphanedChunks db) 0 0 db w = (q, db1, w1)"
    by (cases rule: prod_cases3)
  note run = assms [unfolded gc_sweep_def runGarbageCollection_def Let_def loop]
  show thesis
  proof (cases q)
    case (Inl e)
    with run have "db1 = db'" "servers w' = servers w1" "r = Inl e" by simp_all
    with loop Inl that show thesis by simp
  next
    case (Inr kb)
    obtain k b where kb: "kb = (k, b)" by fastforce
    from run have "db1 = db'" "servers w' = servers w1" "r = Inr \<lparr>scanned = length (listOrphanedChunks db),
        reclaimedChunks = k, reclaimedBytes = b\<rparr>"
      unfolding Inr kb by (auto split: if_splits)
    with loop Inr kb that show thesis by simp
  qed
qed

lemma same_servers:
  assumes "servers w' = servers w"
  shows "held copy urls w' = held copy urls w" and "world_ok ok w' \<longleftrightarrow> world_ok ok w"
  using assms by (simp_all only: held_eq [abs_def] world_ok_def)

lemma gc_sweep_frame:
  assumes wf: "metadata_wf db" and ok: "cluster_ok w" and names: "orphans_valid db"
    and run: "gc_sweep sha sha1 envs co hint db w = (r, db', w')"
  shows "metadata_wf db' \<and> cluster_ok w' \<and> files db' = files db \<and> versions db' = versions db
    \<and> manifest_chunks db' = manifest_chunks db
    \<and> (\<forall>g x. g \<notin> set (listOrphanedChunks db) \<longrightarrow> replica co w' x g = replica co w x g)
    \<and> (\<forall>g \<in> set (listOrphanedChunks db). delete_reached sha1 envs co g = {}
         \<longrightarrow> (\<forall>x. replica co w' x g = replica co w x g))"
proof -
  obtain q w1 where loop: "gc_loop (\<lambda>h. deleteChunk (node_serve sha) sha1 (envs h) co h)
      reapOrphanedChunk hint (listOrphanedChunks db) 0 0 db w = (q, db', w1)"
    and same: "servers w' = servers w1"
    by (rule gc_sweep_loop [OF run])
  from sweeper.gc_loop_frame [OF wf ok orphans_ready [OF wf names] loop]
  show ?thesis by (simp add: same_servers [OF same])
qed

lemma gc_loop_sound:
  assumes hs: "\<forall>h \<in> set hs. valid_hash h" and w: "cluster_ok w" "cluster_sound sha w"
    and loop: "gc_loop (\<lambda>h. deleteChunk (node_serve sha) sha1 (envs h) co h) reapOrphanedChunk
      hint hs k b db w = (q, db', w')"
  shows "cluster_ok w' \<and> cluster_sound sha w'"
proof -
  let ?I = "\<lambda>w. cluster_ok w \<and> cluster_sound sha w"
  have step: "\<forall>h \<in> set hs. \<forall>w r w'. ?I w
      \<longrightarrow> deleteChunk (node_serve sha) sha1 (envs h) co h w = (r, w') \<longrightarrow> ?I w'"
  proof (intro ballI allI impI)
    fix h w r w' assume h: "h \<in> set hs" and w: "?I w"
      and d: "deleteChunk (node_serve sha) sha1 (envs h) co h w = (r, w')"
    have "valid_hash h" using hs h by blast
    from deleteChunk_result [OF conjunct1 [OF w] this d] w delete_rel_sound [of sha w h w']
    show "?I w'" by blast
  qed
  show ?thesis by (rule gc_loop_preserves [OF step _ loop]) (use w in simp)
qed

lemma gc_sweep_sound:
  assumes wf: "metadata_wf db" and ok: "cluster_ok w" and names: "orphans_valid db"
    and sound: "cluster_sound sha w"
    and run: "gc_sweep sha sha1 envs co hint db w = (r, db', w')"
  shows "cluster_sound sha w'"
proof -
  obtain q w1 where loop: "gc_loop (\<lambda>h. deleteChunk (node_serve sha) sha1 (envs h) co h)
      reapOrphanedChunk hint (listOrphanedChunks db) 0 0 db w = (q, db', w1)"
    and same: "servers w' = servers w1"
    by (rule gc_sweep_loop [OF run])
  have "\<forall>h \<in> set (listOrphanedChunks db). valid_hash h" using orphans_ready [OF wf names] by blast
  from gc_loop_sound [OF this ok sound loop] show ?thesis by (simp add: cluster_sound_def same)
qed

lemma gc_sweep_complete:
  assumes wf: "metadata_wf db" and ok: "cluster_ok w" and names: "orphans_valid db"
    and ring: "ring_wf (co_ring co)" "ring_fits (co_ring co)" and n: "repl_n co = js_nat n"
    and run: "gc_sweep sha sha1 envs co hint db w = (r, db', w')"
  shows "r = Inr \<lparr>scanned = length (listOrphanedChunks db),
      reclaimedChunks = length (filter (delete_answers sha1 envs co w) (listOrphanedChunks db)),
      reclaimedBytes = length (filter (delete_answers sha1 envs co w) (listOrphanedChunks db))
        * (case hint of None \<Rightarrow> 0 | Some s \<Rightarrow> s)\<rparr>
    \<and> refcount_hash ` set (chunk_refcounts db')
      = refcount_hash ` set (chunk_refcounts db) - set (listOrphanedChunks db)
    \<and> (\<forall>h \<in> set (listOrphanedChunks db). \<forall>x \<in> delete_reached sha1 envs co h. replica co w' x h = None)"
proof -
  obtain q w1 where loop: "gc_loop (\<lambda>h. deleteChunk (node_serve sha) sha1 (envs h) co h)
      reapOrphanedChunk hint (listOrphanedChunks db) 0 0 db w = (q, db', w1)"
    and same: "servers w' = servers w1"
    and r: "case q of Inl e \<Rightarrow> r = Inl e
     | Inr (k, b) \<Rightarrow> r = Inr \<lparr>scanned = length (listOrphanedChunks db), reclaimedChunks = k,
                               reclaimedBytes = b\<rparr>"
    by (rule gc_sweep_loop [OF run])
  have "\<forall>h \<in> set (listOrphanedChunks db). manifest_refs db h = 0 \<and> valid_hash h
      \<and> preferenceList sha1 (co_ring co) h (repl_n co) \<noteq> None"
    using orphans_ready [OF wf names] by (simp add: n preferenceList_Some ring)
  from sweeper.gc_loop_complete [OF wf ok this, where sha = sha and hint = hint and k = 0 and b = 0
      and envs = envs] loop
  have fin: "q = Inr (length (filter (delete_answers sha1 envs co w) (listOrphanedChunks db)),
      length (filter (delete_answers sha1 envs co w) (listOrphanedChunks db))
        * (case hint of None \<Rightarrow> 0 | Some s \<Rightarrow> s))"
    "refcount_hash ` set (chunk_refcounts db')
      = refcount_hash ` set (chunk_refcounts db) - set (listOrphanedChunks db)"
    "\<forall>h \<in> set (listOrphanedChunks db). \<forall>x \<in> delete_reached sha1 envs co h. replica co w1 x h = None"
    by simp_all
  then show ?thesis using r by (simp add: same_servers [OF same])
qed

lemma gc_sweep_clears:
  assumes "metadata_wf db" and "cluster_ok w" and "orphans_valid db"
    and "ring_wf (co_ring co)" and "ring_fits (co_ring co)" and "repl_n co = js_nat n"
    and run: "gc_sweep sha sha1 envs co hint db w = (r, db', w')"
  shows "listOrphanedChunks db' = []"
proof -
  note frame = gc_sweep_frame [OF assms(1-3) run] and fin = gc_sweep_complete [OF assms]
  have "manifest_refs db' = manifest_refs db"
    using frame by (simp add: manifest_refs_def fun_eq_iff)
  then have "set (listOrphanedChunks db') = {}"
    using frame fin counts.set_orphans [of db'] counts.set_orphans [OF assms(1)] by auto
  then show ?thesis by simp
qed

text \<open>A database for the examples, with a chunk in use and an orphan.\<close>

definition demo_gc_db :: "string \<Rightarrow> string \<Rightarrow> metadata" where
  "demo_gc_db used orphan =
     \<lparr>files = [\<lparr>file_id = ''file_1'', file_created_at = 1, current_version_id = Some ''ver_1''\<rparr>],
      versions = [\<lparr>version_id = ''ver_1'', version_file_id = ''file_1'', version_size = 1,
                   version_created_at = 1\<rparr>],
      manifest_chunks = [\<lparr>manifest_version_id = ''ver_1'', seq = 0, chunk_hash = used\<rparr>],
      chunk_refcounts = [\<lparr>refcount_hash = used, refcount = 1\<rparr>,
                         \<lparr>refcount_hash = orphan, refcount = 0\<rparr>]\<rparr>"

definition demo_sha :: sha256 where
  "demo_sha bs = of_nat (length bs)"

lemma demo_gc_db_wf:
  assumes "used \<noteq> orphan"
  shows "metadata_wf (demo_gc_db used orphan)"
  using assms by (simp add: metadata_wf_def demo_gc_db_def getRefcount_def manifest_refs_def)

lemma demo_gc_db_orphans: "listOrphanedChunks (demo_gc_db used orphan) = [orphan]"
  by (simp add: listOrphanedChunks_def demo_gc_db_def)

lemma demo_gc_db_valid: "orphans_valid (demo_gc_db used (sha256_hex sha b))"
  by (simp add: orphans_valid_def demo_gc_db_orphans)

lemma demo_gc_hashes: "sha256_hex demo_sha [9] \<noteq> sha256_hex demo_sha [9, 9]"
  by (simp add: demo_sha_def)

lemma demo_config: "ring_wf (co_ring demo)" "ring_fits (co_ring demo)" "repl_n demo = js_nat 3"
  by (simp_all add: demo_def demo_ring_wf demo_ring_fits)

section \<open>Properties\<close>

text \<open>
  C13: a sweep never touches a chunk that some version of some file contains: on every node
  every copy of it is as before, whatever the network does and whatever the sweep reports.
  All files and versions read as before, and the counts stay exact.
\<close>

theorem gc_safe:
  assumes "metadata_wf db" and "cluster_ok w" and "orphans_valid db"
    and "gc_sweep sha sha1 envs co hint db w = (r, db', w')"
  shows "(\<forall>v ver h x. getVersion db v = Some ver \<longrightarrow> h \<in> set (chunkHashes ver)
      \<longrightarrow> replica co w' x h = replica co w x h)
    \<and> (\<forall>v. getVersion db' v = getVersion db v) \<and> (\<forall>f. getFile db' f = getFile db f)
    \<and> metadata_wf db' \<and> cluster_ok w'"
proof -
  note frame = gc_sweep_frame [OF assms]
  have "h \<notin> set (listOrphanedChunks db)"
    if ver: "getVersion db v = Some ver" "h \<in> set (chunkHashes ver)" for v ver h
    unfolding orphan_iff [OF assms(1)] manifest_refs_zero [OF assms(1)] using ver by auto
  moreover have "getVersion db' v = getVersion db v" for v
    using frame by (intro getVersion_cong) simp_all
  ultimately show ?thesis using frame by (simp add: getFile_def)
qed

theorem gc_safe_witness:
  "\<exists>w r db' w'. gc_sweep demo_sha (\<lambda>_. 0) (\<lambda>_. demo_env {''b''}) demo None
      (demo_gc_db (sha256_hex demo_sha [9]) (sha256_hex demo_sha [9, 9])) w = (r, db', w')
    \<and> replica demo w' ''a'' (sha256_hex demo_sha [9]) = Some [9]"
proof -
  let ?h = "sha256_hex demo_sha [9]"
  let ?db = "demo_gc_db ?h (sha256_hex demo_sha [9, 9])"
  obtain w where w: "cluster_ok w" "replica demo w ''a'' ?h = Some [9]"
    using demo_copy by blast
  obtain r db' w' where run: "gc_sweep demo_sha (\<lambda>_. 0) (\<lambda>_. demo_env {''b''}) demo None ?db w = (r, db', w')"
    by (cases rule: prod_cases3)
  have ver: "getVersion ?db ''ver_1'' = Some \<lparr>version_id = ''ver_1'', version_file_id = ''file_1'',
      version_size = 1, version_created_at = 1, chunkHashes = [?h]\<rparr>"
    by (simp add: getVersion_def demo_gc_db_def)
  note safe = gc_safe [OF demo_gc_db_wf [OF demo_gc_hashes] w(1) demo_gc_db_valid run]
  have "replica demo w' ''a'' ?h = replica demo w ''a'' ?h"
    by (rule safe [THEN conjunct1, rule_format, OF ver]) simp
  then have "replica demo w' ''a'' ?h = Some [9]" by (simp only: w(2))
  with run show ?thesis by (intro exI conjI)
qed

text \<open>
  C27: a sweep does its work. On a well-formed ring it returns; afterwards nothing is listed as
  orphaned, every node a delete reached has lost the chunk, and the report counts one chunk
  (and one size hint) for each orphan for which at least one node answered.
\<close>

theorem gc_complete:
  assumes "metadata_wf db" and "cluster_ok w" and "orphans_valid db"
    and "ring_wf (co_ring co)" and "ring_fits (co_ring co)" and "repl_n co = js_nat n"
  shows "\<exists>db' w'. gc_sweep sha sha1 envs co hint db w =
      (Inr \<lparr>scanned = length (listOrphanedChunks db),
         reclaimedChunks = length (filter (delete_answers sha1 envs co w) (listOrphanedChunks db)),
         reclaimedBytes = length (filter (delete_answers sha1 envs co w) (listOrphanedChunks db))
           * (case hint of None \<Rightarrow> 0 | Some s \<Rightarrow> s)\<rparr>, db', w')
    \<and> listOrphanedChunks db' = []
    \<and> (\<forall>h \<in> set (listOrphanedChunks db). \<forall>x \<in> set (take n (node_order sha1 (co_ring co) h)).
         fate_of (envs h) x \<noteq> Drop \<longrightarrow> replica co w' x h = None)"
proof -
  obtain r db' w' where run: "gc_sweep sha sha1 envs co hint db w = (r, db', w')"
    by (metis prod_cases3)
  note frame = gc_sweep_frame [OF assms(1-3) run] and fin = gc_sweep_complete [OF assms run]
  have "listOrphanedChunks db' = []" by (rule gc_sweep_clears [OF assms run])
  then show ?thesis
    using run fin by (simp add: delete_reached_def preferenceList_Some assms(4-6))
qed

theorem gc_complete_witness:
  "\<exists>rep db' w'. gc_sweep demo_sha (\<lambda>_. 0) (\<lambda>_. demo_env {''b''}) demo (Some 4)
      (demo_gc_db (sha256_hex demo_sha [9]) (sha256_hex demo_sha [9, 9])) demo_world = (Inr rep, db', w')
    \<and> scanned rep = 1 \<and> listOrphanedChunks db' = []"
proof -
  let ?db = "demo_gc_db (sha256_hex demo_sha [9]) (sha256_hex demo_sha [9, 9])"
  obtain rep db' w' where run: "gc_sweep demo_sha (\<lambda>_. 0) (\<lambda>_. demo_env {''b''}) demo (Some 4) ?db
      demo_world = (Inr rep, db', w')" "scanned rep = length (listOrphanedChunks ?db)"
    "listOrphanedChunks db' = []"
    using gc_complete [OF demo_gc_db_wf [OF demo_gc_hashes] demo_world_ok demo_gc_db_valid demo_config,
        of demo_sha "\<lambda>_. 0" "\<lambda>_. demo_env {''b''}" "Some 4"]
    by (elim exE conjE) simp
  then show ?thesis by (intro exI conjI) (simp_all add: demo_gc_db_orphans)
qed

text \<open>
  A sweep forgets what it could not delete. If no node can be reached for an orphan, the
  chunk stays on every node as it was, but its row is reaped all the same, so that no later
  sweep lists it: the space is lost for good.
\<close>

theorem gc_leaks_unreachable:
  assumes "metadata_wf db" and "cluster_ok w" and "orphans_valid db"
    and "ring_wf (co_ring co)" and "ring_fits (co_ring co)" and "repl_n co = js_nat n"
    and "h \<in> set (listOrphanedChunks db)" and "\<forall>x. fate_of (envs h) x = Drop"
    and "gc_sweep sha sha1 envs co hint db w = (r, db', w')"
  shows "(\<forall>x. replica co w' x h = replica co w x h)
    \<and> h \<notin> refcount_hash ` set (chunk_refcounts db')
    \<and> (\<forall>envs2 hint2 r2 db2 w2. gc_sweep sha sha1 envs2 co hint2 db' w' = (r2, db2, w2)
         \<longrightarrow> (\<forall>x. replica co w2 x h = replica co w x h))"
proof -
  note frame = gc_sweep_frame [OF assms(1-3,9)] and fin = gc_sweep_complete [OF assms(1-6,9)]
  have none: "delete_reached sha1 envs co h = {}"
    using assms(8) by (simp add: delete_reached_def split: option.split)
  have kept: "\<forall>x. replica co w' x h = replica co w x h" using frame none assms(7) by blast
  have gone: "h \<notin> refcount_hash ` set (chunk_refcounts db')" using fin assms(7) by blast
  have "listOrphanedChunks db' = []" by (rule gc_sweep_clears [OF assms(1-6,9)])
  then have valid: "orphans_valid db'" and h: "h \<notin> set (listOrphanedChunks db')"
    by (simp_all add: orphans_valid_def)
  have "replica co w2 x h = replica co w x h"
    if "gc_sweep sha sha1 envs2 co hint2 db' w' = (r2, db2, w2)" for envs2 hint2 r2 db2 w2 x
    using gc_sweep_frame [OF _ _ valid that] frame h kept by auto
  with kept gone show ?thesis by blast
qed

theorem gc_leaks_unreachable_witness:
  "\<exists>w r db' w'. gc_sweep demo_sha (\<lambda>_. 0) (\<lambda>_. (demo_env {})\<lparr>fate_of := \<lambda>_. Drop\<rparr>)
      demo None (demo_gc_db (sha256_hex demo_sha [9]) (sha256_hex demo_sha [9, 9])) w = (r, db', w')
    \<and> replica demo w' ''a'' (sha256_hex demo_sha [9, 9]) = Some [9, 9]
    \<and> sha256_hex demo_sha [9, 9] \<notin> refcount_hash ` set (chunk_refcounts db')"
proof -
  let ?h = "sha256_hex demo_sha [9, 9]"
  let ?db = "demo_gc_db (sha256_hex demo_sha [9]) ?h"
  let ?envs = "\<lambda>_ :: string. (demo_env {})\<lparr>fate_of := \<lambda>_. Drop\<rparr>"
  obtain w where w: "cluster_ok w" "replica demo w ''a'' ?h = Some [9, 9]"
    using demo_copy by blast
  obtain r db' w' where run: "gc_sweep demo_sha (\<lambda>_. 0) ?envs demo None ?db w = (r, db', w')"
    by (cases rule: prod_cases3)
  have h: "?h \<in> set (listOrphanedChunks ?db)" "\<forall>x. fate_of (?envs ?h) x = Drop"
    by (simp_all add: demo_gc_db_orphans)
  from gc_leaks_unreachable [OF demo_gc_db_wf [OF demo_gc_hashes] w(1) demo_gc_db_valid demo_config h run]
  have "replica demo w' ''a'' ?h = Some [9, 9]" "?h \<notin> refcount_hash ` set (chunk_refcounts db')"
    using w(2) by simp_all
  with run show ?thesis by (intro exI conjI)
qed

end
