(* ===== verification/JsNumber.thy ===== *)
theory JsNumber
  imports Prelude
begin

text \<open>
  \<^verbatim>\<open>Number(s)\<close> and \<^verbatim>\<open>String(n)\<close> as the configuration and the presigned URLs use them: exact on
  up to fifteen decimal digits, where a double holds the number exactly. On other inputs
  (signs, fractions, exponents, other radices, white space, text) the conversion is an
  argument, so that what is proved holds whatever it returns.
\<close>

section \<open>Conversions\<close>

definition is_digits :: "string \<Rightarrow> bool" where
  "is_digits s \<longleftrightarrow> s \<noteq> [] \<and> list_all (\<lambda>c. c \<in> set ''0123456789'') s"

definition digits_value :: "string \<Rightarrow> nat" where
  "digits_value s = foldl (\<lambda>a c. 10 * a + (of_char c - 48)) 0 s"

definition js_Number :: "(string \<Rightarrow> jsnum) \<Rightarrow> string \<Rightarrow> jsnum" where
  "js_Number other s =
     (if is_digits s \<and> length s \<le> 15 then js_nat (digits_value s) else other s)"

definition js_String :: "(jsnum \<Rightarrow> string) \<Rightarrow> jsnum \<Rightarrow> string" where
  "js_String other x =
     (case x of
        Fin q \<Rightarrow>
          if 0 \<le> q \<and> q < 10 ^ 15 \<and> of_int \<lfloor>q\<rfloor> = q
          then decimal (nat \<lfloor>q\<rfloor>) else other x
      | _ \<Rightarrow> other x)"

section \<open>Round trips\<close>

lemma digit_chars:
  assumes "k < 10"
  shows "''0123456789'' ! k \<in> set ''0123456789''" "of_char (''0123456789'' ! k) - 48 = k"
proof -
  show "''0123456789'' ! k \<in> set ''0123456789''" using assms by (intro nth_mem) simp
  from assms have "k \<in> {0, 1, 2, 3, 4, 5, 6, 7, 8, 9}" by (simp only: insert_iff empty_iff) arith
  then show "of_char (''0123456789'' ! k) - 48 = k" by (elim insertE) simp_all
qed

lemma digits_value_snoc: "digits_value (s @ [c]) = 10 * digits_value s + (of_char c - 48)"
  by (simp add: digits_value_def)

lemma decimal_digits: "is_digits (decimal k) \<and> digits_value (decimal k) = k"
proof (induction k rule: decimal.induct)
  case (1 k)
  show ?case
  proof (cases "k < 10")
    case True
    then have "decimal k = [''0123456789'' ! k]" by (simp add: decimal.simps)
    with digit_chars [OF True] show ?thesis by (simp add: is_digits_def digits_value_def)
  next
    case False
    then have d: "decimal k = decimal (k div 10) @ [''0123456789'' ! (k mod 10)]"
      by (subst decimal.simps) simp
    have m: "k mod 10 < 10" by simp
    show ?thesis
      using 1 [OF False] digit_chars [OF m]
      by (simp add: d is_digits_def digits_value_snoc del: set_simps)
  qed
qed

lemma length_decimal: "k < 10 ^ Suc n \<Longrightarrow> length (decimal k) \<le> Suc n"
proof (induction n arbitrary: k)
  case 0
  then show ?case by (subst decimal.simps) simp
next
  case (Suc n)
  show ?case
  proof (cases "k < 10")
    case False
    from Suc.prems have "k div 10 < 10 ^ Suc n" by (simp add: less_mult_imp_div_less mult.commute)
    from Suc.IH [OF this] False show ?thesis by (subst decimal.simps) simp
  qed (subst decimal.simps, simp)
qed

lemma js_Number_decimal:
  assumes "k < 10 ^ 15"
  shows "js_Number other (decimal k) = js_nat k"
  using decimal_digits [of k] length_decimal [of k 14] assms by (simp add: js_Number_def)

lemma js_String_nat:
  assumes "k < 10 ^ 15"
  shows "js_String other (js_nat k) = decimal k"
proof -
  have "(of_nat k :: rat) < of_nat (10 ^ 15)" using assms by (subst of_nat_less_iff)
  then have "(of_nat k :: rat) < 10 ^ 15" by simp
  then show ?thesis by (simp add: js_String_def js_nat_def)
qed

lemma decimal_inject [simp]: "decimal j = decimal k \<longleftrightarrow> j = k"
  by (metis decimal_digits)

lemma decimal_chars: "c \<in> set (decimal k) \<Longrightarrow> c \<in> set ''0123456789''"
  using decimal_digits [of k] by (auto simp: is_digits_def list_all_iff)

lemma decimal_not_Nil [simp]: "decimal k \<noteq> []"
  using decimal_digits [of k] by (auto simp: is_digits_def)

end
