(* ===== verification/Topology.thy ===== *)
theory Topology
  imports JsNumber Coordinator
begin

text \<open>
  \<^verbatim>\<open>src/topology.js\<close>: the list of storage nodes and the quorum numbers from the environment,
  and the coordinator that \<^verbatim>\<open>src/server.js\<close> and the command line of \<^verbatim>\<open>src/gc.js\<close> build from them.
\<close>

section \<open>The code\<close>

text \<open>\<^verbatim>\<open>split\<close> with a separator of one character.\<close>

fun split_on :: "char \<Rightarrow> string \<Rightarrow> string list" where
  "split_on c [] = [[]]"
| "split_on c (d # s) =
     (if d = c then [] # split_on c s
      else (d # hd (split_on c s)) # tl (split_on c s))"

definition parse_pair :: "string \<Rightarrow> string \<times> string option" where
  "parse_pair pair =
     (case split_on (CHR ''='') pair of
        [] \<Rightarrow> ([], None)
      | [nodeId] \<Rightarrow> (nodeId, None)
      | nodeId # url # _ \<Rightarrow> (nodeId, Some url))"

record environment =
  STORAGE_NODES :: "string option"
  REPLICATION_FACTOR :: "string option"
  WRITE_QUORUM :: "string option"

definition loadTopology :: "environment \<Rightarrow> (string \<times> string option) list" where
  "loadTopology env =
     (case STORAGE_NODES env of
        Some (c # raw) \<Rightarrow> map parse_pair (split_on (CHR '','') (c # raw))
      | _ \<Rightarrow> [(''node-0'', Some ''http://127.0.0.1:4100''),
              (''node-1'', Some ''http://127.0.0.1:4101''),
              (''node-2'', Some ''http://127.0.0.1:4102'')])"

text \<open>\<^verbatim>\<open>Number(process.env.NAME || d)\<close>.\<close>

definition env_number :: "(string \<Rightarrow> jsnum) \<Rightarrow> string option \<Rightarrow> nat \<Rightarrow> jsnum" where
  "env_number num v d =
     (case v of
        Some (c # s) \<Rightarrow> js_Number num (c # s)
      | _ \<Rightarrow> js_nat d)"

definition build_coordinator ::
  "sha1 \<Rightarrow> (string \<Rightarrow> jsnum) \<Rightarrow> environment \<Rightarrow> nat \<Rightarrow> (string \<times> string option) list \<Rightarrow> coordinator" where
  "build_coordinator sha1 num env vn nodes =
     \<lparr>co_ring = fold (\<lambda>(nodeId, url). addNode sha1 nodeId) nodes (new_ring vn),
      nodesById = fold (\<lambda>(nodeId, url) m. m(nodeId := url)) nodes (\<lambda>_. None),
      repl_n = js_min (env_number num (REPLICATION_FACTOR env) 3) (js_nat (length nodes)),
      write_w = js_min (env_number num (WRITE_QUORUM env) 2) (js_nat (length nodes))\<rparr>"

section \<open>Parsing\<close>

lemma split_on_not_Nil [simp]: "split_on c s \<noteq> []"
  by (induction s) auto

lemma split_on_plain: "c \<notin> set s \<Longrightarrow> split_on c s = [s]"
  by (induction s) auto

lemma split_on_append: "c \<notin> set s \<Longrightarrow> split_on c (s @ c # t) = s # split_on c t"
  by (induction s) auto

text \<open>The format the comment in \<^verbatim>\<open>loadTopology\<close> documents.\<close>

fun show_topology :: "(string \<times> string) list \<Rightarrow> string" where
  "show_topology [] = []"
| "show_topology [(x, u)] = x @ ''='' @ u"
| "show_topology ((x, u) # ns) = x @ ''='' @ u @ '','' @ show_topology ns"

definition plain :: "string \<Rightarrow> bool" where
  "plain s \<longleftrightarrow> CHR ''='' \<notin> set s \<and> CHR '','' \<notin> set s"

lemma parse_pair_show: "plain x \<Longrightarrow> plain u \<Longrightarrow> parse_pair (x @ ''='' @ u) = (x, Some u)"
  by (simp add: parse_pair_def plain_def split_on_append split_on_plain)

lemma split_show_topology:
  "ns \<noteq> [] \<Longrightarrow> \<forall>(x, u) \<in> set ns. plain x \<and> plain u \<Longrightarrow>
     split_on (CHR '','') (show_topology ns) = map (\<lambda>(x, u). x @ ''='' @ u) ns"
proof (induction ns rule: show_topology.induct)
  case (2 x u)
  then show ?case by (simp add: plain_def split_on_plain)
next
  case (3 x u n ns)
  then have "CHR '','' \<notin> set (x @ ''='' @ u)" by (simp add: plain_def)
  from split_on_append [OF this, of "show_topology (n # ns)"] 3 show ?case by simp
qed simp

lemma loadTopology_show:
  assumes "nodes \<noteq> []" and "\<forall>(x, u) \<in> set nodes. plain x \<and> plain u"
    and "STORAGE_NODES env = Some (show_topology nodes)"
  shows "loadTopology env = map (\<lambda>(x, u). (x, Some u)) nodes"
proof -
  have "show_topology nodes \<noteq> []"
    using assms(1) by (cases nodes rule: show_topology.cases) auto
  then have "loadTopology env = map parse_pair (split_on (CHR '','') (show_topology nodes))"
    by (cases "show_topology nodes") (simp_all add: loadTopology_def assms(3))
  also have "\<dots> = map (\<lambda>(x, u). parse_pair (x @ ''='' @ u)) nodes"
    unfolding split_show_topology [OF assms(1,2)] by (simp add: comp_def split_beta)
  also have "\<dots> = map (\<lambda>(x, u). (x, Some u)) nodes"
    using assms(2) by (intro map_cong) (auto simp: parse_pair_show [simplified])
  finally show ?thesis .
qed

section \<open>The coordinator that is built\<close>

lemma fold_addNode:
  "ring_wf r \<Longrightarrow> ring_wf (fold (\<lambda>(x, u). addNode sha1 x) ns r)
     \<and> vnodesPerNode (fold (\<lambda>(x, u). addNode sha1 x) ns r) = vnodesPerNode r
     \<and> set (ring_nodes (fold (\<lambda>(x, u). addNode sha1 x) ns r)) = set (ring_nodes r) \<union> fst ` set ns"
proof (induction ns arbitrary: r)
  case (Cons n ns)
  obtain x u where n: "n = (x, u)" by fastforce
  have "set (ring_nodes (addNode sha1 x r)) = insert x (set (ring_nodes r))"
    by (auto simp: addNode_def)
  with Cons.IH [OF ring_wf_addNode [OF Cons.prems, of sha1 x]] show ?case
    by (simp add: n)
qed simp

lemma build_coordinator_ring:
  fixes nodes :: "(string \<times> string option) list" and sha1 num env vn
  defines "co \<equiv> build_coordinator sha1 num env vn nodes"
  shows "ring_wf (co_ring co)" and "vnodesPerNode (co_ring co) = vn"
    and "set (ring_nodes (co_ring co)) = fst ` set nodes"
    and "vn * length nodes < 2 ^ 31 \<Longrightarrow> ring_fits (co_ring co)"
proof -
  note built = fold_addNode [OF ring_wf_new, of sha1 nodes vn]
  show wf: "ring_wf (co_ring co)" and vn: "vnodesPerNode (co_ring co) = vn"
    and nodes: "set (ring_nodes (co_ring co)) = fst ` set nodes"
    using built by (simp_all add: co_def build_coordinator_def new_ring_def)
  have "distinct (ring_nodes (co_ring co))" using wf by (simp add: ring_wf_def)
  then have "length (ring_nodes (co_ring co)) = card (fst ` set nodes)"
    by (metis distinct_card nodes)
  also have "\<dots> \<le> length nodes"
    by (metis card_image_le card_length finite_set le_trans)
  finally have "vn * length (ring_nodes (co_ring co)) \<le> vn * length nodes" by (rule mult_le_mono2)
  then show "ring_fits (co_ring co)" if "vn * length nodes < 2 ^ 31"
    unfolding ring_fits_def length_ring_entries [OF wf] vn using that by (rule le_less_trans)
qed

lemma fold_nodesById_other:
  "x \<notin> fst ` set ns \<Longrightarrow> fold (\<lambda>(nodeId, url) m. m(nodeId := url)) ns m0 x = m0 x"
  by (induction ns arbitrary: m0) auto

lemma fold_nodesById:
  "distinct (map fst ns) \<Longrightarrow> (x, u) \<in> set ns \<Longrightarrow>
     fold (\<lambda>(nodeId, url) m. m(nodeId := url)) ns m0 x = u"
proof (induction ns arbitrary: m0)
  case (Cons n ns)
  show ?case
  proof (cases "n = (x, u)")
    case True
    with Cons.prems have "x \<notin> fst ` set ns" by auto
    then have "fold (\<lambda>(nodeId, url) m. m(nodeId := url)) ns (m0(x := u)) x = (m0(x := u)) x"
      by (rule fold_nodesById_other)
    then show ?thesis by (simp only: True fold_simps prod.case fun_upd_same)
  next
    case False
    with Cons.prems have "distinct (map fst ns)" "(x, u) \<in> set ns" by auto
    from Cons.IH [OF this] show ?thesis by (cases n) (simp only: fold_simps prod.case)
  qed
qed simp

section \<open>Properties\<close>

text \<open>
  The configuration means what its comment says. A list of nodes written in the documented
  format, and quorum numbers written in decimal, give a coordinator whose ring consists of
  exactly these nodes, that knows each node's URL, and whose N and W are the numbers given,
  but at most the number of nodes; every key then has a preference list of that many nodes.
\<close>

theorem configured_coordinator:
  assumes "nodes \<noteq> []" and "\<forall>(x, u) \<in> set nodes. plain x \<and> plain u" and "distinct (map fst nodes)"
    and "100 * length nodes < 2 ^ 31" and "n < 10 ^ 15" and "k < 10 ^ 15"
    and env: "env = \<lparr>STORAGE_NODES = Some (show_topology nodes),
      REPLICATION_FACTOR = Some (decimal n), WRITE_QUORUM = Some (decimal k)\<rparr>"
    and co: "co = build_coordinator sha1 num env 100 (loadTopology env)"
  shows "set (ring_nodes (co_ring co)) = fst ` set nodes
    \<and> (\<forall>(x, u) \<in> set nodes. nodesById co x = Some u)
    \<and> repl_n co = js_nat (min n (length nodes)) \<and> write_w co = js_nat (min k (length nodes))
    \<and> (\<exists>pl. preferenceList sha1 (co_ring co) key (repl_n co) = Some pl
         \<and> length pl = min n (length nodes) \<and> set pl \<subseteq> fst ` set nodes)"
proof -
  let ?ns = "map (\<lambda>(x, u). (x, Some u)) nodes"
  have load: "loadTopology env = ?ns"
    using loadTopology_show [OF assms(1,2)] env by simp
  have ids: "map fst ?ns = map fst nodes" by (simp add: comp_def split_beta)
  then have ids': "fst ` set ?ns = fst ` set nodes" by (metis list.set_map)
  note ring = build_coordinator_ring [where ?sha1.0 = sha1 and num = num and env = env and vn = 100
      and nodes = "loadTopology env", folded co]
  have num: "env_number num (Some (decimal j)) d = js_nat j" if "j < 10 ^ 15" for j d
    using js_Number_decimal [OF that, of num]
    by (cases "decimal j") (simp_all add: env_number_def)
  have reps: "repl_n co = js_nat (min n (length nodes))" "write_w co = js_nat (min k (length nodes))"
    using num assms(5,6) by (simp_all add: co build_coordinator_def env load [unfolded env])
  have fits: "ring_fits (co_ring co)" using ring(4) assms(4) by (simp add: load)
  have nodes: "set (ring_nodes (co_ring co)) = fst ` set nodes" using ring(3) by (simp only: load ids')
  have "distinct (ring_nodes (co_ring co))" using ring(1) by (simp add: ring_wf_def)
  then have len: "length (ring_nodes (co_ring co)) = length nodes"
    using nodes assms(3) by (metis distinct_card length_map list.set_map)
  let ?pl = "take (min n (length nodes)) (node_order sha1 (co_ring co) key)"
  have "length (node_order sha1 (co_ring co) key) = length nodes"
    using length_node_order [OF ring(1)] by (simp add: ring(2) ring_size_def len)
  then have "length ?pl = min n (length nodes)" by simp
  moreover have "set ?pl \<subseteq> fst ` set nodes"
    using set_node_order [OF ring(1)] set_take_subset [of _ "node_order sha1 (co_ring co) key"]
    by (metis nodes ring(2) zero_less_numeral)
  moreover have "preferenceList sha1 (co_ring co) key (repl_n co) = Some ?pl"
    by (simp only: reps preferenceList_Some [OF ring(1) fits])
  moreover have "nodesById co x = Some u" if "(x, u) \<in> set nodes" for x u
  proof -
    have "distinct (map fst ?ns)" unfolding ids by (rule assms(3))
    moreover have "(x, Some u) \<in> set ?ns" using that by force
    ultimately have *: "distinct (map fst ?ns)" "(x, Some u) \<in> set ?ns" .
    from fold_nodesById [OF *] show ?thesis by (simp add: co build_coordinator_def load)
  qed
  ultimately show ?thesis using nodes reps by blast
qed

theorem configured_coordinator_witness:
  "write_w (build_coordinator (\<lambda>_. 0) (\<lambda>_. NaN)
      \<lparr>STORAGE_NODES = Some (show_topology [(''a'', ''http:1''), (''b'', ''http:2'')]),
        REPLICATION_FACTOR = Some (decimal 3), WRITE_QUORUM = Some (decimal 1)\<rparr> 100
      (loadTopology \<lparr>STORAGE_NODES = Some (show_topology [(''a'', ''http:1''), (''b'', ''http:2'')]),
        REPLICATION_FACTOR = Some (decimal 3), WRITE_QUORUM = Some (decimal 1)\<rparr>)) = js_nat 1"
  using configured_coordinator [of "[(''a'', ''http:1''), (''b'', ''http:2'')]" 3 1,
      OF _ _ _ _ _ _ refl refl, of "\<lambda>_. 0" "\<lambda>_. NaN"]
  by (simp add: plain_def)

end
