(* ===== verification/RateLimiter.thy ===== *)
theory RateLimiter
  imports Prelude
begin

text \<open>
  \<^verbatim>\<open>src/rateLimiter.js\<close>: token buckets, one per client key. The numbers are doubles: every
  operation computes the exact rational result and rounds it with the function \<open>rnd\<close>, of
  which the proofs use only that it is monotone, leaves integers alone, and has a bounded
  relative error. The clock is read once when a bucket is made and once when it is used; both
  readings are arguments, in milliseconds.
\<close>

section \<open>The code\<close>

record token_bucket =
  capacity :: rat
  refillPerSecond :: rat
  tokens :: rat
  lastRefill :: int

definition new_bucket :: "rat \<Rightarrow> rat \<Rightarrow> int \<Rightarrow> token_bucket" where
  "new_bucket cap rate now =
     \<lparr>capacity = cap, refillPerSecond = rate, tokens = cap, lastRefill = now\<rparr>"

definition refill :: "(rat \<Rightarrow> rat) \<Rightarrow> int \<Rightarrow> token_bucket \<Rightarrow> token_bucket" where
  "refill rnd now b =
     (let elapsedSeconds = rnd (of_int (now - lastRefill b) / 1000)
      in if elapsedSeconds \<le> 0 then b
         else b\<lparr>tokens := min (capacity b)
                  (rnd (tokens b + rnd (elapsedSeconds * refillPerSecond b))),
                lastRefill := now\<rparr>)"

definition tryConsume ::
  "(rat \<Rightarrow> rat) \<Rightarrow> int \<Rightarrow> rat \<Rightarrow> token_bucket \<Rightarrow> bool \<times> token_bucket" where
  "tryConsume rnd now cost b =
     (let b1 = refill rnd now b
      in if cost \<le> tokens b1 then (True, b1\<lparr>tokens := rnd (tokens b1 - cost)\<rparr>)
         else (False, b1))"

record rate_limiter =
  limit_capacity :: rat
  limit_refill :: rat
  buckets :: "(string \<times> token_bucket) list"

definition new_limiter :: "rat \<Rightarrow> rat \<Rightarrow> rate_limiter" where
  "new_limiter cap rate = \<lparr>limit_capacity = cap, limit_refill = rate, buckets = []\<rparr>"

definition bucketFor :: "int \<Rightarrow> string \<Rightarrow> rate_limiter \<Rightarrow> token_bucket \<times> rate_limiter" where
  "bucketFor now key rl =
     (case map_of (buckets rl) key of
        Some bucket \<Rightarrow> (bucket, rl)
      | None \<Rightarrow>
          let bucket = new_bucket (limit_capacity rl) (limit_refill rl) now
          in (bucket, rl\<lparr>buckets := AList.update key bucket (buckets rl)\<rparr>))"

text \<open>\<open>allow\<close> changes the bucket in place, that is, in the map.\<close>

definition allow ::
  "(rat \<Rightarrow> rat) \<Rightarrow> int \<times> int \<Rightarrow> string \<Rightarrow> rat \<Rightarrow> rate_limiter \<Rightarrow> bool \<times> rate_limiter" where
  "allow rnd clock key cost rl =
     (let (bucket, rl1) = bucketFor (fst clock) key rl;
          (ok, bucket') = tryConsume rnd (snd clock) cost bucket
      in (ok, rl1\<lparr>buckets := AList.update key bucket' (buckets rl1)\<rparr>))"

definition limiter_size :: "rate_limiter \<Rightarrow> nat" where
  "limiter_size rl = length (buckets rl)"

text \<open>A sequence of requests, each with its clock readings and its client.\<close>

fun allow_all ::
  "(rat \<Rightarrow> rat) \<Rightarrow> rat \<Rightarrow> ((int \<times> int) \<times> string) list \<Rightarrow> rate_limiter \<Rightarrow> bool list \<times> rate_limiter" where
  "allow_all rnd cost [] rl = ([], rl)"
| "allow_all rnd cost ((clock, key) # es) rl =
     (let (ok, rl1) = allow rnd clock key cost rl;
          (oks, rl2) = allow_all rnd cost es rl1
      in (ok # oks, rl2))"

text \<open>The same on one bucket.\<close>

fun consume_all :: "(rat \<Rightarrow> rat) \<Rightarrow> rat \<Rightarrow> int list \<Rightarrow> token_bucket \<Rightarrow> bool list \<times> token_bucket" where
  "consume_all rnd cost [] b = ([], b)"
| "consume_all rnd cost (now # ts) b =
     (let (ok, b1) = tryConsume rnd now cost b;
          (oks, b2) = consume_all rnd cost ts b1
      in (ok # oks, b2))"

section \<open>Rounding\<close>

text \<open>
  What the proofs use of double arithmetic, for the magnitudes that occur: rounding is
  monotone, integers are exact, and a non-negative result is too large by at most the relative
  error \<open>u\<close>.
\<close>

definition rounding :: "rat \<Rightarrow> (rat \<Rightarrow> rat) \<Rightarrow> bool" where
  "rounding u rnd \<longleftrightarrow> 0 \<le> u \<and> (\<forall>x y. x \<le> y \<longrightarrow> rnd x \<le> rnd y)
     \<and> (\<forall>k :: int. \<bar>k\<bar> \<le> 2 ^ 53 \<longrightarrow> rnd (of_int k) = of_int k)
     \<and> (\<forall>x. 0 \<le> x \<longrightarrow> rnd x \<le> x * (1 + u))"

lemma roundingD:
  assumes "rounding u rnd"
  shows "0 \<le> u" "x \<le> y \<Longrightarrow> rnd x \<le> rnd y" "\<bar>k\<bar> \<le> 2 ^ 53 \<Longrightarrow> rnd (of_int k) = of_int k"
    "0 \<le> x \<Longrightarrow> rnd x \<le> x * (1 + u)"
  using assms by (auto simp: rounding_def)

lemma rounding_zero: "rounding u rnd \<Longrightarrow> rnd 0 = 0"
  using roundingD(3) [of u rnd 0] by simp

lemma rounding_nonneg: "rounding u rnd \<Longrightarrow> 0 \<le> x \<Longrightarrow> 0 \<le> rnd x"
  using roundingD(2) [of u rnd 0 x] rounding_zero [of u rnd] by simp

lemma rounding_id: "rounding 0 (\<lambda>x. x)"
  by (simp add: rounding_def)

text \<open>A bucket holds between 0 and its capacity, an integer that doubles represent.\<close>

definition bucket_ok :: "token_bucket \<Rightarrow> bool" where
  "bucket_ok b \<longleftrightarrow> 0 \<le> tokens b \<and> tokens b \<le> capacity b \<and> 0 \<le> refillPerSecond b
     \<and> (\<exists>k :: int. \<bar>k\<bar> \<le> 2 ^ 53 \<and> capacity b = of_int k)"

lemma refill_frame [frame_simps]:
  "capacity (refill rnd now b) = capacity b"
  "refillPerSecond (refill rnd now b) = refillPerSecond b"
  by (simp_all add: refill_def Let_def)

lemma tryConsume_frame [frame_simps]:
  "capacity (snd (tryConsume rnd now cost b)) = capacity b"
  "refillPerSecond (snd (tryConsume rnd now cost b)) = refillPerSecond b"
  "lastRefill (snd (tryConsume rnd now cost b)) = lastRefill (refill rnd now b)"
  by (simp_all add: tryConsume_def Let_def frame_simps)

lemma refill_ok:
  assumes r: "rounding u rnd" and b: "bucket_ok b"
  shows "bucket_ok (refill rnd now b)"
proof (cases "rnd (of_int (now - lastRefill b) / 1000) \<le> 0")
  case True
  with b show ?thesis by (simp add: refill_def)
next
  case False
  let ?e = "rnd (of_int (now - lastRefill b) / 1000)"
  have "0 \<le> ?e * refillPerSecond b"
    using b False by (intro mult_nonneg_nonneg) (auto simp: bucket_ok_def simp del: of_int_diff)
  from rounding_nonneg [OF r this]
  have "0 \<le> tokens b + rnd (?e * refillPerSecond b)" using b by (simp add: bucket_ok_def)
  from rounding_nonneg [OF r this] False b show ?thesis
    by (auto simp: refill_def bucket_ok_def)
qed

lemma tryConsume_ok:
  assumes r: "rounding u rnd" and b: "bucket_ok b" and cost: "0 \<le> cost"
  shows "bucket_ok (snd (tryConsume rnd now cost b))"
proof -
  let ?b = "refill rnd now b"
  have ok: "bucket_ok ?b" by (rule refill_ok [OF r b])
  then obtain k :: int where k: "\<bar>k\<bar> \<le> 2 ^ 53" "capacity ?b = of_int k"
    by (auto simp: bucket_ok_def)
  show ?thesis
  proof (cases "cost \<le> tokens ?b")
    case True
    have "rnd (tokens ?b - cost) \<le> rnd (of_int k)"
      using ok cost k(2) by (intro roundingD(2) [OF r]) (simp add: bucket_ok_def)
    also have "\<dots> = of_int k" by (rule roundingD(3) [OF r k(1)])
    finally show ?thesis
      using ok True k rounding_nonneg [OF r, of "tokens ?b - cost"]
      by (auto simp: tryConsume_def bucket_ok_def Let_def)
  next
    case False
    with ok show ?thesis by (simp add: tryConsume_def Let_def)
  qed
qed

lemma consume_all_ok:
  assumes "rounding u rnd" and "0 \<le> cost"
  shows "bucket_ok b \<Longrightarrow> bucket_ok (snd (consume_all rnd cost ts b))"
  using tryConsume_ok [OF assms(1) _ assms(2)]
  by (induction ts arbitrary: b) (auto simp: Let_def split_beta)

section \<open>The rate\<close>

text \<open>
  One call, as a balance: what is consumed plus what is left is at most what was there, plus
  what the elapsed time brings, plus a rounding slack. The clock may go backwards, then nothing
  is refilled.
\<close>

definition slack :: "rat \<Rightarrow> rat \<Rightarrow> rat" where
  "slack u cap = 2 * u * cap"

lemma refill_lastRefill: 
  assumes r: "rounding u rnd"
  shows "lastRefill b \<le> lastRefill (refill rnd now b)"
proof (cases "rnd (of_int (now - lastRefill b) / 1000) \<le> 0")
  case False
  have "lastRefill b \<le> now"
  proof (rule ccontr)
    assume "\<not> ?thesis"
    then have "of_int (now - lastRefill b) / 1000 \<le> (0 :: rat)" by (simp add: divide_le_0_iff)
    from roundingD(2) [OF r this] rounding_zero [OF r] False show False by simp
  qed
  with False show ?thesis by (simp add: refill_def)
qed (simp add: refill_def)

lemma refill_balance:
  assumes r: "rounding u rnd" and b: "bucket_ok b"
  shows "tokens (refill rnd now b) \<le> tokens b + u * capacity b
    + refillPerSecond b * (of_int (lastRefill (refill rnd now b) - lastRefill b) / 1000) * (1 + u) ^ 3"
proof (cases "rnd (of_int (now - lastRefill b) / 1000) \<le> 0")
  case True
  have "0 \<le> u * capacity b" using roundingD(1) [OF r] b by (auto simp: bucket_ok_def)
  with True show ?thesis by (simp add: refill_def)
next
  case False
  let ?e = "of_int (now - lastRefill b) / 1000 :: rat" and ?r = "refillPerSecond b"
  have u: "0 \<le> u" by (rule roundingD(1) [OF r])
  have rate: "0 \<le> ?r" and tok: "0 \<le> tokens b" "tokens b \<le> capacity b"
    using b by (auto simp: bucket_ok_def)
  have e: "0 \<le> ?e"
    using refill_lastRefill [OF r, of b now] False by (simp add: refill_def)
  have "rnd ?e * ?r \<le> ?e * (1 + u) * ?r"
    using roundingD(4) [OF r e] rate by (rule mult_right_mono)
  then have "rnd (rnd ?e * ?r) \<le> rnd (?e * (1 + u) * ?r)" by (rule roundingD(2) [OF r])
  also have "\<dots> \<le> ?e * (1 + u) * ?r * (1 + u)"
    using e u rate by (intro roundingD(4) [OF r]) simp
  finally have "tokens b + rnd (rnd ?e * ?r) \<le> tokens b + ?e * (1 + u) * ?r * (1 + u)" by simp
  then have "rnd (tokens b + rnd (rnd ?e * ?r)) \<le> rnd (tokens b + ?e * (1 + u) * ?r * (1 + u))"
    by (rule roundingD(2) [OF r])
  also have "\<dots> \<le> (tokens b + ?e * (1 + u) * ?r * (1 + u)) * (1 + u)"
    using e u rate tok by (intro roundingD(4) [OF r]) simp
  also have "\<dots> = tokens b + u * tokens b + ?r * ?e * (1 + u) ^ 3"
    by (simp add: algebra_simps power3_eq_cube)
  also have "\<dots> \<le> tokens b + u * capacity b + ?r * ?e * (1 + u) ^ 3"
    using tok u by (simp add: mult_left_mono)
  finally show ?thesis using False by (simp add: refill_def)
qed

lemma tryConsume_balance:
  assumes r: "rounding u rnd" and b: "bucket_ok b" and cost: "0 \<le> cost"
    and run: "tryConsume rnd now cost b = (ok, b')"
  shows "(if ok then cost else 0) + tokens b' \<le> tokens b + slack u (capacity b)
    + refillPerSecond b * (of_int (lastRefill b' - lastRefill b) / 1000) * (1 + u) ^ 3"
proof -
  let ?b = "refill rnd now b"
  have u: "0 \<le> u" by (rule roundingD(1) [OF r])
  have ok: "bucket_ok ?b" by (rule refill_ok [OF r b])
  have cap: "0 \<le> u * capacity b" using u b by (auto simp: bucket_ok_def)
  have last: "lastRefill b' = lastRefill ?b"
    using run tryConsume_frame(3) [of rnd now cost b] by simp
  have "(if ok then cost else 0) + tokens b' \<le> tokens ?b + u * capacity b"
  proof (cases "cost \<le> tokens ?b")
    case True
    have "tokens ?b - cost \<le> capacity b" using ok cost by (simp add: bucket_ok_def frame_simps)
    then have "u * (tokens ?b - cost) \<le> u * capacity b" using u by (rule mult_left_mono)
    moreover have "rnd (tokens ?b - cost) \<le> (tokens ?b - cost) * (1 + u)"
      using True by (intro roundingD(4) [OF r]) simp
    ultimately have "rnd (tokens ?b - cost) \<le> tokens ?b - cost + u * capacity b"
      by (simp add: algebra_simps)
    with run True show ?thesis by (auto simp: tryConsume_def Let_def)
  next
    case False
    with run cap show ?thesis by (auto simp: tryConsume_def Let_def)
  qed
  with refill_balance [OF r b, of now] show ?thesis unfolding last slack_def by linarith
qed

lemma consume_all_balance:
  assumes r: "rounding u rnd" and cost: "0 \<le> cost"
  shows "bucket_ok b \<Longrightarrow> consume_all rnd cost ts b = (oks, b') \<Longrightarrow>
    of_nat (length (filter (\<lambda>ok. ok) oks)) * cost + tokens b'
      \<le> tokens b + of_nat (length ts) * slack u (capacity b)
        + refillPerSecond b * (of_int (lastRefill b' - lastRefill b) / 1000) * (1 + u) ^ 3"
proof (induction ts arbitrary: b oks)
  case (Cons now ts)
  obtain ok b1 where one: "tryConsume rnd now cost b = (ok, b1)" by fastforce
  obtain oks1 where rest: "consume_all rnd cost ts b1 = (oks1, b')" "oks = ok # oks1"
    using Cons.prems(2) one by (auto split: prod.splits)
  have b1: "bucket_ok b1" "capacity b1 = capacity b" "refillPerSecond b1 = refillPerSecond b"
    using tryConsume_ok [OF r Cons.prems(1) cost, of now] tryConsume_frame(1,2) [of rnd now cost b] one
    by simp_all
  let ?R = "\<lambda>x. refillPerSecond b * (of_int x / 1000) * (1 + u) ^ 3"
  have split: "?R (lastRefill b' - lastRefill b)
      = ?R (lastRefill b1 - lastRefill b) + ?R (lastRefill b' - lastRefill b1)"
    by (simp add: algebra_simps diff_divide_distrib)
  have "of_nat (length (filter (\<lambda>ok. ok) oks)) * cost
      = (if ok then cost else 0) + of_nat (length (filter (\<lambda>ok. ok) oks1)) * cost"
    by (simp add: rest(2) algebra_simps)
  moreover have "of_nat (length (now # ts)) * slack u (capacity b)
      = slack u (capacity b) + of_nat (length ts) * slack u (capacity b)"
    by (simp add: algebra_simps)
  ultimately show ?case
    using tryConsume_balance [OF r Cons.prems(1) cost one] Cons.IH [OF b1(1) rest(1)] split
    unfolding b1(2,3) by linarith
qed simp

lemma consume_all_capacity: "capacity (snd (consume_all rnd cost ts b)) = capacity b"
  by (induction ts arbitrary: b) (simp_all add: Let_def split_beta frame_simps)

lemma consume_all_lastRefill:
  "lastRefill b \<le> T \<Longrightarrow> \<forall>t \<in> set ts. t \<le> T \<Longrightarrow> lastRefill (snd (consume_all rnd cost ts b)) \<le> T"
proof (induction ts arbitrary: b)
  case (Cons now ts)
  have "lastRefill (refill rnd now b) \<le> T"
    using Cons.prems by (simp add: refill_def Let_def)
  then have "lastRefill (snd (tryConsume rnd now cost b)) \<le> T" by (simp add: frame_simps)
  from Cons.IH [OF this] Cons.prems show ?case by (simp add: Let_def split_beta)
qed simp

section \<open>A burst\<close>

lemma consume_burst:
  assumes r: "rounding u rnd" and "now \<le> lastRefill b" and "tokens b = of_nat m" and "m \<le> 2 ^ 53"
  shows "fst (consume_all rnd 1 (replicate n now) b) = replicate (min n m) True @ replicate (n - m) False"
  using assms(2-)
proof (induction n arbitrary: b m)
  case (Suc n)
  have "rnd (of_int (now - lastRefill b) / 1000) \<le> rnd 0"
    using Suc.prems(1) by (intro roundingD(2) [OF r]) (simp add: divide_le_0_iff)
  then have same: "refill rnd now b = b" by (simp add: refill_def rounding_zero [OF r])
  show ?case
  proof (cases m)
    case 0
    have "tryConsume rnd now 1 b = (False, b)"
      using Suc.prems(2) 0 by (simp add: tryConsume_def same)
    with Suc.IH [of b 0] Suc.prems 0 show ?thesis by (simp add: Let_def split_beta)
  next
    case (Suc k)
    have "rnd (of_int (int k)) = of_int (int k)"
      using \<open>m \<le> 2 ^ 53\<close> Suc by (intro roundingD(3) [OF r]) simp
    then have "rnd (tokens b - 1) = of_nat k" using Suc.prems(2) Suc by simp
    then have one: "tryConsume rnd now 1 b = (True, b\<lparr>tokens := of_nat k\<rparr>)"
      using Suc.prems(2) Suc by (simp add: tryConsume_def same)
    from Suc.IH [of "b\<lparr>tokens := of_nat k\<rparr>" k] Suc.prems Suc one show ?thesis
      by (simp add: Let_def split_beta)
  qed
qed simp

section \<open>Clients do not see each other\<close>

lemma bucketFor_cong:
  assumes "map_of (buckets rl) key = map_of (buckets rl') key"
    and "limit_capacity rl = limit_capacity rl'" and "limit_refill rl = limit_refill rl'"
  shows "fst (bucketFor now key rl) = fst (bucketFor now key rl')"
  using assms by (simp add: bucketFor_def Let_def split: option.split)

lemma allow_frame [frame_simps]:
  "limit_capacity (snd (allow rnd clock key cost rl)) = limit_capacity rl"
  "limit_refill (snd (allow rnd clock key cost rl)) = limit_refill rl"
  "j \<noteq> key \<Longrightarrow> map_of (buckets (snd (allow rnd clock key cost rl))) j = map_of (buckets rl) j"
  by (auto simp: allow_def bucketFor_def update_conv' Let_def split_beta split: option.split)

lemma allow_own:
  "map_of (buckets (snd (allow rnd clock key cost rl))) key
    = Some (snd (tryConsume rnd (snd clock) cost (fst (bucketFor (fst clock) key rl))))"
  "fst (allow rnd clock key cost rl)
    = fst (tryConsume rnd (snd clock) cost (fst (bucketFor (fst clock) key rl)))"
  by (simp_all add: allow_def update_conv' Let_def split_beta)

lemma allow_all_isolated:
  assumes "map_of (buckets rl) key = map_of (buckets rl') key"
    and "limit_capacity rl = limit_capacity rl'" and "limit_refill rl = limit_refill rl'"
  shows "map fst (filter (\<lambda>(ok, c, k). k = key) (zip (fst (allow_all rnd cost es rl)) es))
      = fst (allow_all rnd cost (filter (\<lambda>(c, k). k = key) es) rl')"
  using assms
proof (induction es arbitrary: rl rl')
  case (Cons e es)
  obtain clock k where e: "e = (clock, k)" by fastforce
  show ?case
  proof (cases "k = key")
    case True
    note b = bucketFor_cong [OF Cons.prems, of "fst clock"]
    have "map_of (buckets (snd (allow rnd clock key cost rl))) key
        = map_of (buckets (snd (allow rnd clock key cost rl'))) key"
      by (simp only: allow_own b)
    from Cons.IH [OF this] Cons.prems(2,3) True show ?thesis
      by (simp add: e Let_def split_beta frame_simps allow_own(2) b)
  next
    case False
    have "map_of (buckets (snd (allow rnd clock k cost rl))) key = map_of (buckets rl') key"
      using Cons.prems(1) False by (simp add: frame_simps)
    from Cons.IH [OF this] Cons.prems(2,3) False show ?thesis
      by (simp add: e Let_def split_beta frame_simps)
  qed
qed simp

section \<open>Properties\<close>

text \<open>
  The rate limit holds. Over any number of calls up to the time \<open>T\<close>, in any order of
  the clock, what a bucket grants is at most what it had plus the refill rate times the time
  passed, up to the rounding error of the doubles; and it never holds more than its capacity.
\<close>

theorem bucket_rate_bound:
  assumes "rounding u rnd" and "bucket_ok b" and "0 \<le> cost"
    and "lastRefill b \<le> T" and "\<forall>t \<in> set ts. t \<le> T"
    and "consume_all rnd cost ts b = (oks, b')"
  shows "of_nat (length (filter (\<lambda>ok. ok) oks)) * cost
      \<le> tokens b + refillPerSecond b * (of_int (T - lastRefill b) / 1000) * (1 + u) ^ 3
        + of_nat (length ts) * (2 * u * capacity b)
    \<and> 0 \<le> tokens b' \<and> tokens b' \<le> capacity b"
proof -
  have ok: "bucket_ok b'" using consume_all_ok [OF assms(1,3,2), of ts] assms(6) by simp
  have cap: "capacity b' = capacity b" using consume_all_capacity [of rnd cost ts b] assms(6) by simp
  have "lastRefill b' \<le> T" using consume_all_lastRefill [OF assms(4,5), of rnd cost] assms(6) by simp
  then have "refillPerSecond b * (of_int (lastRefill b' - lastRefill b) / 1000) * (1 + u) ^ 3
      \<le> refillPerSecond b * (of_int (T - lastRefill b) / 1000) * (1 + u) ^ 3"
    using assms(2) roundingD(1) [OF assms(1)]
    by (intro mult_right_mono mult_left_mono divide_right_mono) (simp_all add: bucket_ok_def)
  moreover note consume_all_balance [OF assms(1,3,2,6)]
  moreover have "0 \<le> tokens b'" "tokens b' \<le> capacity b'" using ok by (simp_all add: bucket_ok_def)
  ultimately show ?thesis unfolding cap slack_def by linarith
qed

theorem bucket_rate_bound_witness:
  "of_nat (length (filter (\<lambda>ok. ok) (fst (consume_all (\<lambda>x. x) 1 [0, 5, 1000, 900] (new_bucket 500 300 0)))))
    \<le> (800 :: rat)"
proof -
  have b: "bucket_ok (new_bucket 500 300 0)"
    unfolding bucket_ok_def by (intro conjI exI [of _ 500]) (simp_all add: new_bucket_def)
  have "lastRefill (new_bucket 500 300 0) \<le> 1000" by (simp add: new_bucket_def)
  moreover have "\<forall>t \<in> set [0, 5, 1000, 900]. t \<le> (1000 :: int)" by simp
  ultimately show ?thesis
    using bucket_rate_bound [OF rounding_id b zero_le_one _ _ surjective_pairing, of 1000 "[0, 5, 1000, 900]"]
    by (simp add: new_bucket_def)
qed

text \<open>
  A burst. A client seen for the first time gets exactly the capacity at one instant: of
  \<open>n\<close> requests the first \<open>m\<close> pass and the others are refused, for any rounding.
\<close>

theorem bucket_burst:
  assumes "rounding u rnd" and "m \<le> 2 ^ 53"
  shows "fst (consume_all rnd 1 (replicate n now) (new_bucket (of_nat m) rate now))
    = replicate (min n m) True @ replicate (n - m) False"
  using assms(2) by (intro consume_burst [OF assms(1)]) (simp_all add: new_bucket_def)

theorem bucket_burst_witness:
  "fst (consume_all (\<lambda>x. x) 1 (replicate 502 7) (new_bucket 500 300 7))
    = replicate 500 True @ [False, False]"
proof -
  have "fst (consume_all (\<lambda>x. x) 1 (replicate 502 7) (new_bucket (of_nat 500) 300 7))
    = replicate (min 502 500) True @ replicate (502 - 500) False"
    by (rule bucket_burst [OF rounding_id]) simp
  moreover have "replicate (502 - 500) False = [False, False]" by (simp add: numeral_2_eq_2)
  ultimately show ?thesis by (simp only: of_nat_numeral) (simp only: min_def, simp)
qed

text \<open>
  The allowance of a client is independent of the others. In any interleaving of the
  requests of many clients, each client gets exactly the answers it would get if its own
  requests were the only ones.
\<close>

theorem allow_isolated:
  "map fst (filter (\<lambda>(ok, c, k). k = key) (zip (fst (allow_all rnd cost es rl)) es))
    = fst (allow_all rnd cost (filter (\<lambda>(c, k). k = key) es) rl)"
  by (rule allow_all_isolated) simp_all

end
