(* ===== verification/Presign.thy ===== *)
theory Presign
  imports JsNumber
begin

text \<open>
  \<^verbatim>\<open>src/presign.js\<close>: time-limited signed URLs. HMAC-SHA-256 is a parameter, a function of the
  secret and the message; the clock is an argument. A query parameter that is missing is
  \<open>None\<close>; a parameter given several times (an array in JavaScript) is not modelled.
\<close>

section \<open>The code\<close>

type_synonym hmac = "string \<Rightarrow> string \<Rightarrow> 256 word"

text \<open>The secret, from the environment; an empty variable is as good as none.\<close>

definition SECRET :: "string option \<Rightarrow> string" where
  "SECRET PRESIGN_SECRET =
     (case PRESIGN_SECRET of Some (c # secret) \<Rightarrow> c # secret | _ \<Rightarrow> ''dev-secret-change-in-production'')"

definition sign :: "hmac \<Rightarrow> string \<Rightarrow> string \<Rightarrow> string" where
  "sign hmac secret message = hex_encode (digest_bytes (hmac secret message))"

definition signed_text :: "string \<Rightarrow> string \<Rightarrow> string \<Rightarrow> string" where
  "signed_text method resourcePath expires = method @ '':'' @ resourcePath @ '':'' @ expires"

record presigned =
  presigned_url :: string
  presigned_expiresAt :: nat
  presigned_signature :: string

definition presign ::
  "hmac \<Rightarrow> string \<Rightarrow> (jsnum \<Rightarrow> string) \<Rightarrow> nat \<Rightarrow> string \<Rightarrow> string \<Rightarrow> nat \<Rightarrow> presigned" where
  "presign hmac secret str now method resourcePath ttlSeconds =
     (let expiresAt = now + ttlSeconds * 1000;
          shown = js_String str (js_nat expiresAt);
          signature = sign hmac secret (signed_text method resourcePath shown)
      in \<lparr>presigned_url = resourcePath @ ''?expires='' @ shown @ ''&sig='' @ signature,
          presigned_expiresAt = expiresAt, presigned_signature = signature\<rparr>)"

datatype presign_error = MissingParameters | MalformedExpires | Expired | Tampered

definition verifyPresigned ::
  "hmac \<Rightarrow> string \<Rightarrow> (string \<Rightarrow> jsnum) \<Rightarrow> (jsnum \<Rightarrow> string) \<Rightarrow> nat \<Rightarrow> string \<Rightarrow> string
     \<Rightarrow> string option \<times> string option \<Rightarrow> presign_error + unit" where
  "verifyPresigned hmac secret num str now method resourcePath query =
     (case query of
        (Some (c # expires), Some (d # sig)) \<Rightarrow>
          let expiresAt = js_Number num (c # expires)
          in if expiresAt = NaN then Inl MalformedExpires
             else if js_less expiresAt (js_nat now) then Inl Expired
             else
               let expected = sign hmac secret
                     (signed_text method resourcePath (js_String str expiresAt));
                   expectedBuf = hex_decode expected;
                   actualBuf = hex_decode (d # sig)
               in if length expectedBuf \<noteq> length actualBuf \<or> expectedBuf \<noteq> actualBuf
                  then Inl Tampered else Inr ()
      | _ \<Rightarrow> Inl MissingParameters)"

section \<open>What a signature says\<close>

lemma sign_inject [simp]: "sign hmac k a = sign hmac k' b \<longleftrightarrow> hmac k a = hmac k' b"
  unfolding sign_def by (metis digest_bytes_inject hex_decode_encode)

lemma sign_not_Nil [simp]: "sign hmac k a \<noteq> []"
  by (metis hex_encode.simps(1) length_0_conv length_digest_bytes length_hex_encode mult_eq_0_iff
      numeral_eq_iff semiring_norm(160) sign_def zero_neq_numeral)

text \<open>The last colon ends the path, so the three parts can be read back.\<close>

lemma append_first_sep:
  "a @ c # b = a' @ c # b' \<Longrightarrow> c \<notin> set a \<Longrightarrow> c \<notin> set a' \<Longrightarrow> a = a' \<and> b = b'"
proof (induction a arbitrary: a')
  case Nil
  then show ?case by (cases a') auto
next
  case (Cons x a)
  then show ?case by (cases a') auto
qed

lemma append_last_sep:
  assumes "a @ c # b = a' @ c # b'" and "c \<notin> set b" and "c \<notin> set b'"
  shows "a = a' \<and> b = b'"
proof -
  have "rev b @ c # rev a = rev b' @ c # rev a'" using arg_cong [OF assms(1), of rev] by simp
  from append_first_sep [OF this] assms(2,3) show ?thesis by simp
qed

lemma signed_text_inject:
  assumes "signed_text m p e = signed_text m' p' e'"
    and "CHR '':'' \<notin> set m" "CHR '':'' \<notin> set m'" "CHR '':'' \<notin> set e" "CHR '':'' \<notin> set e'"
  shows "m = m' \<and> p = p' \<and> e = e'"
proof -
  have "(m @ '':'' @ p) @ CHR '':'' # e = (m' @ '':'' @ p') @ CHR '':'' # e'"
    using assms(1) by (simp add: signed_text_def)
  from append_last_sep [OF this assms(4,5)]
  have "e = e'" and "m @ CHR '':'' # p = m' @ CHR '':'' # p'" by simp_all
  with append_first_sep [OF this(2) assms(2,3)] show ?thesis by simp
qed

lemma verifyPresigned_accepts:
  "verifyPresigned hmac k num str now m p (expires, sig) = Inr () \<longleftrightarrow>
     (\<exists>e s. expires = Some e \<and> e \<noteq> [] \<and> sig = Some s \<and> js_Number num e \<noteq> NaN
        \<and> \<not> js_less (js_Number num e) (js_nat now)
        \<and> hex_decode s = digest_bytes (hmac k (signed_text m p (js_String str (js_Number num e)))))"
proof -
  have "hex_decode [] \<noteq> digest_bytes d" for d
    by (metis hex_decode.simps(2) length_0_conv length_digest_bytes zero_neq_numeral)
  then show ?thesis
    by (auto simp: verifyPresigned_def sign_def Let_def neq_Nil_conv split: option.splits list.splits if_splits)
qed

lemma presign_issued:
  assumes "now + ttl * 1000 < 10 ^ 15"
  shows "presign hmac k str now m p ttl =
    \<lparr>presigned_url = p @ ''?expires='' @ decimal (now + ttl * 1000) @ ''&sig=''
        @ sign hmac k (signed_text m p (decimal (now + ttl * 1000))),
     presigned_expiresAt = now + ttl * 1000,
     presigned_signature = sign hmac k (signed_text m p (decimal (now + ttl * 1000)))\<rparr>"
  unfolding presign_def Let_def js_String_nat [OF assms] ..

lemma verify_issued:
  assumes "now + ttl * 1000 < 10 ^ 15"
  shows "verifyPresigned hmac k num str later m p (Some (decimal (now + ttl * 1000)),
      Some (presigned_signature (presign hmac k str now m p ttl)))
    = (if later \<le> now + ttl * 1000 then Inr () else Inl Expired)"
proof -
  let ?e = "now + ttl * 1000"
  let ?sig = "sign hmac k (signed_text m p (decimal ?e))"
  obtain c cs where c: "decimal ?e = c # cs" by (cases "decimal ?e") simp_all
  obtain d ds where d: "?sig = d # ds" by (cases ?sig) simp_all
  have "verifyPresigned hmac k num str later m p (Some (c # cs), Some (d # ds))
      = (if later \<le> ?e then Inr () else Inl Expired)"
    unfolding verifyPresigned_def prod.case option.case list.case Let_def
    unfolding c [symmetric] d [symmetric] js_Number_decimal [OF assms] js_String_nat [OF assms]
      js_less_nat
    by (simp add: js_nat_def not_less)
  then show ?thesis unfolding presign_issued [OF assms] presigned.simps c [symmetric] d [symmetric] .
qed

text \<open>Where the variable is not set, whoever has read the source signs URLs for any method and path.\<close>

lemma default_secret_forges:
  assumes "now + ttl * 1000 < 10 ^ 15" and "later \<le> now + ttl * 1000"
  shows "verifyPresigned hmac (SECRET None) num str later m p (Some (decimal (now + ttl * 1000)),
    Some (sign hmac ''dev-secret-change-in-production'' (signed_text m p (decimal (now + ttl * 1000))))) = Inr ()"
  using verify_issued [OF assms(1), of hmac "SECRET None" num str later m p] assms(2)
  by (simp add: presign_issued [OF assms(1)] SECRET_def)

section \<open>Properties\<close>

text \<open>
  C30: what is signed verifies until it expires. The parameters of a presigned URL are accepted
  for the same method and path up to and including the millisecond of expiry, and rejected as
  expired, not as tampered, from the next one on.
\<close>

theorem presign_roundtrip:
  assumes "now + ttl * 1000 < 10 ^ 15" and "u = presign hmac k str now m p ttl"
  shows "presigned_url u = p @ ''?expires='' @ decimal (presigned_expiresAt u) @ ''&sig=''
      @ presigned_signature u
    \<and> verifyPresigned hmac k num str later m p
        (Some (decimal (presigned_expiresAt u)), Some (presigned_signature u))
      = (if later \<le> now + ttl * 1000 then Inr () else Inl Expired)"
  unfolding assms(2) presign_issued [OF assms(1)] presigned.simps
    verify_issued [OF assms(1), unfolded presign_issued [OF assms(1)] presigned.simps]
  by simp

theorem presign_roundtrip_witness:
  "verifyPresigned (\<lambda>_ _. 7) ''key'' (\<lambda>_. NaN) (\<lambda>_. []) 301000 ''GET'' ''/files/f''
    (Some (decimal (presigned_expiresAt (presign (\<lambda>_ _. 7) ''key'' (\<lambda>_. []) 1000 ''GET'' ''/files/f'' 300))),
     Some (presigned_signature (presign (\<lambda>_ _. 7) ''key'' (\<lambda>_. []) 1000 ''GET'' ''/files/f'' 300)))
   = Inr ()"
proof -
  have "(1000 :: nat) + 300 * 1000 < 10 ^ 15" by simp
  note trip = presign_roundtrip [OF this refl, of "\<lambda>_ _. 7" "''key''" "\<lambda>_. []" "''GET''"
      "''/files/f''" "\<lambda>_. NaN" 301000]
  show ?thesis by (rule trans [OF conjunct2 [OF trip]]) simp
qed

text \<open>
  A signature cannot be moved. If the signature issued for one method, path and expiry is
  accepted with another method, path or expiry, then HMAC has the same value on the two signed
  texts, which differ. So without such a collision it is good for nothing else, and its expiry
  cannot be extended.
\<close>

theorem presign_binding:
  assumes "now + ttl * 1000 < 10 ^ 15" and "u = presign hmac k str now m p ttl"
    and "verifyPresigned hmac k num str later m' p' (Some e', Some (presigned_signature u)) = Inr ()"
    and "CHR '':'' \<notin> set m" and "CHR '':'' \<notin> set m'" and "\<And>x. CHR '':'' \<notin> set (str x)"
  shows "\<not> js_less (js_Number num e') (js_nat later)
    \<and> (m' = m \<and> p' = p \<and> js_String str (js_Number num e') = decimal (now + ttl * 1000)
       \<or> signed_text m' p' (js_String str (js_Number num e'))
           \<noteq> signed_text m p (decimal (now + ttl * 1000))
         \<and> hmac k (signed_text m' p' (js_String str (js_Number num e')))
           = hmac k (signed_text m p (decimal (now + ttl * 1000))))"
proof -
  let ?e = "decimal (now + ttl * 1000)" and ?e' = "js_String str (js_Number num e')"
  have sig: "presigned_signature u = sign hmac k (signed_text m p ?e)"
    using presign_issued [OF assms(1)] assms(2) by simp
  from assms(3) have acc: "\<not> js_less (js_Number num e') (js_nat later)"
    "hmac k (signed_text m p ?e) = hmac k (signed_text m' p' ?e')"
    by (auto simp: verifyPresigned_accepts sig sign_def)
  have digits: "CHR '':'' \<notin> set (decimal j)" for j
    using decimal_chars [of "CHR '':''" j] by auto
  then have "CHR '':'' \<notin> set ?e'"
    using assms(6) by (auto simp: js_String_def split: jsnum.splits)
  from signed_text_inject [OF _ assms(4,5) digits this, of p _ p'] acc show ?thesis by auto
qed

theorem presign_binding_witness:
  "\<not> js_less (js_Number (\<lambda>_. NaN) (decimal 301000)) (js_nat 2000)"
proof -
  have "verifyPresigned (\<lambda>_ _. 7) ''key'' (\<lambda>_. NaN) (\<lambda>_. []) 2000 ''GET'' ''/files/f''
    (Some (decimal (1000 + 300 * 1000)),
     Some (presigned_signature (presign (\<lambda>_ _. 7) ''key'' (\<lambda>_. []) 1000 ''GET'' ''/files/f'' 300)))
    = Inr ()"
    by (subst verify_issued) simp_all
  from presign_binding [OF _ refl this] show ?thesis by simp
qed

text \<open>
  The signature parameter is not canonical. Whatever follows the signature, from the first
  character that is not a hexadecimal pair on, is ignored, so a signature with text appended
  is accepted wherever the signature is.
\<close>

theorem presign_malleable:
  assumes "now + ttl * 1000 < 10 ^ 15" and "later \<le> now + ttl * 1000"
    and "u = presign hmac k str now m p ttl" and "hex_decode junk = []"
  shows "verifyPresigned hmac k num str later m p
    (Some (decimal (presigned_expiresAt u)), Some (presigned_signature u @ junk)) = Inr ()"
  using presign_issued [OF assms(1), of hmac k str m p] assms
  by (simp add: verifyPresigned_accepts js_Number_decimal [OF assms(1)] js_String_nat [OF assms(1)]
      hex_decode_encode_append) (simp add: sign_def hex_decode_encode_append js_nat_def)

theorem presign_malleable_witness:
  "\<exists>u. u = presign (\<lambda>_ _. 7) ''key'' (\<lambda>_. []) 1000 ''GET'' ''/files/f'' 300
    \<and> verifyPresigned (\<lambda>_ _. 7) ''key'' (\<lambda>_. NaN) (\<lambda>_. []) 2000 ''GET'' ''/files/f''
        (Some (decimal (presigned_expiresAt u)), Some (presigned_signature u @ ''xyz'')) = Inr ()"
proof -
  have "hex_decode ''xyz'' = []" by (simp add: hex_value_def)
  from presign_malleable [OF _ _ refl this, of 1000 300 2000] show ?thesis by simp
qed

end
