(* ===== verification/Server.thy ===== *)
theory Server
  imports Chunker Gc Topology RateLimiter Presign
begin

text \<open>
  \<^verbatim>\<open>src/server.js\<close>: the public HTTP interface. A handler is a function from the request and the
  state of the process to the response and the next state; it calls the models of the chunker,
  the coordinator, the metadata store, the rate limiter and the signatures. What the platform
  provides (digests, number conversions, rounding) is bundled in one record, what happens
  around one request (clock, random bytes, network) in another.
\<close>

section \<open>The code\<close>

record platform =
  sha_of :: sha256
  sha1_of :: sha1
  hmac_of :: hmac
  secret_of :: string
  number_of :: "string \<Rightarrow> jsnum"
  string_of :: "jsnum \<Rightarrow> string"
  round_of :: "rat \<Rightarrow> rat"
  inject_ip :: string

text \<open>
  Around one request: the readings of the clock by the rate limiter, also for an injected
  request, and by the store, the random parts of the ids, how long the request took when its response
  was sent, also for an injected one, and for each chunk in turn the circumstances of its fan-out.
\<close>

record request_env =
  limiter_clock :: "int \<times> int"
  inject_clock :: "int \<times> int"
  file_now :: int
  version_now :: int
  sign_now :: nat
  file_random :: bytes
  version_random :: bytes
  elapsed_ms :: rat
  inject_elapsed_ms :: rat
  chunk_env :: "nat \<Rightarrow> call_env"

record 'n app =
  app_co :: coordinator
  app_db :: metadata
  app_limiter :: rate_limiter
  app_world :: "'n world"

datatype app_payload =
    ErrorMessage string
  | Thrown js_error
  | Created string string nat nat
  | Updated string string "string option" nat nat
  | FileInfo file_row "version_row list"
  | Bytes bytes
  | MissingChunk string
  | SignedUrl string nat
  | Healthy
  | Exposition metrics

definition buildServer ::
  "platform \<Rightarrow> environment \<Rightarrow> (string \<times> string option) list option \<Rightarrow> 'n world \<Rightarrow> 'n app" where
  "buildServer P env topology w =
     (let nodes = (case topology of Some ns \<Rightarrow> ns | None \<Rightarrow> loadTopology env)
      in \<lparr>app_co = build_coordinator (sha1_of P) (number_of P) env 100 nodes,
          app_db = empty_db, app_limiter = new_limiter 500 300, app_world = w\<rparr>)"

fun upload_loop ::
  "'n server \<Rightarrow> sha1 \<Rightarrow> (nat \<Rightarrow> call_env) \<Rightarrow> coordinator \<Rightarrow> nat \<Rightarrow> chunk list \<Rightarrow> 'n world
     \<Rightarrow> (js_error + put_report list) \<times> 'n world" where
  "upload_loop serve sha1 envs co i [] w = (Inr [], w)"
| "upload_loop serve sha1 envs co i (c # cs) w =
     (case putChunk serve sha1 (envs i) co (chunk_sha c) (chunk_data c) w of
        (Inl e, w1) \<Rightarrow> (Inl e, w1)
      | (Inr result, w1) \<Rightarrow>
          (case upload_loop serve sha1 envs co (i + 1) cs w1 of
             (Inl e, w2) \<Rightarrow> (Inl e, w2)
           | (Inr results, w2) \<Rightarrow> (Inr (result # results), w2)))"

text \<open>The chunk hashes, the reports of the writes, and the total size.\<close>

definition uploadChunks ::
  "'n server \<Rightarrow> platform \<Rightarrow> (nat \<Rightarrow> call_env) \<Rightarrow> coordinator \<Rightarrow> bytes \<Rightarrow> 'n world
     \<Rightarrow> (js_error + string list \<times> put_report list \<times> nat) \<times> 'n world" where
  "uploadChunks serve P envs co buf w =
     (case chunkBuffer (sha_of P) (Buffer buf) DEFAULT_CHUNK_SIZE of
        None \<Rightarrow> (Inl Diverges, w)
      | Some (Inl e) \<Rightarrow> (Inl e, w)
      | Some (Inr chunks) \<Rightarrow>
          (case upload_loop serve (sha1_of P) envs co 0 chunks w of
             (Inl e, w1) \<Rightarrow> (Inl e, w1)
           | (Inr writeResults, w1) \<Rightarrow>
               (Inr (map chunk_sha chunks, writeResults, length buf), w1)))"

text \<open>\<^verbatim>\<open>POST /files\<close>. An exception becomes the framework's response with status 500.\<close>

definition post_file ::
  "'n server \<Rightarrow> platform \<Rightarrow> request_env \<Rightarrow> js_value \<Rightarrow> 'n app \<Rightarrow> app_payload response \<times> 'n app" where
  "post_file serve P e body s =
     (case body of
        Buffer buf \<Rightarrow>
          let (up, w1) = uploadChunks serve P (chunk_env e) (app_co s) buf (app_world s);
              s1 = s\<lparr>app_world := w1\<rparr>
          in (case up of
                Inl err \<Rightarrow> (reply 500 (Thrown err), s1)
              | Inr (hashes, results, totalSize) \<Rightarrow>
                  (case createFile (file_random e) (file_now e) (app_db s1) of
                     (Inl err, db1) \<Rightarrow> (reply 500 (Thrown err), s1\<lparr>app_db := db1\<rparr>)
                   | (Inr f, db1) \<Rightarrow>
                       (case commitVersion (version_random e) (version_now e) f hashes totalSize db1 of
                          (Inl err, db2) \<Rightarrow> (reply 500 (Thrown err), s1\<lparr>app_db := db2\<rparr>)
                        | (Inr v, db2) \<Rightarrow>
                            (reply 201 (Created f v (length hashes) totalSize), s1\<lparr>app_db := db2\<rparr>))))
      | _ \<Rightarrow> (reply 400 (ErrorMessage ''expected application/octet-stream body''), s))"

text \<open>\<^verbatim>\<open>PUT /files/:fileId\<close>.\<close>

definition put_file ::
  "'n server \<Rightarrow> platform \<Rightarrow> request_env \<Rightarrow> string \<Rightarrow> js_value \<Rightarrow> 'n app
     \<Rightarrow> app_payload response \<times> 'n app" where
  "put_file serve P e f body s =
     (case getFile (app_db s) f of
        None \<Rightarrow> (reply 404 (ErrorMessage ''file not found''), s)
      | Some row \<Rightarrow>
          (case body of
             Buffer buf \<Rightarrow>
               let previous = current_version_id row;
                   (up, w1) = uploadChunks serve P (chunk_env e) (app_co s) buf (app_world s);
                   s1 = s\<lparr>app_world := w1\<rparr>
               in (case up of
                     Inl err \<Rightarrow> (reply 500 (Thrown err), s1)
                   | Inr (hashes, results, totalSize) \<Rightarrow>
                       (case commitVersion (version_random e) (version_now e) f hashes totalSize (app_db s1) of
                          (Inl err, db1) \<Rightarrow> (reply 500 (Thrown err), s1\<lparr>app_db := db1\<rparr>)
                        | (Inr v, db1) \<Rightarrow>
                            let db2 = (case previous of
                                  None \<Rightarrow> db1
                                | Some p \<Rightarrow> if p = [] then db1 else deleteVersion p db1)
                            in (reply 200 (Updated f v previous (length hashes) totalSize),
                                s1\<lparr>app_db := db2\<rparr>)))
           | _ \<Rightarrow> (reply 400 (ErrorMessage ''expected application/octet-stream body''), s)))"

text \<open>\<^verbatim>\<open>GET /files/:fileId\<close>.\<close>

definition file_info :: "string \<Rightarrow> 'n app \<Rightarrow> app_payload response" where
  "file_info f s =
     (case getFile (app_db s) f of
        None \<Rightarrow> reply 404 (ErrorMessage ''file not found'')
      | Some row \<Rightarrow> reply 200 (FileInfo row (listVersions (app_db s) f)))"

text \<open>
  The reads of a download run in parallel and do not disturb one another; the model takes them
  in the order of the manifest, and of several exceptions reports the first in this order.
\<close>

fun read_all ::
  "'n server \<Rightarrow> platform \<Rightarrow> (nat \<Rightarrow> call_env) \<Rightarrow> coordinator \<Rightarrow> nat \<Rightarrow> string list \<Rightarrow> 'n world
     \<Rightarrow> (js_error + bytes option) list \<times> 'n world" where
  "read_all serve P envs co i [] w = ([], w)"
| "read_all serve P envs co i (h # hs) w =
     (let (r, w1) = getChunk serve (sha_of P) (sha1_of P) (envs i) co h w;
          (rs, w2) = read_all serve P envs co (i + 1) hs w1
      in (r # rs, w2))"

text \<open>The answer of a download, from the hashes and what the reads returned.\<close>

definition assemble :: "string list \<Rightarrow> (js_error + bytes option) list \<Rightarrow> app_payload response" where
  "assemble hashes rs =
     (case find isl rs of
        Some r \<Rightarrow> reply 500 (Thrown (projl r))
      | None \<Rightarrow>
          let parts = map projr rs
          in (case find (\<lambda>(h, p). p = None) (zip hashes parts) of
                Some (h, p) \<Rightarrow> reply 500 (MissingChunk h)
              | None \<Rightarrow> reply 200 (Bytes (concat (map the parts)))))"

text \<open>\<^verbatim>\<open>GET /files/:fileId/download\<close>. A current version without a row is a \<^verbatim>\<open>TypeError\<close>.\<close>

definition download ::
  "'n server \<Rightarrow> platform \<Rightarrow> request_env \<Rightarrow> string \<Rightarrow> 'n app \<Rightarrow> app_payload response \<times> 'n app" where
  "download serve P e f s =
     (case Option.bind (getFile (app_db s) f) current_version_id of
        None \<Rightarrow> (reply 404 (ErrorMessage ''file not found''), s)
      | Some v \<Rightarrow>
          if v = [] then (reply 404 (ErrorMessage ''file not found''), s)
          else (case getVersion (app_db s) v of
             None \<Rightarrow> (reply 500 (Thrown TypeError), s)
           | Some version \<Rightarrow>
               let (rs, w1) = read_all serve P (chunk_env e) (app_co s) 0 (chunkHashes version)
                     (app_world s)
               in (assemble (chunkHashes version) rs, s\<lparr>app_world := w1\<rparr>)))"

definition presigned_path :: "string \<Rightarrow> string" where
  "presigned_path f = ''/files/'' @ f @ ''/download-presigned''"

text \<open>\<^verbatim>\<open>POST /files/:fileId/presign-download\<close>.\<close>

definition presign_download ::
  "platform \<Rightarrow> request_env \<Rightarrow> string \<Rightarrow> 'n app \<Rightarrow> app_payload response" where
  "presign_download P e f s =
     (case getFile (app_db s) f of
        None \<Rightarrow> reply 404 (ErrorMessage ''file not found'')
      | Some row \<Rightarrow>
          let u = presign (hmac_of P) (secret_of P) (string_of P) (sign_now e) ''GET''
                (presigned_path f) 300
          in reply 200 (SignedUrl (presigned_url u) (presigned_expiresAt u)))"

text \<open>The hook \<^verbatim>\<open>onRequest\<close>: a refused request does not reach its handler.\<close>

definition limited ::
  "platform \<Rightarrow> int \<times> int \<Rightarrow> string \<Rightarrow> ('n app \<Rightarrow> app_payload response \<times> 'n app) \<Rightarrow> 'n app
     \<Rightarrow> app_payload response \<times> 'n app" where
  "limited P clock clientKey handler s =
     (let (ok, rl) = allow (round_of P) clock clientKey 1 (app_limiter s);
          s1 = s\<lparr>app_limiter := rl\<rparr>
      in if ok then handler s1
         else (reply 429 (ErrorMessage ''rate limit exceeded''),
               s1\<lparr>app_world := bump inc_rateLimitRejections (app_world s1)\<rparr>))"

text \<open>The hook \<^verbatim>\<open>onResponse\<close>, with the method and the route of the request.\<close>

definition observed ::
  "string \<times> string \<Rightarrow> rat \<Rightarrow> app_payload response \<times> 'n app \<Rightarrow> app_payload response \<times> 'n app" where
  "observed label ms answer =
     (let (r, s) = answer
      in (r, s\<lparr>app_world := bump (observe_httpRequestDuration (fst label) (snd label) (status r) (ms / 1000))
               (app_world s)\<rparr>))"

text \<open>
  \<^verbatim>\<open>GET /files/:fileId/download-presigned\<close>: the download is a request of its own that the server
  injects into itself, so it passes both hooks again, as a client with the address of the injector.
\<close>

definition download_presigned ::
  "'n server \<Rightarrow> platform \<Rightarrow> request_env \<Rightarrow> string \<Rightarrow> string option \<times> string option \<Rightarrow> 'n app
     \<Rightarrow> app_payload response \<times> 'n app" where
  "download_presigned serve P e f query s =
     (case verifyPresigned (hmac_of P) (secret_of P) (number_of P) (string_of P) (sign_now e)
             ''GET'' (presigned_path f) query of
        Inl MissingParameters \<Rightarrow>
          (reply 403 (ErrorMessage ''Presigned URL rejected: missing expires/sig''), s)
      | Inl MalformedExpires \<Rightarrow>
          (reply 403 (ErrorMessage ''Presigned URL rejected: malformed expires''), s)
      | Inl Expired \<Rightarrow> (reply 403 (ErrorMessage ''Presigned URL rejected: expired''), s)
      | Inl Tampered \<Rightarrow> (reply 403 (ErrorMessage ''Presigned URL rejected: tampered''), s)
      | Inr _ \<Rightarrow>
          observed (''GET'', ''/files/:fileId/download'') (inject_elapsed_ms e)
            (limited P (inject_clock e) (inject_ip P) (download serve P e f) s))"

datatype app_request =
    PostFile js_value
  | PutFile string js_value
  | GetFileInfo string
  | Download string
  | PresignDownload string
  | DownloadPresigned string "string option \<times> string option"
  | Health
  | MetricsPage

text \<open>The method and the pattern of each route.\<close>

fun route_label :: "app_request \<Rightarrow> string \<times> string" where
  "route_label (PostFile body) = (''POST'', ''/files'')"
| "route_label (PutFile f body) = (''PUT'', ''/files/:fileId'')"
| "route_label (GetFileInfo f) = (''GET'', ''/files/:fileId'')"
| "route_label (Download f) = (''GET'', ''/files/:fileId/download'')"
| "route_label (PresignDownload f) = (''POST'', ''/files/:fileId/presign-download'')"
| "route_label (DownloadPresigned f query) = (''GET'', ''/files/:fileId/download-presigned'')"
| "route_label Health = (''GET'', ''/health'')"
| "route_label MetricsPage = (''GET'', ''/metrics'')"

text \<open>\<^verbatim>\<open>GET /metrics\<close> answers with the values; their text format is the library's.\<close>

fun route ::
  "'n server \<Rightarrow> platform \<Rightarrow> request_env \<Rightarrow> app_request \<Rightarrow> 'n app \<Rightarrow> app_payload response \<times> 'n app" where
  "route serve P e (PostFile body) s = post_file serve P e body s"
| "route serve P e (PutFile f body) s = put_file serve P e f body s"
| "route serve P e (GetFileInfo f) s = (file_info f s, s)"
| "route serve P e (Download f) s = download serve P e f s"
| "route serve P e (PresignDownload f) s = (presign_download P e f s, s)"
| "route serve P e (DownloadPresigned f query) s = download_presigned serve P e f query s"
| "route serve P e Health s = (reply 200 Healthy, s)"
| "route serve P e MetricsPage s = (reply 200 (Exposition (counters (app_world s))), s)"

text \<open>The client is known by the header \<^verbatim>\<open>x-client-id\<close>, or else by its address.\<close>

definition client_key :: "string option \<Rightarrow> string \<Rightarrow> string" where
  "client_key header ip = (case header of Some (c # cs) \<Rightarrow> c # cs | _ \<Rightarrow> ip)"

definition handle ::
  "'n server \<Rightarrow> platform \<Rightarrow> request_env \<Rightarrow> string option \<times> string \<Rightarrow> app_request \<Rightarrow> 'n app
     \<Rightarrow> app_payload response \<times> 'n app" where
  "handle serve P e client req s =
     observed (route_label req) (elapsed_ms e)
       (limited P (limiter_clock e) (client_key (fst client) (snd client)) (route serve P e req) s)"

end
