(* ===== verification/Durability.thy ===== *)
theory Durability
  imports Server
begin

text \<open>
  The whole system: what holds of the metadata and of the replicas together, whatever requests
  the server handles one after the other, whatever the network does to each call, and whenever
  the collector sweeps.
\<close>

section \<open>Replicas of a chunk\<close>

definition holders :: "sha1 \<Rightarrow> coordinator \<Rightarrow> storage_node world \<Rightarrow> string \<Rightarrow> string set" where
  "holders sha1 co w h =
     (case preferenceList sha1 (co_ring co) h (repl_n co) of
        None \<Rightarrow> {}
      | Some pl \<Rightarrow> {x \<in> set pl. replica co w x h \<noteq> None})"

definition keeps :: "coordinator \<Rightarrow> storage_node world \<Rightarrow> storage_node world \<Rightarrow> bool" where
  "keeps co w w' \<longleftrightarrow> (\<forall>x h b. replica co w x h = Some b \<longrightarrow> replica co w' x h = Some b)"

lemma finite_holders [simp]: "finite (holders sha1 co w h)"
  by (simp add: holders_def split: option.split)

lemma keeps_refl [simp]: "keeps co w w"
  by (simp add: keeps_def)

lemma keeps_trans: "keeps co w1 w2 \<Longrightarrow> keeps co w2 w3 \<Longrightarrow> keeps co w1 w3"
  by (simp add: keeps_def)

lemma keeps_holders: "keeps co w w' \<Longrightarrow> card (holders sha1 co w h) \<le> card (holders sha1 co w' h)"
  by (intro card_mono) (auto simp: holders_def keeps_def split: option.split)

lemma holders_cong:
  "(\<And>x. replica co w' x h = replica co w x h) \<Longrightarrow> holders sha1 co w' h = holders sha1 co w h"
  by (simp add: holders_def split: option.split)

lemma put_keeps:
  assumes "evolves node_copy (put_rel sha h b) w w'"
  shows "keeps co w w'"
  unfolding keeps_def
proof (intro allI impI)
  fix x g c assume c: "replica co w x g = Some c"
  have "replica co w x = replica co w' x \<or> put_rel sha h b (replica co w x) (replica co w' x)"
    by (rule evolves_held [OF assms])
  with c show "replica co w' x g = Some c" by (auto simp: put_rel_def)
qed

lemma putChunk_holders:
  assumes ok: "cluster_ok w" and W: "write_w co = js_nat k"
    and put: "putChunk (node_serve sha) sha1 env co h buf w = (Inr rep, w')"
  shows "k \<le> card (holders sha1 co w' h)"
proof -
  from put obtain pl where pl: "preferenceList sha1 (co_ring co) h (repl_n co) = Some pl"
    by (auto simp: putChunk_def split: option.splits)
  obtain acked where acked: "set acked \<subseteq> set pl" "distinct acked" "k \<le> length acked"
      "\<forall>x \<in> set acked. replica co w' x h \<noteq> None"
    by (rule putChunk_result [OF ok put pl]) (use W in \<open>auto simp: quorum_outcome_def split: if_splits\<close>)
  have "card (set acked) \<le> card (holders sha1 co w' h)"
    using acked by (intro card_mono) (auto simp: holders_def pl)
  with acked show ?thesis by (simp add: distinct_card)
qed

section \<open>Uploads\<close>

lemma upload_loop_result:
  assumes "cluster_ok w" and "cluster_sound sha w"
    and "upload_loop (node_serve sha) sha1 envs co i cs w = (r, w')"
  shows "cluster_ok w' \<and> cluster_sound sha w' \<and> keeps co w w'
    \<and> (write_w co = js_nat k \<longrightarrow> isl r \<or> (\<forall>c \<in> set cs. k \<le> card (holders sha1 co w' (chunk_sha c))))"
  using assms
proof (induction cs arbitrary: i w r)
  case (Cons c cs)
  obtain r1 w1 where put: "putChunk (node_serve sha) sha1 (envs i) co (chunk_sha c) (chunk_data c) w
      = (r1, w1)" by fastforce
  note frame = putChunk_frame [OF Cons.prems(1) put]
  have w1: "cluster_ok w1" "cluster_sound sha w1" "keeps co w w1"
    using frame put_rel_sound [OF Cons.prems(2)] put_keeps by blast+
  show ?case
  proof (cases r1)
    case (Inl e)
    with Cons.prems(3) put w1 show ?thesis by auto
  next
    case (Inr rep)
    obtain r2 where rest: "upload_loop (node_serve sha) sha1 envs co (i + 1) cs w1 = (r2, w')"
      and r: "isl r \<longleftrightarrow> isl r2"
      using Cons.prems(3) put Inr by (auto split: prod.splits sum.splits)
    note IH = Cons.IH [OF w1(1,2) rest]
    have "k \<le> card (holders sha1 co w' (chunk_sha c))" if "write_w co = js_nat k"
      using putChunk_holders [OF Cons.prems(1) that] put Inr keeps_holders IH le_trans by blast
    with IH r w1(3) keeps_trans show ?thesis by auto
  qed
qed simp

lemma uploadChunks_result:
  assumes "cluster_ok w" and "cluster_sound (sha_of P) w"
    and "uploadChunks (node_serve (sha_of P)) P envs co buf w = (r, w')"
  shows "cluster_ok w' \<and> cluster_sound (sha_of P) w' \<and> keeps co w w'"
    and "r = Inr (hashes, results, n) \<Longrightarrow>
      hashes = map (hashChunk (sha_of P)) (blocks DEFAULT_CHUNK_SIZE buf) \<and> n = length buf
      \<and> (write_w co = js_nat k \<longrightarrow> (\<forall>h \<in> set hashes. k \<le> card (holders (sha1_of P) co w' h)))"
proof -
  let ?cs = "numbered (sha_of P) 0 (blocks DEFAULT_CHUNK_SIZE buf)"
  obtain r1 w1 where up: "upload_loop (node_serve (sha_of P)) (sha1_of P) envs co 0 ?cs w = (r1, w1)"
    by fastforce
  note res = upload_loop_result [OF assms(1,2) up]
  have eq: "w' = w1 \<and> (case r1 of Inl e \<Rightarrow> r = Inl e
      | Inr results \<Rightarrow> r = Inr (map chunk_sha ?cs, results, length buf))"
    using assms(3) up by (auto simp: uploadChunks_def chunkBuffer_blocks split: sum.splits)
  with res [of 0] show "cluster_ok w' \<and> cluster_sound (sha_of P) w' \<and> keeps co w w'" by simp
  assume r: "r = Inr (hashes, results, n)"
  then show "hashes = map (hashChunk (sha_of P)) (blocks DEFAULT_CHUNK_SIZE buf) \<and> n = length buf
      \<and> (write_w co = js_nat k \<longrightarrow> (\<forall>h \<in> set hashes. k \<le> card (holders (sha1_of P) co w' h)))"
  proof -
    have names: "chunk_sha ` set ?cs = hashChunk (sha_of P) ` set (blocks DEFAULT_CHUNK_SIZE buf)"
      by (metis list.set_map map_numbered(2))
    have held: "\<forall>h \<in> chunk_sha ` set ?cs. k \<le> card (holders (sha1_of P) co w' h)"
      if "write_w co = js_nat k"
      using eq res [of k] r that by (cases r1) auto
    have "hashes = map (hashChunk (sha_of P)) (blocks DEFAULT_CHUNK_SIZE buf)" "n = length buf"
      using eq r by (cases r1; simp)+
    then show ?thesis using held unfolding names by simp
  qed
qed

section \<open>Downloads\<close>

lemma read_all_ok:
  assumes "cluster_ok w"
    and "\<forall>j < length hs. valid_hash (hs ! j) \<and> (\<exists>x \<in> holders (sha1_of P) co w (hs ! j).
      fate_of (envs (i + j)) x = Deliver)"
    and "cluster_sound (sha_of P) w"
  shows "\<exists>bs w'. read_all (node_serve (sha_of P)) P envs co i hs w = (map (\<lambda>b. Inr (Some b)) bs, w')
    \<and> servers w' = servers w \<and> list_all2 (\<lambda>b h. sha256_hex (sha_of P) b = h) bs hs"
  using assms
proof (induction hs arbitrary: i w)
  case (Cons h hs)
  from Cons.prems(2) have h: "valid_hash h"
    and "\<exists>x \<in> holders (sha1_of P) co w h. fate_of (envs i) x = Deliver"
    by (metis Cons.prems(2) add_0_right length_greater_0_conv list.distinct(1) nth_Cons_0)+
  then obtain x pl b where x: "preferenceList (sha1_of P) (co_ring co) h (repl_n co) = Some pl"
      "x \<in> set pl" "fate_of (envs i) x = Deliver" "replica co w x h = Some b"
    by (auto simp: holders_def split: option.splits)
  have "sha256_hex (sha_of P) b = h" by (rule replica_sound [OF Cons.prems(3) x(4)])
  from getChunk_finds [OF Cons.prems(1) h x this] obtain b' w1 where
    get: "getChunk (node_serve (sha_of P)) (sha_of P) (sha1_of P) (envs i) co h w = (Inr (Some b'), w1)"
      "sha256_hex (sha_of P) b' = h" by blast
  have w1: "servers w1 = servers w"
    using getChunk_servers [OF Cons.prems(1) h, of "sha_of P" "sha1_of P" "envs i" co] get(1) by simp
  have "\<forall>j < length hs. valid_hash (hs ! j) \<and> (\<exists>x \<in> holders (sha1_of P) co w1 (hs ! j).
      fate_of (envs (i + 1 + j)) x = Deliver)"
  proof (intro allI impI)
    fix j assume "j < length hs"
    with Cons.prems(2) [rule_format, of "Suc j"]
    show "valid_hash (hs ! j) \<and> (\<exists>x \<in> holders (sha1_of P) co w1 (hs ! j).
        fate_of (envs (i + 1 + j)) x = Deliver)"
      by (simp add: holders_cong [where w' = w1 and w = w] same_servers(1) [OF w1])
  qed
  moreover have "cluster_ok w1" "cluster_sound (sha_of P) w1"
    using Cons.prems(1,3) by (simp_all add: same_servers(2) [OF w1] cluster_sound_def w1)
  ultimately obtain bs w' where
    "read_all (node_serve (sha_of P)) P envs co (i + 1) hs w1 = (map (\<lambda>b. Inr (Some b)) bs, w')"
      "servers w' = servers w1" "list_all2 (\<lambda>b h. sha256_hex (sha_of P) b = h) bs hs"
    using Cons.IH [of w1 "i + 1"] by blast
  with get w1 show ?case
    by (intro exI [of _ "b' # bs"] exI [of _ w']) simp
qed simp

lemma assemble_ok:
  assumes "length hs = length bs"
  shows "assemble hs (map (\<lambda>b. Inr (Some b)) bs) = reply 200 (Bytes (concat bs))"
proof -
  have "find isl (map (\<lambda>b. Inr (Some b) :: js_error + bytes option) bs) = None"
    by (induction bs) auto
  moreover have "find (\<lambda>(h, p). p = None) (zip hs (map Some bs)) = None"
    using assms by (induction hs bs rule: list_induct2) auto
  moreover have "map (projr \<circ> (\<lambda>b. Inr (Some b) :: js_error + bytes option)) bs = map Some bs" by simp
  ultimately show ?thesis by (simp add: assemble_def comp_def)
qed

lemma read_all_length: "length (fst (read_all serve P envs co i hs w)) = length hs"
  by (induction hs arbitrary: i w) (simp_all add: split_beta Let_def)

lemma assemble_failed:
  assumes "r \<in> set rs" and "\<forall>b. r \<noteq> Inr (Some b)" and "length hs = length rs"
  shows "status (assemble hs rs) = 500"
proof (cases "find isl rs")
  case None
  then have "\<not> isl r" using assms(1) by (simp add: find_None_iff)
  with assms(2) have "r = Inr None" by (cases r) auto
  with assms(1) have "None \<in> set (map projr rs)" by force
  with assms(3) obtain h where "(h, None) \<in> set (zip hs (map projr rs))"
    by (metis in_set_impl_in_set_zip2 length_map)
  then have "find (\<lambda>(h, p). p = None) (zip hs (map projr rs)) \<noteq> None" by (auto simp: find_None_iff)
  with None show ?thesis by (auto simp: assemble_def reply_def Let_def)
qed (simp add: assemble_def reply_def)

section \<open>The database as the server keeps it\<close>

text \<open>
  Every file has at most one version, its current one: an update deletes the version it
  replaces.
\<close>

definition tight :: "metadata \<Rightarrow> bool" where
  "tight db \<longleftrightarrow>
     (\<forall>f row v. getFile db f = Some row \<longrightarrow> current_version_id row = Some v \<longrightarrow>
        v \<noteq> [] \<and> (\<exists>ver. getVersion db v = Some ver \<and> version_file_id ver = f))
     \<and> (\<forall>v ver. getVersion db v = Some ver \<longrightarrow>
        (\<exists>row. getFile db (version_file_id ver) = Some row \<and> current_version_id row = Some v))"

definition names_ok :: "metadata \<Rightarrow> bool" where
  "names_ok db \<longleftrightarrow> (\<forall>h \<in> refcount_hash ` set (chunk_refcounts db). valid_hash h)"

definition db_inv :: "metadata \<Rightarrow> bool" where
  "db_inv db \<longleftrightarrow> metadata_wf db \<and> tight db \<and> names_ok db"

lemma db_inv_empty: "db_inv empty_db"
  using metadata_wf_empty
  by (simp add: db_inv_def tight_def names_ok_def empty_db_def getFile_def getVersion_def)

lemma names_ok_orphans: "names_ok db \<Longrightarrow> orphans_valid db"
  by (auto simp: names_ok_def orphans_valid_def listOrphanedChunks_def list_all_iff)

lemma refs_valid:
  assumes "db_inv db" and "getVersion db v = Some ver" and "h \<in> set (chunkHashes ver)"
  shows "manifest_refs db h \<noteq> 0" and "valid_hash h"
proof -
  have wf: "metadata_wf db" using assms(1) by (simp add: db_inv_def)
  show refs: "manifest_refs db h \<noteq> 0"
    using manifest_refs_zero [OF wf, of h] assms(2,3) by blast
  then have "getRefcount db h \<noteq> 0" using metadata_wfD(6) [OF wf, of h] by simp
  then have "h \<in> refcount_hash ` set (chunk_refcounts db)"
    using count_of_unknown [of h "chunk_refcounts db"] by (auto simp: getRefcount_count_of)
  then show "valid_hash h" using assms(1) by (auto simp: db_inv_def names_ok_def)
qed

lemma createFile_frame:
  assumes "createFile random now db = (r, db')"
  shows "getVersion db' v = getVersion db v" and "manifest_refs db' = manifest_refs db"
    and "db_inv db \<Longrightarrow> db_inv db'"
    and "r = Inr f \<Longrightarrow> getFile db f = None \<and> getFile db' g =
      (if g = f then Some \<lparr>file_id = f, file_created_at = now, current_version_id = None\<rparr>
       else getFile db g)"
    and "r = Inl e \<Longrightarrow> db' = db" and "chunk_refcounts db' = chunk_refcounts db"
proof -
  show counts: "chunk_refcounts db' = chunk_refcounts db"
    using assms by (auto simp: createFile_def Let_def split: if_splits)
  show ver: "getVersion db' v = getVersion db v" for v
    using getVersion_create [of random now db v] assms by simp
  show "manifest_refs db' = manifest_refs db"
    using assms by (auto simp: createFile_def Let_def manifest_refs_def split: if_splits)
  show row: "getFile db f = None \<and> getFile db' g =
      (if g = f then Some \<lparr>file_id = f, file_created_at = now, current_version_id = None\<rparr>
       else getFile db g)" if "r = Inr f" for f g
  proof -
    from assms that have f: "newId ''file'' random = f" "f \<notin> file_id ` set (files db)"
      by (auto simp: createFile_def Let_def split: if_splits)
    then have "getFile db f = None" by (simp only: getFile_def find_key_None not_False_eq_True)
    with getFile_create(2) [OF f, of now g] assms show ?thesis by simp
  qed
  show err: "db' = db" if "r = Inl e" for e
    using assms that by (auto simp: createFile_def Let_def split: if_splits)
  show "db_inv db'" if inv: "db_inv db"
  proof (cases r)
    case (Inl e)
    with err inv show ?thesis by simp
  next
    case (Inr f)
    have "metadata_wf db'" using metadata_wf_create [of db random now] inv assms by (simp add: db_inv_def)
    moreover have "names_ok db'" using inv by (simp add: counts db_inv_def names_ok_def)
    moreover have "tight db'"
      using inv row [OF Inr] ver by (simp add: db_inv_def tight_def) (metis option.distinct(1))
    ultimately show ?thesis by (simp add: db_inv_def)
  qed
qed

text \<open>
  A commit followed by the deletion of the version it replaces, which is what both an update
  and, on a file just created, an upload do.
\<close>

definition replace_version :: "string option \<Rightarrow> metadata \<Rightarrow> metadata" where
  "replace_version previous db =
     (case previous of None \<Rightarrow> db | Some p \<Rightarrow> if p = [] then db else deleteVersion p db)"

lemma commit_ok:
  assumes "metadata_wf db" and "commitVersion random now f hs n db = (Inr v, db1)"
  shows "newId ''ver'' random = v" and "v \<notin> version_id ` set (versions db)"
    and "f \<in> file_id ` set (files db)" and "v \<noteq> []"
    and "db1 = snd (commitVersion random now f hs n db)"
  using assms by (auto simp: commitVersion_eq newId_def split: if_splits)

lemma commit_reads:
  assumes "metadata_wf db" and "commitVersion random now f hs n db = (Inr v, db1)"
  shows "getVersion db1 u = (if u = v then Some \<lparr>version_id = v, version_file_id = f,
      version_size = n, version_created_at = now, chunkHashes = hs\<rparr> else getVersion db u)"
    and "getFile db1 g = (if g = f then map_option (\<lambda>r. r\<lparr>current_version_id := Some v\<rparr>) (getFile db f)
      else getFile db g)"
  using getVersion_commit [OF assms(1) commit_ok(1-3) [OF assms], of now hs n u]
    getFile_commit [OF assms(1) commit_ok(1-3) [OF assms], of now hs n g] assms(2) by simp_all

lemma manifest_refs_commit:
  assumes "metadata_wf db" and "commitVersion random now f hs n db = (Inr v, db1)"
  shows "manifest_refs db1 h = manifest_refs db h + count_list hs h"
  using assms by (auto simp: commitVersion_eq manifest_refs_def frame_simps split: if_splits)

lemma names_ok_commit:
  assumes "metadata_wf db" and "commitVersion random now f hs n db = (Inr v, db1)"
    and "names_ok db" and "\<forall>h \<in> set hs. valid_hash h"
  shows "names_ok db1"
proof -
  have "chunk_refcounts db1 = fold bump_refcount hs (chunk_refcounts db)"
    using assms(1,2) by (auto simp: commitVersion_eq frame_simps split: if_splits)
  with assms(3,4) show ?thesis by (auto simp: names_ok_def set_bumps)
qed

lemma names_ok_delete: "names_ok db \<Longrightarrow> names_ok (deleteVersion v db)"
proof -
  have "refcount_hash ` set (chunk_refcounts (deleteVersion v db)) = refcount_hash ` set (chunk_refcounts db)"
    by (simp add: deleteVersion_eq) (metis list.set_map names_decs)
  then show "names_ok db \<Longrightarrow> names_ok (deleteVersion v db)" by (simp add: names_ok_def)
qed

lemma deleteVersion_refs:
  assumes "metadata_wf db"
  shows "manifest_refs (deleteVersion p db) h \<le> manifest_refs db h"
proof (cases "p \<in> version_id ` set (versions db)")
  case True
  with getRefcount_delete(2) [OF assms True, of h] show ?thesis by simp
next
  case False
  then have "getVersion db p = None" by simp
  then show ?thesis by (simp only: deleteVersion_def option.case order_refl)
qed

text \<open>One file gets a fresh version, and its old one goes.\<close>

lemma tight_replace:
  assumes tight: "tight db" and row: "getFile db f = Some r"
    and fresh: "getVersion db v = None" "v \<noteq> []"
    and files: "\<And>g. getFile db2 g = (if g = f then Some (r\<lparr>current_version_id := Some v\<rparr>) else getFile db g)"
    and ver: "\<And>u. getVersion db2 u = (if u = v then Some \<lparr>version_id = v, version_file_id = f,
      version_size = n, version_created_at = now, chunkHashes = hs\<rparr>
      else if current_version_id r = Some u then None else getVersion db u)"
  shows "tight db2"
  unfolding tight_def
proof (intro conjI allI impI)
  fix g row w assume g: "getFile db2 g = Some row" "current_version_id row = Some w"
  show "w \<noteq> []" using g fresh(2) tight unfolding tight_def by (auto simp: files split: if_splits)
  show "\<exists>ver. getVersion db2 w = Some ver \<and> version_file_id ver = g"
  proof (cases "g = f")
    case True
    with g show ?thesis by (auto simp: files ver)
  next
    case False
    with g have "getFile db g = Some row" by (simp add: files)
    with g(2) tight obtain ver0 where w: "getVersion db w = Some ver0" "version_file_id ver0 = g"
      unfolding tight_def by blast
    have "w \<noteq> v" using w(1) fresh(1) by (metis option.distinct(1))
    moreover have "current_version_id r \<noteq> Some w"
    proof
      assume "current_version_id r = Some w"
      with row tight obtain ver1 where "getVersion db w = Some ver1" "version_file_id ver1 = f"
        unfolding tight_def by blast
      with w False show False by simp
    qed
    ultimately show ?thesis using w by (simp add: ver)
  qed
next
  fix w ver0 assume w: "getVersion db2 w = Some ver0"
  show "\<exists>row. getFile db2 (version_file_id ver0) = Some row \<and> current_version_id row = Some w"
  proof (cases "w = v")
    case True
    with w show ?thesis by (auto simp: files ver)
  next
    case False
    with w have old: "getVersion db w = Some ver0" "current_version_id r \<noteq> Some w"
      by (auto simp: ver split: if_splits)
    with tight obtain row where "getFile db (version_file_id ver0) = Some row"
      "current_version_id row = Some w" unfolding tight_def by blast
    with old(2) row show ?thesis by (auto simp: files)
  qed
qed

lemma replace_ok:
  assumes inv: "db_inv db" and row: "getFile db f = Some r"
    and run: "commitVersion random now f hs n db = (Inr v, db1)"
    and hs: "\<forall>h \<in> set hs. valid_hash h"
    and db2: "db2 = replace_version (current_version_id r) db1"
  shows "db_inv db2"
    and "getFile db2 g = (if g = f then Some (r\<lparr>current_version_id := Some v\<rparr>) else getFile db g)"
    and "getVersion db2 u =
      (if u = v then Some \<lparr>version_id = v, version_file_id = f, version_size = n,
                           version_created_at = now, chunkHashes = hs\<rparr>
       else if current_version_id r = Some u then None else getVersion db u)"
    and "manifest_refs db2 h \<noteq> 0 \<Longrightarrow> manifest_refs db h \<noteq> 0 \<or> h \<in> set hs"
    and "getVersion db v = None" and "v \<noteq> []"
proof -
  have wf: "metadata_wf db" and tight: "tight db" and names: "names_ok db"
    using inv by (simp_all add: db_inv_def)
  note c = commit_ok [OF wf run] and reads = commit_reads [OF wf run]
  show fresh: "getVersion db v = None" using c(2) by simp
  show "v \<noteq> []" by (rule c(4))
  have wf1: "metadata_wf db1" using metadata_wf_commit [OF wf, of random now f hs n] run by simp
  have cur: "p \<noteq> [] \<and> (\<exists>ver. getVersion db p = Some ver \<and> version_file_id ver = f)"
    if "current_version_id r = Some p" for p
    using tight row that unfolding tight_def by blast
  have old: "p \<noteq> v" if "current_version_id r = Some p" for p
    using cur [OF that] fresh by (metis option.distinct(1))
  have step: "db2 = (case current_version_id r of None \<Rightarrow> db1 | Some p \<Rightarrow> deleteVersion p db1)"
    using cur by (simp add: db2 replace_version_def split: option.split)
  show files2: "getFile db2 g = (if g = f then Some (r\<lparr>current_version_id := Some v\<rparr>) else getFile db g)" for g
    by (simp add: step frame_simps reads(2) row split: option.split)
  show ver: "getVersion db2 u = (if u = v then Some \<lparr>version_id = v, version_file_id = f,
      version_size = n, version_created_at = now, chunkHashes = hs\<rparr>
      else if current_version_id r = Some u then None else getVersion db u)" for u
    using old by (auto simp: step getVersion_delete reads(1) split: option.split)
  have "manifest_refs db2 h \<le> manifest_refs db1 h" for h
    using deleteVersion_refs [OF wf1] by (simp add: step split: option.split)
  then show "manifest_refs db h \<noteq> 0 \<or> h \<in> set hs" if "manifest_refs db2 h \<noteq> 0"
    using that manifest_refs_commit [OF wf run, of h] count_notin [of h hs]
    by (metis add.right_neutral le_zero_eq)
  have "metadata_wf db2" "names_ok db2"
    using wf1 metadata_wf_delete names_ok_commit [OF wf run names hs] names_ok_delete
    by (simp_all add: step split: option.split)
  with tight_replace [OF tight row fresh c(4) files2 ver] show "db_inv db2" by (simp add: db_inv_def)
qed

section \<open>The invariant of the system\<close>

definition config_ok :: "nat \<Rightarrow> nat \<Rightarrow> coordinator \<Rightarrow> bool" where
  "config_ok n k co \<longleftrightarrow> ring_wf (co_ring co) \<and> ring_fits (co_ring co)
     \<and> repl_n co = js_nat n \<and> write_w co = js_nat k"

text \<open>
  Every chunk that a version contains has \<open>k\<close> copies on the nodes of its preference list, and
  all copies anywhere are good.
\<close>

definition server_inv :: "nat \<Rightarrow> nat \<Rightarrow> platform \<Rightarrow> storage_node app \<Rightarrow> bool" where
  "server_inv n k P s \<longleftrightarrow> config_ok n k (app_co s) \<and> db_inv (app_db s)
     \<and> cluster_ok (app_world s) \<and> cluster_sound (sha_of P) (app_world s)
     \<and> (\<forall>h. manifest_refs (app_db s) h \<noteq> 0
          \<longrightarrow> k \<le> card (holders (sha1_of P) (app_co s) (app_world s) h))"

text \<open>The collector's step on the state of the server.\<close>

definition gc_step ::
  "platform \<Rightarrow> (string \<Rightarrow> call_env) \<Rightarrow> nat option \<Rightarrow> storage_node app \<Rightarrow> storage_node app" where
  "gc_step P envs hint s =
     (let (r, db, w) = gc_sweep (sha_of P) (sha1_of P) envs (app_co s) hint (app_db s) (app_world s)
      in s\<lparr>app_db := db, app_world := w\<rparr>)"

lemma app_co_frame [frame_simps]:
  "app_co (snd (post_file serve P e body s)) = app_co s"
  "app_co (snd (put_file serve P e f body s)) = app_co s"
  "app_co (snd (download serve P e f s)) = app_co s"
  by (auto simp: post_file_def put_file_def download_def Let_def split_beta
      split: js_value.splits sum.splits option.splits prod.splits)

section \<open>Each handler keeps the invariant\<close>

lemma server_invD:
  assumes "server_inv n k P s"
  shows "config_ok n k (app_co s)" "db_inv (app_db s)" "cluster_ok (app_world s)"
    "cluster_sound (sha_of P) (app_world s)" "metadata_wf (app_db s)" "tight (app_db s)"
    "write_w (app_co s) = js_nat k"
    "manifest_refs (app_db s) h \<noteq> 0
      \<Longrightarrow> k \<le> card (holders (sha1_of P) (app_co s) (app_world s) h)"
  using assms by (auto simp: server_inv_def db_inv_def config_ok_def)

text \<open>
  A change of the state that keeps the copies the manifest needs keeps the invariant.
\<close>

lemma server_inv_update:
  assumes inv: "server_inv n k P s" and db: "db_inv (app_db s')"
    and w: "cluster_ok (app_world s')" "cluster_sound (sha_of P) (app_world s')"
    and co: "app_co s' = app_co s" and keeps: "keeps (app_co s) (app_world s) (app_world s')"
    and new: "\<And>h. manifest_refs (app_db s') h \<noteq> 0 \<Longrightarrow> manifest_refs (app_db s) h \<noteq> 0
      \<or> k \<le> card (holders (sha1_of P) (app_co s) (app_world s') h)"
  shows "server_inv n k P s'"
  unfolding server_inv_def co
proof (intro conjI allI impI)
  fix h assume "manifest_refs (app_db s') h \<noteq> 0"
  from new [OF this] show "k \<le> card (holders (sha1_of P) (app_co s) (app_world s') h)"
    using server_invD(8) [OF inv, of h] keeps_holders [OF keeps, of "sha1_of P" h] by linarith
qed (use server_invD(1) [OF inv] db w in simp_all)

lemma same_servers_keeps:
  assumes "servers w' = servers w"
  shows "keeps co w w'" and "cluster_sound sha w' \<longleftrightarrow> cluster_sound sha w"
  by (simp_all add: keeps_def same_servers(1) [OF assms] cluster_sound_def assms)

lemma server_inv_same:
  assumes "server_inv n k P s" and "app_db s' = app_db s" and "app_co s' = app_co s"
    and "servers (app_world s') = servers (app_world s)"
  shows "server_inv n k P s'"
proof (rule server_inv_update [OF assms(1)])
  note same = same_servers_keeps [OF assms(4)]
  show "keeps (app_co s) (app_world s) (app_world s')" by (rule same(1))
  show "cluster_sound (sha_of P) (app_world s')" "cluster_ok (app_world s')"
    using server_invD(3,4) [OF assms(1)] by (simp_all only: same(2) same_servers(2) [OF assms(4)])
qed (use assms(2,3) server_invD(2) [OF assms(1)] in simp_all)

lemma hashChunk_valid: "h \<in> set (map (hashChunk sha) bs) \<Longrightarrow> valid_hash h"
  by (auto simp: hashChunk_def)

text \<open>An upload by itself, whatever its outcome.\<close>

lemma upload_inv:
  assumes inv: "server_inv n k P s"
    and up: "uploadChunks (node_serve (sha_of P)) P envs (app_co s) buf (app_world s) = (r, w1)"
  shows "server_inv n k P (s\<lparr>app_world := w1\<rparr>)"
  using uploadChunks_result(1) [OF server_invD(3,4) [OF inv] up] server_invD(2) [OF inv]
  by (intro server_inv_update [OF inv]) simp_all

text \<open>The commit at the end of an upload, on a file that is there.\<close>

lemma finish_inv:
  assumes inv: "server_inv n k P s"
    and up: "uploadChunks (node_serve (sha_of P)) P envs (app_co s) buf (app_world s)
      = (Inr (hashes, results, m), w1)"
    and db: "db_inv db" and refs: "manifest_refs db = manifest_refs (app_db s)"
    and row: "getFile db f = Some row"
    and run: "commitVersion random now f hashes m db = (Inr v, db1)"
  shows "server_inv n k P
    (s\<lparr>app_world := w1, app_db := replace_version (current_version_id row) db1\<rparr>)"
proof -
  note w1 = uploadChunks_result(1) [OF server_invD(3,4) [OF inv] up]
  note up2 = uploadChunks_result(2) [OF server_invD(3,4) [OF inv] up refl, of k]
  have valid: "\<forall>h \<in> set hashes. valid_hash h"
    using up2 hashChunk_valid by blast
  note rep = replace_ok [OF db row run valid refl]
  show ?thesis
  proof (rule server_inv_update [OF inv])
    fix h
    assume "manifest_refs (app_db (s\<lparr>app_world := w1,
      app_db := replace_version (current_version_id row) db1\<rparr>)) h \<noteq> 0"
    then have "manifest_refs db h \<noteq> 0 \<or> h \<in> set hashes" using rep(4) [of h] by simp
    then show "manifest_refs (app_db s) h \<noteq> 0 \<or> k \<le> card (holders (sha1_of P) (app_co s)
        (app_world (s\<lparr>app_world := w1, app_db := replace_version (current_version_id row) db1\<rparr>)) h)"
      using up2 server_invD(7) [OF inv] by (auto simp: refs)
  qed (use w1 rep(1) in simp_all)
qed

text \<open>A failed commit leaves the database alone.\<close>

lemma commit_fails:
  assumes "metadata_wf db" and "commitVersion random now f hs n db = (Inl e, db')"
  shows "db' = db"
  using assms by (auto simp: commitVersion_eq split: if_splits)

text \<open>The outcomes of an upload of a new file.\<close>

lemma post_file_cases:
  assumes inv: "server_inv n k P s"
    and run: "post_file (node_serve (sha_of P)) P e body s = (r, s')"
  obtains (refused) "s' = s" "r = reply 400 (ErrorMessage ''expected application/octet-stream body'')"
      "\<nexists>b. body = Buffer b"
  | (failed) err w1 db' where "r = reply 500 (Thrown err)" "s' = s\<lparr>app_world := w1, app_db := db'\<rparr>"
      "db_inv db'" "manifest_refs db' = manifest_refs (app_db s)"
      "chunk_refcounts db' = chunk_refcounts (app_db s)"
      "\<And>v. getVersion db' v = getVersion (app_db s) v"
      "\<And>f. getFile (app_db s) f \<noteq> None \<Longrightarrow> getFile db' f = getFile (app_db s) f"
      "server_inv n k P (s\<lparr>app_world := w1\<rparr>)"
  | (created) buf f v results w1 db1 db2 hashes where "body = Buffer buf"
      "uploadChunks (node_serve (sha_of P)) P (chunk_env e) (app_co s) buf (app_world s)
        = (Inr (hashes, results, length buf), w1)"
      "hashes = map (hashChunk (sha_of P)) (blocks DEFAULT_CHUNK_SIZE buf)"
      "createFile (file_random e) (file_now e) (app_db s) = (Inr f, db1)"
      "commitVersion (version_random e) (version_now e) f hashes (length buf) db1 = (Inr v, db2)"
      "r = reply 201 (Created f v (length hashes) (length buf))"
      "s' = s\<lparr>app_world := w1, app_db := db2\<rparr>"
proof (cases body)
  case (Buffer buf)
  obtain up w1 where up: "uploadChunks (node_serve (sha_of P)) P (chunk_env e) (app_co s) buf
      (app_world s) = (up, w1)" by fastforce
  note inv1 = upload_inv [OF inv up]
  note run = run [unfolded post_file_def Buffer js_value.case Let_def up prod.case]
  show thesis
  proof (cases up)
    case (Inl err)
    with run inv1 server_invD(2) [OF inv] show thesis
      by (intro failed [of err "app_db s" w1]) auto
  next
    case (Inr res)
    obtain hashes results m where res: "res = (hashes, results, m)" by (cases res)
    note up2 = uploadChunks_result(2) [OF server_invD(3,4) [OF inv] up Inr [unfolded res]]
    obtain q db1 where c: "createFile (file_random e) (file_now e) (app_db s) = (q, db1)" by fastforce
    note fr = createFile_frame [OF c]
    show thesis
    proof (cases q)
      case (Inl err)
      with run Inr res c fr(5) inv1 server_invD(2) [OF inv] show thesis
        by (intro failed [of err "app_db s" w1]) auto
    next
      case (Inr f)
      note q = this
      obtain q2 db2 where d: "commitVersion (version_random e) (version_now e) f hashes m db1 = (q2, db2)"
        by fastforce
      have db1: "db_inv db1" by (rule fr(3) [OF server_invD(2) [OF inv]])
      show thesis
      proof (cases q2)
        case (Inl err)
        then have "db2 = db1" using commit_fails d db1 by (auto simp: db_inv_def)
        moreover have "getFile db1 g = getFile (app_db s) g" if "getFile (app_db s) g \<noteq> None" for g
          using fr(4) [OF q, of g] that by auto
        ultimately show thesis
          using run \<open>up = Inr res\<close> res c q d Inl fr(1,2,6) db1 inv1
          by (intro failed [of err db1 w1]) auto
      next
        case (Inr v)
        with run \<open>up = Inr res\<close> res c q d up up2 Buffer show thesis
          by (intro created [of buf hashes results w1 f db1 v db2]) auto
      qed
    qed
  qed
qed (use run refused in \<open>auto simp: post_file_def\<close>)

lemma put_file_cases:
  assumes inv: "server_inv n k P s"
    and run: "put_file (node_serve (sha_of P)) P e f body s = (r, s')"
  obtains (missing) "s' = s" "r = reply 404 (ErrorMessage ''file not found'')"
      "getFile (app_db s) f = None"
  | (refused) "s' = s" "r = reply 400 (ErrorMessage ''expected application/octet-stream body'')"
      "\<nexists>b. body = Buffer b"
  | (failed) err w1 where "r = reply 500 (Thrown err)" "s' = s\<lparr>app_world := w1\<rparr>"
      "server_inv n k P (s\<lparr>app_world := w1\<rparr>)"
  | (updated) row buf hashes results w1 v db1 where "getFile (app_db s) f = Some row" "body = Buffer buf"
      "uploadChunks (node_serve (sha_of P)) P (chunk_env e) (app_co s) buf (app_world s)
        = (Inr (hashes, results, length buf), w1)"
      "hashes = map (hashChunk (sha_of P)) (blocks DEFAULT_CHUNK_SIZE buf)"
      "commitVersion (version_random e) (version_now e) f hashes (length buf) (app_db s) = (Inr v, db1)"
      "r = reply 200 (Updated f v (current_version_id row) (length hashes) (length buf))"
      "s' = s\<lparr>app_world := w1, app_db := replace_version (current_version_id row) db1\<rparr>"
proof (cases "getFile (app_db s) f")
  case None
  with run show thesis by (intro missing) (simp_all add: put_file_def)
next
  case (Some row)
  note run = run [unfolded put_file_def Some option.case]
  show thesis
  proof (cases body)
    case (Buffer buf)
    obtain up w1 where up: "uploadChunks (node_serve (sha_of P)) P (chunk_env e) (app_co s) buf
        (app_world s) = (up, w1)" by fastforce
    note inv1 = upload_inv [OF inv up]
    note run = run [unfolded Buffer js_value.case Let_def up prod.case]
    show thesis
    proof (cases up)
      case (Inl err)
      with run inv1 show thesis by (intro failed [of err w1]) auto
    next
      case (Inr res)
      obtain hashes results m where res: "res = (hashes, results, m)" by (cases res)
      note up2 = uploadChunks_result(2) [OF server_invD(3,4) [OF inv] up Inr [unfolded res]]
      obtain q db1 where d: "commitVersion (version_random e) (version_now e) f hashes m (app_db s) = (q, db1)"
        by fastforce
      show thesis
      proof (cases q)
        case (Inl err)
        then have "db1 = app_db s" using commit_fails d server_invD(5) [OF inv] by auto
        with run Inl Inr res d inv1 show thesis by (intro failed [of err w1]) auto
      next
        case (Inr v)
        with run \<open>up = Inr res\<close> res d up up2 Buffer Some show thesis
          by (intro updated [of row buf hashes results w1 v db1]) (auto simp: replace_version_def)
      qed
    qed
  qed (use run refused in auto)
qed

lemma post_file_inv:
  assumes inv: "server_inv n k P s"
    and run: "post_file (node_serve (sha_of P)) P e body s = (r, s')"
  shows "server_inv n k P s'"
proof (rule post_file_cases [OF inv run])
  fix err w1 db' assume s': "s' = s\<lparr>app_world := w1, app_db := db'\<rparr>" "db_inv db'"
    "manifest_refs db' = manifest_refs (app_db s)" and inv1: "server_inv n k P (s\<lparr>app_world := w1\<rparr>)"
  show ?thesis
    by (rule server_inv_update [OF inv1])
      (use s' server_invD(3,4) [OF inv1] in simp_all)
next
  fix buf f v results w1 db1 db2 hashes
  assume c: "uploadChunks (node_serve (sha_of P)) P (chunk_env e) (app_co s) buf (app_world s)
        = (Inr (hashes, results, length buf), w1)"
      "createFile (file_random e) (file_now e) (app_db s) = (Inr f, db1)"
      "commitVersion (version_random e) (version_now e) f hashes (length buf) db1 = (Inr v, db2)"
    and s': "s' = s\<lparr>app_world := w1, app_db := db2\<rparr>"
  note fr = createFile_frame [OF c(2)]
  have row: "getFile db1 f = Some \<lparr>file_id = f, file_created_at = file_now e, current_version_id = None\<rparr>"
    using fr(4) [OF refl, of f] by simp
  from finish_inv [OF inv c(1) fr(3) [OF server_invD(2) [OF inv]] fr(2) row c(3)]
  show ?thesis by (simp add: s' replace_version_def)
qed (use inv in simp_all)

lemma put_file_inv:
  assumes inv: "server_inv n k P s"
    and run: "put_file (node_serve (sha_of P)) P e f body s = (r, s')"
  shows "server_inv n k P s'"
proof (rule put_file_cases [OF inv run])
  fix row buf hashes results w1 v db1
  assume "getFile (app_db s) f = Some row"
    "uploadChunks (node_serve (sha_of P)) P (chunk_env e) (app_co s) buf (app_world s)
        = (Inr (hashes, results, length buf), w1)"
    "commitVersion (version_random e) (version_now e) f hashes (length buf) (app_db s) = (Inr v, db1)"
    "s' = s\<lparr>app_world := w1, app_db := replace_version (current_version_id row) db1\<rparr>"
  then show ?thesis using finish_inv [OF inv _ server_invD(2) [OF inv] refl] by simp
qed (use inv in simp_all)

lemma read_all_servers:
  assumes "cluster_ok w" and "\<forall>h \<in> set hs. valid_hash h"
  shows "servers (snd (read_all (node_serve (sha_of P)) P envs co i hs w)) = servers w"
  using assms
proof (induction hs arbitrary: i w)
  case (Cons h hs)
  let ?w1 = "snd (getChunk (node_serve (sha_of P)) (sha_of P) (sha1_of P) (envs i) co h w)"
  have w1: "servers ?w1 = servers w" using getChunk_servers Cons.prems by simp
  then have "cluster_ok ?w1" using Cons.prems(1) by (simp add: same_servers(2) [OF w1])
  from Cons.IH [OF this] Cons.prems(2) w1 show ?case by (simp add: Let_def split_beta)
qed simp

lemma download_inv:
  assumes inv: "server_inv n k P s"
    and run: "download (node_serve (sha_of P)) P e f s = (r, s')"
  shows "server_inv n k P s'" and "app_db s' = app_db s"
    and "servers (app_world s') = servers (app_world s)"
proof -
  have "app_db s' = app_db s \<and> app_co s' = app_co s \<and> servers (app_world s') = servers (app_world s)"
  proof (cases "Option.bind (getFile (app_db s) f) current_version_id")
    case (Some v)
    note v = Some
    show ?thesis
    proof (cases "getVersion (app_db s) v")
      case None
      show ?thesis
        using run [unfolded download_def v None option.case] by (auto split: if_splits)
    next
      case (Some ver)
      have "\<forall>h \<in> set (chunkHashes ver). valid_hash h"
        using refs_valid(2) [OF server_invD(2) [OF inv] Some] by blast
      from read_all_servers [OF server_invD(3) [OF inv] this] run Some v
      show ?thesis by (auto simp: download_def Let_def split_beta split: if_splits)
    qed
  qed (use run in \<open>auto simp: download_def\<close>)
  then show "server_inv n k P s'" "app_db s' = app_db s"
    "servers (app_world s') = servers (app_world s)"
    using server_inv_same [OF inv] by simp_all
qed

lemma server_inv_limiter [simp]:
  "server_inv n k P (s\<lparr>app_limiter := rl\<rparr>) \<longleftrightarrow> server_inv n k P s"
  by (simp add: server_inv_def)

lemma limited_cases:
  assumes "limited P clock key handler s = (r, s')"
  obtains (passed) rl where "handler (s\<lparr>app_limiter := rl\<rparr>) = (r, s')"
    "fst (allow (round_of P) clock key 1 (app_limiter s))"
  | (blocked) rl where "r = reply 429 (ErrorMessage ''rate limit exceeded'')"
      "s' = s\<lparr>app_limiter := rl, app_world := bump inc_rateLimitRejections (app_world s)\<rparr>"
      "\<not> fst (allow (round_of P) clock key 1 (app_limiter s))"
  using assms by (auto simp: limited_def Let_def split_beta split: if_splits)

text \<open>States that differ in the rate limiter and the metrics only.\<close>

definition same_data :: "'n app \<Rightarrow> 'n app \<Rightarrow> bool" where
  "same_data s s' \<longleftrightarrow> app_co s' = app_co s \<and> app_db s' = app_db s
     \<and> servers (app_world s') = servers (app_world s)"

lemma same_dataD:
  assumes "same_data s s'"
  shows "app_co s' = app_co s" "app_db s' = app_db s" "servers (app_world s') = servers (app_world s)"
  using assms by (simp_all add: same_data_def)

lemma same_data_inv: "same_data s s' \<Longrightarrow> server_inv n k P s \<Longrightarrow> server_inv n k P s'"
  by (rule server_inv_same) (simp_all add: same_data_def)

lemma same_data_trans: "same_data s s1 \<Longrightarrow> same_data s1 s2 \<Longrightarrow> same_data s s2"
  by (simp add: same_data_def)

lemma observed_cases:
  assumes "observed label ms answer = (r, s')"
  obtains s1 where "answer = (r, s1)" and "same_data s1 s'"
  using assms by (cases answer) (auto simp: observed_def same_data_def)

text \<open>The download behind a signature changes no data, whatever becomes of it.\<close>

lemma presigned_same:
  assumes inv: "server_inv n k P s"
    and run: "download_presigned (node_serve (sha_of P)) P e f query s = (r, s')"
  shows "same_data s s'"
proof (cases "same_data s s'")
  case False
  then have "s' \<noteq> s" by (auto simp: same_data_def)
  then have "observed (''GET'', ''/files/:fileId/download'') (inject_elapsed_ms e)
      (limited P (inject_clock e) (inject_ip P) (download (node_serve (sha_of P)) P e f) s) = (r, s')"
    using run by (auto simp: download_presigned_def split: sum.splits presign_error.splits)
  then obtain s1 where lim: "limited P (inject_clock e) (inject_ip P) (download (node_serve (sha_of P)) P e f) s
      = (r, s1)" and s': "same_data s1 s'"
    by (rule observed_cases)
  have "same_data s s1"
  proof (rule limited_cases [OF lim])
    fix rl assume run: "download (node_serve (sha_of P)) P e f (s\<lparr>app_limiter := rl\<rparr>) = (r, s1)"
    from download_inv(2,3) [OF _ run] app_co_frame(3) [of "node_serve (sha_of P)" P e f "s\<lparr>app_limiter := rl\<rparr>"] run inv
    show ?thesis by (simp add: same_data_def)
  qed (simp add: same_data_def)
  with s' show ?thesis by (simp add: same_data_trans)
qed

text \<open>A request reaches its route, or is refused.\<close>

lemma handle_cases:
  assumes "handle serve P e client req s = (r, s')"
  obtains (passed) rl s1 where "route serve P e req (s\<lparr>app_limiter := rl\<rparr>) = (r, s1)" "same_data s1 s'"
    "fst (allow (round_of P) (limiter_clock e) (client_key (fst client) (snd client)) 1 (app_limiter s))"
  | (blocked) "r = reply 429 (ErrorMessage ''rate limit exceeded'')" "same_data s s'"
    "\<not> fst (allow (round_of P) (limiter_clock e) (client_key (fst client) (snd client)) 1 (app_limiter s))"
proof (rule observed_cases [OF assms [unfolded handle_def]])
  fix s1 assume lim: "limited P (limiter_clock e) (client_key (fst client) (snd client)) (route serve P e req) s
      = (r, s1)" and s': "same_data s1 s'"
  show thesis
  proof (rule limited_cases [OF lim])
    fix rl assume "r = reply 429 (ErrorMessage ''rate limit exceeded'')"
      "s1 = s\<lparr>app_limiter := rl, app_world := bump inc_rateLimitRejections (app_world s)\<rparr>"
      "\<not> fst (allow (round_of P) (limiter_clock e) (client_key (fst client) (snd client)) 1 (app_limiter s))"
    with s' blocked show thesis by (simp add: same_data_def)
  qed (use s' passed in blast)
qed

lemma route_inv:
  assumes inv: "server_inv n k P s"
    and run: "route (node_serve (sha_of P)) P e req s = (r, s')"
  shows "server_inv n k P s'"
proof (cases req)
  case (PostFile body)
  with post_file_inv [OF inv] run show ?thesis by simp
next
  case (PutFile f body)
  with put_file_inv [OF inv] run show ?thesis by simp
next
  case (Download f)
  with download_inv(1) [OF inv] run show ?thesis by simp
next
  case (DownloadPresigned f query)
  with same_data_inv [OF presigned_same [OF inv] inv] run show ?thesis by simp
qed (use inv run in simp_all)

lemma handle_inv:
  assumes inv: "server_inv n k P s"
    and run: "handle (node_serve (sha_of P)) P e client req s = (r, s')"
  shows "server_inv n k P s'"
proof (rule handle_cases [OF run])
  fix rl s1 assume "route (node_serve (sha_of P)) P e req (s\<lparr>app_limiter := rl\<rparr>) = (r, s1)" "same_data s1 s'"
  with route_inv [of n k P "s\<lparr>app_limiter := rl\<rparr>"] inv same_data_inv show ?thesis by auto
qed (use inv same_data_inv in blast)

lemma gc_step_frame:
  assumes inv: "server_inv n k P s"
  shows "db_inv (app_db (gc_step P envs hint s)) \<and> cluster_ok (app_world (gc_step P envs hint s))
    \<and> cluster_sound (sha_of P) (app_world (gc_step P envs hint s))
    \<and> app_co (gc_step P envs hint s) = app_co s
    \<and> files (app_db (gc_step P envs hint s)) = files (app_db s)
    \<and> versions (app_db (gc_step P envs hint s)) = versions (app_db s)
    \<and> manifest_chunks (app_db (gc_step P envs hint s)) = manifest_chunks (app_db s)
    \<and> (\<forall>h x. manifest_refs (app_db s) h \<noteq> 0 \<longrightarrow>
         replica (app_co s) (app_world (gc_step P envs hint s)) x h = replica (app_co s) (app_world s) x h)"
proof -
  obtain r db w where run: "gc_sweep (sha_of P) (sha1_of P) envs (app_co s) hint (app_db s) (app_world s)
      = (r, db, w)" by (cases rule: prod_cases3)
  have names: "names_ok (app_db s)" using server_invD(2) [OF inv] by (simp add: db_inv_def)
  note orph = names_ok_orphans [OF names]
  note frame = gc_sweep_frame [OF server_invD(5,3) [OF inv] orph run]
  have "refcount_hash ` set (chunk_refcounts db) \<subseteq> refcount_hash ` set (chunk_refcounts (app_db s))"
    using gc_sweep_complete [OF server_invD(5,3) [OF inv] orph _ _ _ run] server_invD(1) [OF inv]
    by (auto simp: config_ok_def)
  with names have "names_ok db" by (auto simp: names_ok_def)
  moreover have "tight db"
  proof -
    have "getFile db = getFile (app_db s)" "getVersion db = getVersion (app_db s)"
      using frame by (auto simp: getFile_def fun_eq_iff intro!: getVersion_cong)
    with server_invD(6) [OF inv] show ?thesis by (simp add: tight_def)
  qed
  moreover have "cluster_sound (sha_of P) w"
    by (rule gc_sweep_sound [OF server_invD(5,3) [OF inv] orph server_invD(4) [OF inv] run])
  moreover have "h \<notin> set (listOrphanedChunks (app_db s))" if "manifest_refs (app_db s) h \<noteq> 0" for h
    using that orphan_iff [OF server_invD(5) [OF inv], of h] by simp
  ultimately show ?thesis
    using frame by (simp add: gc_step_def run db_inv_def)
qed

lemma gc_step_inv:
  assumes inv: "server_inv n k P s"
  shows "server_inv n k P (gc_step P envs hint s)"
proof -
  note frame = gc_step_frame [OF inv, of envs hint]
  have refs: "manifest_refs (app_db (gc_step P envs hint s)) = manifest_refs (app_db s)"
    using frame by (simp add: manifest_refs_def fun_eq_iff)
  have "k \<le> card (holders (sha1_of P) (app_co s) (app_world (gc_step P envs hint s)) h)"
    if ref: "manifest_refs (app_db s) h \<noteq> 0" for h
  proof -
    have "holders (sha1_of P) (app_co s) (app_world (gc_step P envs hint s)) h
        = holders (sha1_of P) (app_co s) (app_world s) h"
      by (rule holders_cong) (use frame ref in blast)
    with server_invD(8) [OF inv ref] show ?thesis by simp
  qed
  then show ?thesis
    using frame server_invD(1) [OF inv] by (simp add: server_inv_def refs)
qed

end
