(* ===== verification/EndToEnd.thy ===== *)
theory EndToEnd
  imports Durability
begin

text \<open>
  The properties of the whole system: what a client that was told its upload succeeded can
  rely on, over any later sequence of requests and sweeps, and what the handlers answer when
  something goes wrong.
\<close>

section \<open>Runs of the system\<close>

text \<open>
  A step is one request, of a kind that \<open>allowed\<close> admits, by any client in any circumstances,
  or one sweep of the collector. Requests are handled one after the other.
\<close>

inductive server_step ::
  "platform \<Rightarrow> (app_request \<Rightarrow> bool) \<Rightarrow> storage_node app \<Rightarrow> storage_node app \<Rightarrow> bool"
  for P allowed where
  request: "allowed req \<Longrightarrow> handle (node_serve (sha_of P)) P e client req s = (r, s')
    \<Longrightarrow> server_step P allowed s s'"
| sweep: "server_step P allowed s (gc_step P envs hint s)"

inductive_cases server_stepE: "server_step P allowed s s'"

lemma server_step_inv:
  "server_step P allowed s s' \<Longrightarrow> server_inv n k P s \<Longrightarrow> server_inv n k P s'"
  by (elim server_stepE) (auto intro: handle_inv gc_step_inv)

lemma server_run_inv:
  "rtranclp (server_step P allowed) s s' \<Longrightarrow> server_inv n k P s \<Longrightarrow> server_inv n k P s'"
  by (induction rule: rtranclp_induct) (auto intro: server_step_inv)

lemma app_co_route [frame_simps]: "app_co (snd (route serve P e req s)) = app_co s"
  by (cases req) (auto simp: frame_simps download_presigned_def observed_def limited_def Let_def split_beta
      split: sum.splits presign_error.splits)

lemma server_step_co: "server_step P allowed s s' \<Longrightarrow> app_co s' = app_co s"
proof (elim server_stepE)
  fix req e client r
  assume "handle (node_serve (sha_of P)) P e client req s = (r, s')"
  then show "app_co s' = app_co s"
  proof (cases rule: handle_cases)
    case (passed rl s1)
    then show ?thesis
      using app_co_route [of "node_serve (sha_of P)" P e req "s\<lparr>app_limiter := rl\<rparr>"] by (simp add: same_data_def)
  qed (simp add: same_data_def)
qed (simp add: gc_step_def split_beta)

text \<open>The current version of a file and the chunks it consists of.\<close>

definition stored_version :: "storage_node app \<Rightarrow> string \<Rightarrow> string \<Rightarrow> string list \<Rightarrow> bool" where
  "stored_version s f v hs \<longleftrightarrow>
     (\<exists>row ver. getFile (app_db s) f = Some row \<and> current_version_id row = Some v
        \<and> getVersion (app_db s) v = Some ver \<and> chunkHashes ver = hs)"

text \<open>Only an update of the file itself replaces its version.\<close>

lemma stored_version_other:
  assumes inv: "server_inv n k P s" and f: "stored_version s f v hs"
    and g: "getFile (app_db s) g = Some row" "g \<noteq> f"
  shows "current_version_id row \<noteq> Some v"
proof
  assume "current_version_id row = Some v"
  with server_invD(6) [OF inv] g(1) obtain ver where
    "getVersion (app_db s) v = Some ver" "version_file_id ver = g"
    unfolding tight_def by blast
  moreover obtain row' where "getFile (app_db s) f = Some row'" "current_version_id row' = Some v"
    using f by (auto simp: stored_version_def)
  then obtain ver' where "getVersion (app_db s) v = Some ver'" "version_file_id ver' = f"
    using server_invD(6) [OF inv] unfolding tight_def by blast
  ultimately show False using g(2) by simp
qed

lemma stored_version_post:
  assumes inv: "server_inv n k P s" and f: "stored_version s f v hs"
    and run: "post_file (node_serve (sha_of P)) P e body s = (r, s')"
  shows "stored_version s' f v hs"
proof (rule post_file_cases [OF inv run])
  fix err w1 db' assume "s' = s\<lparr>app_world := w1, app_db := db'\<rparr>"
    "\<And>v. getVersion db' v = getVersion (app_db s) v"
    "\<And>f. getFile (app_db s) f \<noteq> None \<Longrightarrow> getFile db' f = getFile (app_db s) f"
  with f show ?thesis by (auto simp: stored_version_def)
next
  fix buf f' v' results w1 db1 db2 hashes
  assume c: "hashes = map (hashChunk (sha_of P)) (blocks DEFAULT_CHUNK_SIZE buf)"
      "createFile (file_random e) (file_now e) (app_db s) = (Inr f', db1)"
      "commitVersion (version_random e) (version_now e) f' hashes (length buf) db1 = (Inr v', db2)"
    and s': "s' = s\<lparr>app_world := w1, app_db := db2\<rparr>"
  note fr = createFile_frame [OF c(2)]
  have row: "getFile db1 f' = Some \<lparr>file_id = f', file_created_at = file_now e, current_version_id = None\<rparr>"
    using fr(4) [OF refl, of f'] by simp
  have "\<forall>h \<in> set hashes. valid_hash h" using hashChunk_valid c(1) by blast
  note rep = replace_ok [OF fr(3) [OF server_invD(2) [OF inv]] row c(3) this refl]
  have same: "replace_version (current_version_id \<lparr>file_id = f', file_created_at = file_now e,
      current_version_id = None\<rparr>) db2 = db2" by (simp add: replace_version_def)
  obtain fr1 ver where f1: "getFile (app_db s) f = Some fr1" "current_version_id fr1 = Some v"
      "getVersion (app_db s) v = Some ver" "chunkHashes ver = hs"
    using f by (auto simp: stored_version_def)
  have "f \<noteq> f'" using fr(4) [OF refl, of f'] f1(1) by auto
  moreover have "v \<noteq> v'" using rep(5) fr(1) [of v] f1(3) by (metis option.distinct(1))
  ultimately show ?thesis
    using f1 rep(2) [of f, unfolded same] rep(3) [of v, unfolded same] fr(4) [OF refl, of f] fr(1) [of v]
    by (auto simp: stored_version_def s')
qed (use f in simp_all)

lemma stored_version_put:
  assumes inv: "server_inv n k P s" and f: "stored_version s f v hs"
    and run: "put_file (node_serve (sha_of P)) P e g body s = (r, s')" and g: "g \<noteq> f"
  shows "stored_version s' f v hs"
proof (rule put_file_cases [OF inv run])
  fix row buf hashes results w1 v' db1
  assume c: "getFile (app_db s) g = Some row"
    "hashes = map (hashChunk (sha_of P)) (blocks DEFAULT_CHUNK_SIZE buf)"
    "commitVersion (version_random e) (version_now e) g hashes (length buf) (app_db s) = (Inr v', db1)"
    and s': "s' = s\<lparr>app_world := w1, app_db := replace_version (current_version_id row) db1\<rparr>"
  have "\<forall>h \<in> set hashes. valid_hash h" using hashChunk_valid c(2) by blast
  note rep = replace_ok [OF server_invD(2) [OF inv] c(1,3) this refl]
  obtain fr1 ver where f1: "getFile (app_db s) f = Some fr1" "current_version_id fr1 = Some v"
      "getVersion (app_db s) v = Some ver" "chunkHashes ver = hs"
    using f by (auto simp: stored_version_def)
  have "v \<noteq> v'" using rep(5) f1(3) by (metis option.distinct(1))
  then show ?thesis
    using f1 g rep(2) [of f] rep(3) [of v] stored_version_other [OF inv f c(1) g]
    by (simp add: stored_version_def s')
qed (use f in \<open>simp_all add: stored_version_def\<close>)

lemma stored_version_same:
  "stored_version s f v hs \<Longrightarrow> app_db s' = app_db s \<Longrightarrow> stored_version s' f v hs"
  by (simp add: stored_version_def)

lemma stored_version_route:
  assumes inv: "server_inv n k P s" and f: "stored_version s f v hs"
    and run: "route (node_serve (sha_of P)) P e req s = (r, s')"
    and req: "\<forall>body. req \<noteq> PutFile f body"
  shows "stored_version s' f v hs"
proof (cases req)
  case (PostFile body)
  with stored_version_post [OF inv f] run show ?thesis by simp
next
  case (PutFile g body)
  with req have "g \<noteq> f" by blast
  with stored_version_put [OF inv f] run PutFile show ?thesis by simp
next
  case (Download g)
  with download_inv(2) [OF inv] run show ?thesis by (intro stored_version_same [OF f]) simp
next
  case (DownloadPresigned g query)
  then have "download_presigned (node_serve (sha_of P)) P e g query s = (r, s')" using run by simp
  from same_dataD(2) [OF presigned_same [OF inv this]] show ?thesis by (rule stored_version_same [OF f])
qed (use f run in simp_all)

lemma stored_version_step:
  assumes "server_step P (\<lambda>req. \<forall>body. req \<noteq> PutFile f body) s s'"
    and inv: "server_inv n k P s" and f: "stored_version s f v hs"
  shows "stored_version s' f v hs"
  using assms(1)
proof (elim server_stepE)
  fix req e client r
  assume request: "\<forall>body. req \<noteq> PutFile f body"
    "handle (node_serve (sha_of P)) P e client req s = (r, s')"
  show ?thesis
  proof (rule handle_cases [OF request(2)])
    fix rl s1 assume run: "route (node_serve (sha_of P)) P e req (s\<lparr>app_limiter := rl\<rparr>) = (r, s1)"
      and s': "same_data s1 s'"
    from stored_version_route [OF _ _ run request(1)] inv stored_version_same [OF f]
    have "stored_version s1 f v hs" by simp
    then show ?thesis by (rule stored_version_same [OF _ same_dataD(2) [OF s']])
  qed (use stored_version_same [OF f] same_dataD(2) in blast)
next
  fix envs hint assume sweep: "s' = gc_step P envs hint s"
  note frame = gc_step_frame [OF inv, of envs hint]
  have "getFile (app_db s') = getFile (app_db s)" "getVersion (app_db s') = getVersion (app_db s)"
    using frame by (auto simp: sweep getFile_def fun_eq_iff intro!: getVersion_cong)
  with f show ?thesis by (simp add: stored_version_def)
qed

lemma stored_version_run:
  assumes "rtranclp (server_step P (\<lambda>req. \<forall>body. req \<noteq> PutFile f body)) s s'"
    and "server_inv n k P s" and "stored_version s f v hs"
  shows "stored_version s' f v hs"
  using assms
proof (induction rule: rtranclp_induct)
  case (step y z)
  have "server_inv n k P y" by (rule server_run_inv [OF step.hyps(1) step.prems(1)])
  from stored_version_step [OF step.hyps(2) this step.IH [OF step.prems]] show ?case .
qed

section \<open>A download with some nodes gone\<close>

lemma holders_survive:
  assumes "server_inv n k P s" and "manifest_refs (app_db s) h \<noteq> 0"
    and "finite bad" and "card bad < k"
  shows "\<exists>x \<in> holders (sha1_of P) (app_co s) (app_world s) h. x \<notin> bad"
proof (rule ccontr)
  assume "\<not> ?thesis"
  then have "card (holders (sha1_of P) (app_co s) (app_world s) h) \<le> card bad"
    using assms(3) by (intro card_mono) auto
  with server_invD(8) [OF assms(1,2)] assms(4) show False by simp
qed

lemma download_stored:
  assumes inv: "server_inv n k P s" and f: "stored_version s f v hs"
    and bad: "finite bad" "card bad < k"
    and up: "\<forall>i x. x \<notin> bad \<longrightarrow> fate_of (chunk_env e i) x = Deliver"
  shows "\<exists>bs s'. download (node_serve (sha_of P)) P e f s = (reply 200 (Bytes (concat bs)), s')
    \<and> list_all2 (\<lambda>b h. sha256_hex (sha_of P) b = h) bs hs"
proof -
  obtain row ver where ver: "getFile (app_db s) f = Some row" "current_version_id row = Some v"
      "getVersion (app_db s) v = Some ver" "chunkHashes ver = hs"
    using f by (auto simp: stored_version_def)
  have v: "v \<noteq> []" using server_invD(6) [OF inv] ver(1,2) unfolding tight_def by blast
  have "\<forall>j < length hs. valid_hash (hs ! j) \<and> (\<exists>x \<in> holders (sha1_of P) (app_co s) (app_world s) (hs ! j).
      fate_of (chunk_env e (0 + j)) x = Deliver)"
  proof (intro allI impI conjI)
    fix j assume "j < length hs"
    then have "hs ! j \<in> set (chunkHashes ver)" by (simp add: ver(4))
    note refs = refs_valid [OF server_invD(2) [OF inv] ver(3) this]
    show "valid_hash (hs ! j)" by (rule refs(2))
    show "\<exists>x \<in> holders (sha1_of P) (app_co s) (app_world s) (hs ! j).
        fate_of (chunk_env e (0 + j)) x = Deliver"
      using holders_survive [OF inv refs(1) bad] up by auto
  qed
  from read_all_ok [OF server_invD(3) [OF inv] this server_invD(4) [OF inv]]
  obtain bs w' where read: "read_all (node_serve (sha_of P)) P (chunk_env e) (app_co s) 0 hs
      (app_world s) = (map (\<lambda>b. Inr (Some b)) bs, w')"
    and bs: "list_all2 (\<lambda>b h. sha256_hex (sha_of P) b = h) bs hs" by blast
  have "assemble hs (map (\<lambda>b. Inr (Some b)) bs) = reply 200 (Bytes (concat bs))"
    using list_all2_lengthD [OF bs] by (intro assemble_ok) simp
  then have "download (node_serve (sha_of P)) P e f s
      = (reply 200 (Bytes (concat bs)), s\<lparr>app_world := w'\<rparr>)"
    by (simp add: download_def ver(1,2) v) (simp add: ver(3,4) read)
  with bs show ?thesis by blast
qed

text \<open>
  Chunks with the digests of the blocks of a file are these blocks, unless two of them have
  the same digest without being the same.
\<close>

definition same_content :: "sha256 \<Rightarrow> bytes \<Rightarrow> bytes list \<Rightarrow> bool" where
  "same_content sha buf bs \<longleftrightarrow>
     list_all2 (\<lambda>b c. sha b = sha c) bs (blocks DEFAULT_CHUNK_SIZE buf)
     \<and> (inj_on sha (set bs \<union> set (blocks DEFAULT_CHUNK_SIZE buf)) \<longrightarrow> concat bs = buf)"

lemma same_contentI:
  assumes "list_all2 (\<lambda>b h. sha256_hex sha b = h) bs (map (hashChunk sha) (blocks DEFAULT_CHUNK_SIZE buf))"
  shows "same_content sha buf bs"
proof -
  let ?cs = "blocks DEFAULT_CHUNK_SIZE buf"
  have eq: "list_all2 (\<lambda>b c. sha b = sha c) bs ?cs"
    using assms by (simp add: list_all2_map2 hashChunk_def)
  have "bs = ?cs" if inj: "inj_on sha (set bs \<union> set ?cs)"
  proof (rule nth_equalityI)
    show "length bs = length ?cs" by (rule list_all2_lengthD [OF eq])
    show "bs ! i = ?cs ! i" if "i < length bs" for i
      using list_all2_nthD [OF eq that] list_all2_lengthD [OF eq] that
      by (intro inj_onD [OF inj]) auto
  qed
  with eq show ?thesis
    unfolding same_content_def by (metis DEFAULT_CHUNK_SIZE_pos concat_blocks)
qed

text \<open>
  The promise to the client: whatever requests (but updates of the file) and sweeps follow, a
  download during which fewer than \<open>k\<close> nodes are unreachable or misbehave returns the file.
\<close>

definition readable :: "platform \<Rightarrow> nat \<Rightarrow> storage_node app \<Rightarrow> string \<Rightarrow> bytes \<Rightarrow> bool" where
  "readable P k s f buf \<longleftrightarrow>
     (\<forall>s2 e bad. rtranclp (server_step P (\<lambda>req. \<forall>body. req \<noteq> PutFile f body)) s s2
        \<longrightarrow> finite bad \<longrightarrow> card bad < k \<longrightarrow> (\<forall>i x. x \<notin> bad \<longrightarrow> fate_of (chunk_env e i) x = Deliver)
        \<longrightarrow> (\<exists>bs s3. route (node_serve (sha_of P)) P e (Download f) s2 = (reply 200 (Bytes (concat bs)), s3)
              \<and> same_content (sha_of P) buf bs))"

lemma stored_readable:
  assumes inv: "server_inv n k P s"
    and f: "stored_version s f v (map (hashChunk (sha_of P)) (blocks DEFAULT_CHUNK_SIZE buf))"
  shows "readable P k s f buf"
  unfolding readable_def
proof (intro allI impI)
  fix s2 and e :: request_env and bad :: "string set"
  assume run: "rtranclp (server_step P (\<lambda>req. \<forall>body. req \<noteq> PutFile f body)) s s2"
    and bad: "finite bad" "card bad < k" "\<forall>i x. x \<notin> bad \<longrightarrow> fate_of (chunk_env e i) x = Deliver"
  have "\<exists>bs s3. download (node_serve (sha_of P)) P e f s2 = (reply 200 (Bytes (concat bs)), s3)
      \<and> list_all2 (\<lambda>b h. sha256_hex (sha_of P) b = h) bs
            (map (hashChunk (sha_of P)) (blocks DEFAULT_CHUNK_SIZE buf))"
    by (rule download_stored [OF server_run_inv [OF run inv] stored_version_run [OF run inv f] bad(1,2)])
      (use bad(3) in blast)
  then show "\<exists>bs s3. route (node_serve (sha_of P)) P e (Download f) s2 = (reply 200 (Bytes (concat bs)), s3)
      \<and> same_content (sha_of P) buf bs"
    using same_contentI by fastforce
qed

lemma post_created:
  assumes inv: "server_inv n k P s"
    and run: "post_file (node_serve (sha_of P)) P e body s = (r, s')" and "status r = 201"
  obtains buf f v where "body = Buffer buf" "getFile (app_db s) f = None"
    "r = reply 201 (Created f v (length (blocks DEFAULT_CHUNK_SIZE buf)) (length buf))"
    "stored_version s' f v (map (hashChunk (sha_of P)) (blocks DEFAULT_CHUNK_SIZE buf))"
proof (rule post_file_cases [OF inv run])
  fix buf f v results w1 db1 db2 hashes
  assume c: "body = Buffer buf" "hashes = map (hashChunk (sha_of P)) (blocks DEFAULT_CHUNK_SIZE buf)"
      "createFile (file_random e) (file_now e) (app_db s) = (Inr f, db1)"
      "commitVersion (version_random e) (version_now e) f hashes (length buf) db1 = (Inr v, db2)"
      "r = reply 201 (Created f v (length hashes) (length buf))"
      "s' = s\<lparr>app_world := w1, app_db := db2\<rparr>"
  note fr = createFile_frame [OF c(3)]
  have row: "getFile db1 f = Some \<lparr>file_id = f, file_created_at = file_now e, current_version_id = None\<rparr>"
    using fr(4) [OF refl, of f] by simp
  have "\<forall>h \<in> set hashes. valid_hash h" using hashChunk_valid c(2) by blast
  note rep = replace_ok [OF fr(3) [OF server_invD(2) [OF inv]] row c(4) this refl]
  have same: "replace_version (current_version_id \<lparr>file_id = f, file_created_at = file_now e,
      current_version_id = None\<rparr>) db2 = db2" by (simp add: replace_version_def)
  show thesis
  proof (rule that)
    show "stored_version s' f v (map (hashChunk (sha_of P)) (blocks DEFAULT_CHUNK_SIZE buf))"
      using rep(2) [of f, unfolded same] rep(3) [of v, unfolded same]
      by (simp add: stored_version_def c(2,6))
  qed (use c fr(4) [OF refl, of f] in simp_all)
qed (use assms(3) in simp_all)

lemma put_updated:
  assumes inv: "server_inv n k P s"
    and run: "put_file (node_serve (sha_of P)) P e f body s = (r, s')" and "status r = 200"
  obtains buf row v where "body = Buffer buf" "getFile (app_db s) f = Some row"
    "r = reply 200 (Updated f v (current_version_id row) (length (blocks DEFAULT_CHUNK_SIZE buf)) (length buf))"
    "stored_version s' f v (map (hashChunk (sha_of P)) (blocks DEFAULT_CHUNK_SIZE buf))"
    "\<And>p. current_version_id row = Some p \<Longrightarrow> getVersion (app_db s') p = None"
proof (rule put_file_cases [OF inv run])
  fix row buf hashes results w1 v db1
  assume c: "getFile (app_db s) f = Some row" "body = Buffer buf"
    "hashes = map (hashChunk (sha_of P)) (blocks DEFAULT_CHUNK_SIZE buf)"
    "commitVersion (version_random e) (version_now e) f hashes (length buf) (app_db s) = (Inr v, db1)"
    "r = reply 200 (Updated f v (current_version_id row) (length hashes) (length buf))"
    "s' = s\<lparr>app_world := w1, app_db := replace_version (current_version_id row) db1\<rparr>"
  have "\<forall>h \<in> set hashes. valid_hash h" using hashChunk_valid c(3) by blast
  note rep = replace_ok [OF server_invD(2) [OF inv] c(1,4) this refl]
  show thesis
  proof (rule that)
    show "stored_version s' f v (map (hashChunk (sha_of P)) (blocks DEFAULT_CHUNK_SIZE buf))"
      using rep(2) [of f] rep(3) [of v] by (simp add: stored_version_def c(3,6))
    show "getVersion (app_db s') p = None" if p: "current_version_id row = Some p" for p
    proof -
      obtain ver where "getVersion (app_db s) p = Some ver"
        using server_invD(6) [OF inv] c(1) p unfolding tight_def by blast
      then have "p \<noteq> v" using rep(5) by (metis option.distinct(1))
      then have "getVersion (replace_version (current_version_id row) db1) p = None"
        using rep(3) [of p] p by presburger
      then show ?thesis by (metis c(6) app.select_convs(2) app.surjective app.update_convs(2))
    qed
  qed (use c in simp_all)
qed (use assms(3) in simp_all)

section \<open>The server as it starts\<close>

text \<open>The node list of a server: the argument of \<open>buildServer\<close>, or else the environment's.\<close>

definition server_nodes ::
  "environment \<Rightarrow> (string \<times> string option) list option \<Rightarrow> (string \<times> string option) list" where
  "server_nodes env topology = (case topology of Some ns \<Rightarrow> ns | None \<Rightarrow> loadTopology env)"

lemma manifest_refs_empty [simp]: "manifest_refs empty_db h = 0"
  by (simp add: manifest_refs_def empty_db_def)

lemma built_server_inv:
  assumes "100 * length (server_nodes env topology) < 2 ^ 31"
    and "env_number (number_of P) (REPLICATION_FACTOR env) 3 = js_nat n"
    and "env_number (number_of P) (WRITE_QUORUM env) 2 = js_nat k"
    and "cluster_ok w" and "cluster_sound (sha_of P) w"
  shows "server_inv (min n (length (server_nodes env topology))) (min k (length (server_nodes env topology)))
    P (buildServer P env topology w)"
proof -
  let ?ns = "server_nodes env topology"
  let ?co = "build_coordinator (sha1_of P) (number_of P) env 100 ?ns"
  have co: "app_co (buildServer P env topology w) = ?co"
    and rest: "app_db (buildServer P env topology w) = empty_db"
      "app_world (buildServer P env topology w) = w"
    by (simp_all add: buildServer_def server_nodes_def)
  note ring = build_coordinator_ring [where ?sha1.0 = "sha1_of P" and num = "number_of P" and env = env
      and vn = 100 and nodes = ?ns]
  have "repl_n ?co = js_nat (min n (length ?ns))" "write_w ?co = js_nat (min k (length ?ns))"
    using assms(2,3) by (simp_all add: build_coordinator_def)
  then show ?thesis
    using ring(1,4) assms(1,4,5) by (simp add: server_inv_def config_ok_def co rest db_inv_empty)
qed

text \<open>A file has at most one version.\<close>

lemma tight_versions:
  assumes wf: "metadata_wf db" and tight: "tight db"
  shows "length (listVersions db f) \<le> 1"
proof -
  let ?vs = "filter (\<lambda>r. version_file_id r = f) (versions db)"
  have cur: "\<exists>row. getFile db f = Some row \<and> current_version_id row = Some (version_id r)"
    if "r \<in> set ?vs" for r
  proof -
    from that have r: "r \<in> set (versions db)" "version_file_id r = f" by auto
    then obtain ver where ver: "getVersion db (version_id r) = Some ver"
      by (metis getVersion_None imageI not_None_eq)
    have "distinct (map version_id (versions db))" using metadata_wfD [OF wf] by blast
    then have "find (\<lambda>q. version_id q = version_id r) (versions db) = Some r"
      using r(1) by (simp add: find_by_key)
    with ver r(2) have "version_file_id ver = f" by (auto simp: getVersion_def)
    with tight ver show ?thesis unfolding tight_def by blast
  qed
  have "r = q" if "r \<in> set ?vs" "q \<in> set ?vs" for r q
  proof -
    have "version_id r = version_id q" using cur [OF that(1)] cur [OF that(2)] by auto
    moreover have "inj_on version_id (set (versions db))"
      using metadata_wfD [OF wf] by (metis distinct_map)
    ultimately show ?thesis using that by (auto dest: inj_onD)
  qed
  moreover have "distinct ?vs" using metadata_wfD [OF wf] by (metis distinct_filter distinct_map)
  ultimately have "length ?vs \<le> 1"
    by (metis card_le_Suc0_iff_eq distinct_card finite_set One_nat_def)
  then show ?thesis by (simp add: listVersions_def)
qed

section \<open>What requests leave alone\<close>

text \<open>Requests that do not store anything.\<close>

fun reads_only :: "app_request \<Rightarrow> bool" where
  "reads_only (PostFile body) = False"
| "reads_only (PutFile f body) = False"
| "reads_only req = True"

lemma route_reads:
  assumes inv: "server_inv n k P s" and req: "reads_only req"
    and run: "route (node_serve (sha_of P)) P e req s = (r, s')"
  shows "app_db s' = app_db s \<and> servers (app_world s') = servers (app_world s)"
proof (cases req)
  case (Download f)
  with download_inv(2,3) [OF inv] run show ?thesis by simp
next
  case (DownloadPresigned f query)
  then have "download_presigned (node_serve (sha_of P)) P e f query s = (r, s')" using run by simp
  from same_dataD(2,3) [OF presigned_same [OF inv this]] show ?thesis by simp
qed (use req run in simp_all)

text \<open>No request removes a copy from a node.\<close>

lemma app_world_upload [frame_simps]:
  "app_world (snd (post_file serve P e body s)) =
     (case body of Buffer buf \<Rightarrow> snd (uploadChunks serve P (chunk_env e) (app_co s) buf (app_world s))
      | _ \<Rightarrow> app_world s)"
  "app_world (snd (put_file serve P e f body s)) =
     (if getFile (app_db s) f = None then app_world s
      else case body of Buffer buf \<Rightarrow> snd (uploadChunks serve P (chunk_env e) (app_co s) buf (app_world s))
      | _ \<Rightarrow> app_world s)"
  by (auto simp: post_file_def put_file_def Let_def split_beta
      split: js_value.splits sum.splits option.splits prod.splits)

lemma upload_keeps:
  assumes "server_inv n k P s"
  shows "keeps co (app_world s)
    (snd (uploadChunks (node_serve (sha_of P)) P envs co buf (app_world s)))"
  using uploadChunks_result(1) [OF server_invD(3,4) [OF assms] prod.collapse [symmetric]] by blast

lemma route_keeps:
  assumes inv: "server_inv n k P s"
    and run: "route (node_serve (sha_of P)) P e req s = (r, s')"
  shows "keeps (app_co s) (app_world s) (app_world s')"
proof (cases "reads_only req")
  case True
  with route_reads [OF inv _ run] same_servers_keeps(1) show ?thesis by blast
next
  case False
  then consider body where "req = PostFile body" | f body where "req = PutFile f body"
    by (cases req) auto
  then show ?thesis
  proof cases
    case (1 body)
    with run app_world_upload(1) [of "node_serve (sha_of P)" P e body s] upload_keeps [OF inv]
    show ?thesis by (auto split: js_value.splits)
  next
    case (2 f body)
    with run app_world_upload(2) [of "node_serve (sha_of P)" P e f body s] upload_keeps [OF inv]
    show ?thesis by (auto split: js_value.splits if_splits)
  qed
qed

lemma handle_keeps:
  assumes inv: "server_inv n k P s"
    and run: "handle (node_serve (sha_of P)) P e client req s = (r, s')"
  shows "keeps (app_co s) (app_world s) (app_world s')"
proof (rule handle_cases [OF run])
  fix rl s1 assume run: "route (node_serve (sha_of P)) P e req (s\<lparr>app_limiter := rl\<rparr>) = (r, s1)"
    and s': "same_data s1 s'"
  from route_keeps [OF _ run] inv have "keeps (app_co s) (app_world s) (app_world s1)" by simp
  then show ?thesis using same_dataD(3) [OF s'] by (simp add: keeps_def held_def)
qed (use same_dataD(3) same_servers_keeps(1) in blast)

lemma handle_reads:
  assumes inv: "server_inv n k P s" and req: "reads_only req"
    and run: "handle (node_serve (sha_of P)) P e client req s = (r, s')"
  shows "app_db s' = app_db s \<and> servers (app_world s') = servers (app_world s)"
proof (rule handle_cases [OF run])
  fix rl s1 assume run: "route (node_serve (sha_of P)) P e req (s\<lparr>app_limiter := rl\<rparr>) = (r, s1)"
    and "same_data s1 s'"
  with route_reads [OF _ req run] inv show ?thesis by (simp add: same_data_def)
qed (simp add: same_data_def)

text \<open>A request that is not answered with success.\<close>

lemma route_failed:
  assumes inv: "server_inv n k P s"
    and run: "route (node_serve (sha_of P)) P e req s = (r, s')" and "status r \<notin> {200, 201}"
  shows "(\<forall>v. getVersion (app_db s') v = getVersion (app_db s) v)
    \<and> (\<forall>f row. getFile (app_db s) f = Some row \<longrightarrow> getFile (app_db s') f = Some row)
    \<and> chunk_refcounts (app_db s') = chunk_refcounts (app_db s)"
proof (cases "reads_only req")
  case True
  with route_reads [OF inv _ run] show ?thesis by simp
next
  case False
  then consider body where "req = PostFile body" | f body where "req = PutFile f body"
    by (cases req) auto
  then show ?thesis
  proof cases
    case (1 body)
    with run have "post_file (node_serve (sha_of P)) P e body s = (r, s')" by simp
    then show ?thesis
      by (rule post_file_cases [OF inv]) (use assms(3) in simp_all)
  next
    case (2 f body)
    with run have "put_file (node_serve (sha_of P)) P e f body s = (r, s')" by simp
    then show ?thesis
      by (rule put_file_cases [OF inv]) (use assms(3) in simp_all)
  qed
qed

lemma handle_failed:
  assumes inv: "server_inv n k P s"
    and run: "handle (node_serve (sha_of P)) P e client req s = (r, s')" and "status r \<notin> {200, 201}"
  shows "(\<forall>v. getVersion (app_db s') v = getVersion (app_db s) v)
    \<and> (\<forall>f row. getFile (app_db s) f = Some row \<longrightarrow> getFile (app_db s') f = Some row)
    \<and> chunk_refcounts (app_db s') = chunk_refcounts (app_db s)"
proof (rule handle_cases [OF run])
  fix rl s1 assume run: "route (node_serve (sha_of P)) P e req (s\<lparr>app_limiter := rl\<rparr>) = (r, s1)"
    and "same_data s1 s'"
  with route_failed [OF _ run assms(3)] inv show ?thesis by (simp add: same_data_def)
qed (simp add: same_data_def)

text \<open>A chunk that the table of counts does not know stays where it is.\<close>

lemma unlisted_sweep:
  assumes inv: "server_inv n k P s" and h: "h \<notin> refcount_hash ` set (chunk_refcounts (app_db s))"
  shows "h \<notin> refcount_hash ` set (chunk_refcounts (app_db (gc_step P envs hint s)))
    \<and> replica (app_co s) (app_world (gc_step P envs hint s)) x h = replica (app_co s) (app_world s) x h"
proof -
  obtain r db w where run: "gc_sweep (sha_of P) (sha1_of P) envs (app_co s) hint (app_db s) (app_world s)
      = (r, db, w)" by (cases rule: prod_cases3)
  have orph: "orphans_valid (app_db s)"
    using server_invD(2) [OF inv] by (auto simp: db_inv_def intro: names_ok_orphans)
  have "h \<notin> set (listOrphanedChunks (app_db s))" using h by (auto simp: listOrphanedChunks_def)
  moreover have "h \<notin> refcount_hash ` set (chunk_refcounts db)"
    using gc_sweep_complete [OF server_invD(5,3) [OF inv] orph _ _ _ run] server_invD(1) [OF inv] h
    by (auto simp: config_ok_def)
  ultimately show ?thesis
    using gc_sweep_frame [OF server_invD(5,3) [OF inv] orph run] by (simp add: gc_step_def run)
qed

lemma unlisted_step:
  assumes "server_step P reads_only s s'" and inv: "server_inv n k P s"
    and h: "h \<notin> refcount_hash ` set (chunk_refcounts (app_db s))"
  shows "h \<notin> refcount_hash ` set (chunk_refcounts (app_db s'))
    \<and> replica (app_co s) (app_world s') x h = replica (app_co s) (app_world s) x h"
  using assms(1)
proof (elim server_stepE)
  fix req e client r
  assume "reads_only req" "handle (node_serve (sha_of P)) P e client req s = (r, s')"
  from handle_reads [OF inv this] h same_servers(1) show ?thesis by metis
qed (use unlisted_sweep [OF inv h] in simp)

lemma unlisted_run:
  assumes "rtranclp (server_step P reads_only) s s'" and inv: "server_inv n k P s"
    and h: "h \<notin> refcount_hash ` set (chunk_refcounts (app_db s))"
  shows "h \<notin> refcount_hash ` set (chunk_refcounts (app_db s')) \<and> app_co s' = app_co s
    \<and> replica (app_co s) (app_world s') x h = replica (app_co s) (app_world s) x h"
  using assms(1)
proof (induction rule: rtranclp_induct)
  case (step y z)
  have "server_inv n k P y" by (rule server_run_inv [OF step.hyps(1) inv])
  from unlisted_step [OF step.hyps(2) this, of h x] step.IH server_step_co [OF step.hyps(2)]
  show ?case by simp
qed (simp add: h)

section \<open>A small system for the examples\<close>

definition demo_platform :: platform where
  "demo_platform = \<lparr>sha_of = demo_sha, sha1_of = (\<lambda>_. 0), hmac_of = (\<lambda>_ _. 0), secret_of = ''key'',
     number_of = (\<lambda>_. NaN), string_of = (\<lambda>_. []), round_of = (\<lambda>x. x), inject_ip = ''127.0.0.1''\<rparr>"

definition demo_environment :: environment where
  "demo_environment = \<lparr>STORAGE_NODES = None, REPLICATION_FACTOR = None, WRITE_QUORUM = None\<rparr>"

lemma demo_nodes: "100 * length (server_nodes demo_environment None) < 2 ^ 31"
  by (simp add: server_nodes_def loadTopology_def demo_environment_def)

lemma demo_few_nodes: "100 * length (loadTopology demo_environment) < 2 ^ 31"
  by (simp add: loadTopology_def demo_environment_def)

lemma demo_numbers:
  "env_number (number_of demo_platform) None 4 = js_nat 4"
  "env_number (number_of demo_platform) (REPLICATION_FACTOR demo_environment) 3 = js_nat 3"
  "env_number (number_of demo_platform) (WRITE_QUORUM demo_environment) 2 = js_nat 2"
  by (simp_all add: env_number_def demo_environment_def)

definition demo_request :: "string set \<Rightarrow> bytes \<Rightarrow> request_env" where
  "demo_request down random = \<lparr>limiter_clock = (0, 0), inject_clock = (0, 0), file_now = 1,
     version_now = 1, sign_now = 1, file_random = random, version_random = random, elapsed_ms = 1, inject_elapsed_ms = 1,
     chunk_env = (\<lambda>_. demo_env down)\<rparr>"

definition demo_app :: "storage_node app" where
  "demo_app = \<lparr>app_co = demo, app_db = empty_db, app_limiter = new_limiter 500 300,
     app_world = demo_world\<rparr>"

lemma demo_app_inv: "server_inv 3 2 demo_platform demo_app"
proof -
  have "manifest_refs empty_db h = 0" for h by (simp add: manifest_refs_def empty_db_def)
  with demo_config demo_world_sound [of demo_sha] show ?thesis
    by (simp add: server_inv_def demo_app_def demo_platform_def config_ok_def db_inv_empty demo_world_ok)
      (simp add: demo_def)
qed

lemma demo_chunks: "blocks DEFAULT_CHUNK_SIZE [b] = [[b]]"
  by (simp add: blocks_step DEFAULT_CHUNK_SIZE_def)

text \<open>The same system with one file that has no version yet.\<close>

definition demo_file_app :: "storage_node app" where
  "demo_file_app = demo_app\<lparr>app_db := snd (createFile [1] 1 empty_db)\<rparr>"

lemma demo_file_id: "newId ''file'' [1] = ''file_01''"
  by code_simp

lemma demo_file_row:
  "getFile (app_db demo_file_app) ''file_01''
    = Some \<lparr>file_id = ''file_01'', file_created_at = 1, current_version_id = None\<rparr>"
  by (simp add: demo_file_app_def createFile_def empty_db_def Let_def demo_file_id getFile_def)

lemma demo_file_app_inv: "server_inv 3 2 demo_platform demo_file_app"
proof -
  note fr = createFile_frame [where random = "[1]" and now = 1 and db = empty_db,
      OF prod.collapse [symmetric]]
  show ?thesis
    unfolding demo_file_app_def
    by (rule server_inv_update [OF demo_app_inv])
      (use fr(2,3) db_inv_empty server_invD(3,4) [OF demo_app_inv] in \<open>simp_all add: demo_app_def\<close>)
qed

lemma demo_no_replica: "replica demo demo_world x h = None"
  by (simp add: held_def demo_world_def demo_def node_copy_build)

lemma demo_upload_chunks:
  obtains rep w1 where "uploadChunks (node_serve demo_sha) demo_platform (\<lambda>_. demo_env {''b''}) demo
      [9] demo_world = (Inr ([sha256_hex demo_sha [9]], [rep], 1), w1)"
    "\<exists>x. replica demo w1 x (sha256_hex demo_sha [9]) = Some [9]"
proof -
  have down: "\<exists>x \<in> {''a'', ''b'', ''c''}. {''b''} \<subseteq> {x}" by simp
  let ?h = "sha256_hex demo_sha [9]"
  obtain rep w1 where put: "putChunk (node_serve demo_sha) (\<lambda>_. 0) (demo_env {''b''}) demo
      ?h [9] demo_world = (Inr rep, w1)"
    using demo_put [OF down refl] by blast
  have "write_w demo = js_nat 2" by (simp add: demo_def)
  from putChunk_holders [OF demo_world_ok this put]
  have "holders (\<lambda>_. 0) demo w1 ?h \<noteq> {}" by auto
  then obtain x b where b: "replica demo w1 x ?h = Some b"
    by (auto simp: holders_def split: option.splits)
  have "replica demo w1 x ?h = Some [9]"
  proof -
    have "evolves node_copy (put_rel demo_sha ?h [9]) demo_world w1"
      using putChunk_frame [OF demo_world_ok put] by blast
    from evolves_held [OF this, of "nodesById demo" x] b demo_no_replica [of x ?h] show ?thesis
      by (auto simp: put_rel_def)
  qed
  with put that show thesis
    by (auto simp: uploadChunks_def chunkBuffer_blocks demo_chunks demo_platform_def hashChunk_def)
qed

lemma demo_upload:
  "\<exists>r s1. route (node_serve demo_sha) demo_platform (demo_request {''b''} [1])
     (PostFile (Buffer [9])) demo_app = (r, s1) \<and> status r = 201"
proof (rule demo_upload_chunks)
  fix rep w1
  assume "uploadChunks (node_serve demo_sha) demo_platform (\<lambda>_. demo_env {''b''}) demo
      [9] demo_world = (Inr ([sha256_hex demo_sha [9]], [rep], 1), w1)"
  then show ?thesis
    by (simp add: post_file_def demo_request_def demo_app_def createFile_def empty_db_def Let_def
        commitVersion_def commit_chunks.simps)
qed

lemma demo_update:
  "\<exists>r s1. route (node_serve demo_sha) demo_platform (demo_request {''b''} [1])
     (PutFile ''file_01'' (Buffer [9])) demo_file_app = (r, s1) \<and> status r = 200"
proof (rule demo_upload_chunks)
  fix rep w1
  assume "uploadChunks (node_serve demo_sha) demo_platform (\<lambda>_. demo_env {''b''}) demo
      [9] demo_world = (Inr ([sha256_hex demo_sha [9]], [rep], 1), w1)"
  then show ?thesis
    using demo_file_row
    by (simp add: put_file_def demo_request_def demo_file_app_def demo_app_def createFile_def
        empty_db_def Let_def commitVersion_def commit_chunks.simps demo_file_id)
qed

lemma demo_failed_upload:
  "\<exists>r s1 x. route (node_serve demo_sha) demo_platform (demo_request {''b''} [1])
      (PostFile (Buffer [9])) demo_file_app = (r, s1) \<and> status r = 500
    \<and> replica demo (app_world s1) x (sha256_hex demo_sha [9]) = Some [9]"
proof (rule demo_upload_chunks)
  fix rep w1
  assume "uploadChunks (node_serve demo_sha) demo_platform (\<lambda>_. demo_env {''b''}) demo
      [9] demo_world = (Inr ([sha256_hex demo_sha [9]], [rep], 1), w1)"
    "\<exists>x. replica demo w1 x (sha256_hex demo_sha [9]) = Some [9]"
  then show ?thesis
    by (simp add: post_file_def demo_request_def demo_file_app_def demo_app_def createFile_def
        empty_db_def Let_def)
qed

end
