(* ===== verification/Cluster.thy ===== *)
theory Cluster
  imports EndToEnd
begin

text \<open>
  \<^verbatim>\<open>src/cluster.js\<close>: a primary process that forks worker processes and replaces each one that
  exits. A worker is a server of its own, with its own rate limiter and counters; all of them
  share the metadata file and the storage nodes.
\<close>

section \<open>The code\<close>

record 'n deployment =
  d_workers :: "(nat \<times> rate_limiter \<times> metrics) list"
  d_next :: nat
  d_primary :: bool
  d_co :: coordinator
  d_db :: metadata
  d_servers :: "string \<Rightarrow> 'n option"

text \<open>\<^verbatim>\<open>cluster.fork()\<close>: the new worker calls \<^verbatim>\<open>buildServer\<close> and gets a fresh limiter.\<close>

definition fork :: "'n deployment \<Rightarrow> 'n deployment" where
  "fork d = d\<lparr>d_workers := d_workers d @ [(d_next d, new_limiter 500 300, no_metrics)],
              d_next := d_next d + 1\<rparr>"

partial_function (option) fork_loop :: "jsnum \<Rightarrow> nat \<Rightarrow> 'n deployment \<Rightarrow> 'n deployment option" where
  "fork_loop numWorkers i d =
     (if js_less (js_nat i) numWorkers then fork_loop numWorkers (i + 1) (fork d) else Some d)"

text \<open>\<open>None\<close>: the primary never stops forking.\<close>

definition start_primary ::
  "platform \<Rightarrow> environment \<Rightarrow> string option \<Rightarrow> nat \<Rightarrow> 'n world \<Rightarrow> 'n deployment option" where
  "start_primary P env WEB_CONCURRENCY availableParallelism w =
     (let s = buildServer P env None w
      in fork_loop (env_number (number_of P) WEB_CONCURRENCY availableParallelism) 0
           \<lparr>d_workers = [], d_next = 1, d_primary = True, d_co = app_co s, d_db = app_db s,
            d_servers = servers w\<rparr>)"

text \<open>The server in one worker.\<close>

definition worker_app :: "'n deployment \<Rightarrow> rate_limiter \<times> metrics \<Rightarrow> 'n app" where
  "worker_app d own =
     \<lparr>app_co = d_co d, app_db = d_db d, app_limiter = fst own,
      app_world = \<lparr>servers = d_servers d, counters = snd own\<rparr>\<rparr>"

definition share :: "'n app \<Rightarrow> 'n deployment \<Rightarrow> 'n deployment" where
  "share s d = d\<lparr>d_db := app_db s, d_servers := servers (app_world s)\<rparr>"

text \<open>
  One worker serves a request; a worker exits, for whatever reason, and is replaced; a collector
  sweeps; the primary is told to stop and takes its workers with it.
\<close>

inductive cluster_step :: "platform \<Rightarrow> storage_node deployment \<Rightarrow> storage_node deployment \<Rightarrow> bool" for P where
  request: "d_workers d = us @ (i, own) # ws
    \<Longrightarrow> handle (node_serve (sha_of P)) P e client req (worker_app d own) = (r, s')
    \<Longrightarrow> cluster_step P d (share s' d
          \<lparr>d_workers := us @ (i, app_limiter s', counters (app_world s')) # ws\<rparr>)"
| worker_exit: "d_primary d \<Longrightarrow> d_workers d = us @ (i, own) # ws
    \<Longrightarrow> cluster_step P d (fork (d\<lparr>d_workers := us @ ws\<rparr>))"
| collect: "cluster_step P d (share (gc_step P envs hint (worker_app d own)) d)"
| sigterm: "d_primary d \<Longrightarrow> cluster_step P d (d\<lparr>d_primary := False, d_workers := []\<rparr>)"

section \<open>Forking\<close>

text \<open>The number of iterations of a loop that counts up to a JavaScript number.\<close>

definition js_count :: "jsnum \<Rightarrow> nat" where
  "js_count n = (case n of Fin q \<Rightarrow> nat \<lceil>q\<rceil> | _ \<Rightarrow> 0)"

lemma js_less_count: "n \<noteq> PosInf \<Longrightarrow> js_less (js_nat i) n \<longleftrightarrow> i < js_count n"
proof (cases n)
  case (Fin q)
  have "of_nat i < q \<longleftrightarrow> int i < \<lceil>q\<rceil>" by (metis less_ceiling_iff of_int_of_nat_eq)
  with Fin show ?thesis by (simp add: js_nat_def js_count_def) linarith
qed (simp_all add: js_nat_def js_count_def)

lemma fork_loop_endless:
  assumes "fork_loop n i d = Some d'"
  shows "n \<noteq> PosInf"
proof (rule fork_loop.raw_induct [where P = "\<lambda>n i d d'. n \<noteq> PosInf", OF _ assms])
  fix loop n i d and d' :: "'a deployment"
  assume "\<And>n i d d'. loop n i d = Some d' \<Longrightarrow> n \<noteq> PosInf"
    "(if js_less (js_nat i) n then loop n (i + 1) (fork d) else Some d) = Some d'"
  then show "n \<noteq> PosInf" by (cases "js_less (js_nat i) n") (auto simp: js_nat_def)
qed

lemma fork_loop_counts:
  assumes "n \<noteq> PosInf"
  shows "fork_loop n i d = Some ((fork ^^ (js_count n - i)) d)"
proof (induction "js_count n - i" arbitrary: i d)
  case 0
  then have "\<not> js_less (js_nat i) n" by (simp add: js_less_count [OF assms])
  with 0 show ?case by (subst fork_loop.simps) simp
next
  case (Suc k)
  then have i: "js_less (js_nat i) n" and k: "k = js_count n - (i + 1)"
    by (simp_all add: js_less_count [OF assms])
  have "(fork ^^ (js_count n - i)) d = (fork ^^ k) (fork d)"
    unfolding Suc(2) [symmetric] funpow_Suc_right by simp
  with Suc(1) [OF k, of "fork d"] i show ?case
    by (subst fork_loop.simps) (simp add: k)
qed

lemma fork_loop_returns: "fork_loop n i d = None \<longleftrightarrow> n = PosInf"
  using fork_loop_counts [of n i d] fork_loop_endless [of n i d]
  by (cases "fork_loop n i d") auto

lemma funpow_fork [simp]:
  "d_primary ((fork ^^ k) d) = d_primary d" "d_co ((fork ^^ k) d) = d_co d"
  "d_db ((fork ^^ k) d) = d_db d" "d_servers ((fork ^^ k) d) = d_servers d"
  "length (d_workers ((fork ^^ k) d)) = length (d_workers d) + k"
  by (induction k) (simp_all add: fork_def)

section \<open>The pool of workers\<close>

definition pool_ok :: "nat \<Rightarrow> 'n deployment \<Rightarrow> bool" where
  "pool_ok n d \<longleftrightarrow> length (d_workers d) = (if d_primary d then n else 0)
     \<and> distinct (map fst (d_workers d)) \<and> (\<forall>i \<in> fst ` set (d_workers d). i < d_next d)"

lemma pool_fork: "pool_ok n d \<Longrightarrow> d_primary d \<Longrightarrow> pool_ok (Suc n) (fork d)"
  by (auto simp: pool_ok_def fork_def)

lemma pool_forks: "pool_ok 0 d \<Longrightarrow> d_primary d \<Longrightarrow> pool_ok k ((fork ^^ k) d)"
  by (induction k) (simp_all add: pool_fork)

lemma pool_step:
  assumes "cluster_step P d d'" and "pool_ok n d"
  shows "pool_ok n d'"
  using assms
proof (induction rule: cluster_step.induct)
  case (worker_exit d us i own ws)
  then obtain m where m: "n = m + 1" by (cases n) (auto simp: pool_ok_def)
  have "pool_ok m (d\<lparr>d_workers := us @ ws\<rparr>)"
    using worker_exit m by (auto simp: pool_ok_def)
  from pool_fork [OF this] worker_exit(1) show ?case by (simp add: m)
qed (auto simp: pool_ok_def share_def)

section \<open>The store behind the workers\<close>

lemma server_inv_worker:
  "server_inv n k P (worker_app d own) \<longleftrightarrow> server_inv n k P (worker_app d own')"
proof -
  have "servers (app_world (worker_app d own)) = servers (app_world (worker_app d own'))"
    by (simp add: worker_app_def)
  note same = same_servers [OF this] same_servers_keeps(2) [OF this]
  have "server_inv n k P (worker_app d own) = (config_ok n k (d_co d) \<and> db_inv (d_db d)
     \<and> cluster_ok (app_world (worker_app d own)) \<and> cluster_sound (sha_of P) (app_world (worker_app d own))
     \<and> (\<forall>h. manifest_refs (d_db d) h \<noteq> 0
          \<longrightarrow> k \<le> card (holders (sha1_of P) (d_co d) (app_world (worker_app d own)) h)))" for own
    by (simp add: server_inv_def worker_app_def)
  then show ?thesis by (simp only: same holders_def)
qed

lemma worker_share:
  assumes "server_inv n k P s'" and "app_co s' = d_co d"
  shows "server_inv n k P (worker_app (share s' d) own)"
proof -
  have "worker_app (share s' d) (app_limiter s', counters (app_world s')) = s'"
    using assms(2) by (simp add: worker_app_def share_def)
  with assms(1) show ?thesis using server_inv_worker by metis
qed

lemma worker_app_shared [simp]:
  "worker_app (d\<lparr>d_workers := ws\<rparr>) own = worker_app d own"
  "worker_app (d\<lparr>d_primary := b\<rparr>) own = worker_app d own"
  "worker_app (fork d) own = worker_app d own"
  by (simp_all add: worker_app_def fork_def)

lemma cluster_step_inv:
  assumes "cluster_step P d d'" and inv: "\<And>own. server_inv n k P (worker_app d own)"
  shows "server_inv n k P (worker_app d' own)"
  using assms(1)
proof (cases rule: cluster_step.cases)
  case (request us i own' ws e client req r s')
  have "server_step P (\<lambda>_. True) (worker_app d own') s'"
    by (rule server_step.request [OF _ request(3)]) simp
  from server_step_co [OF this] have "app_co s' = d_co d" by (simp add: worker_app_def)
  then show ?thesis
    unfolding request(1) worker_app_shared by (rule worker_share [OF handle_inv [OF inv request(3)]])
next
  case (worker_exit us i own' ws)
  with inv show ?thesis by simp
next
  case (collect envs hint own')
  have "app_co (gc_step P envs hint (worker_app d own')) = d_co d"
    by (simp add: gc_step_def worker_app_def split_beta)
  with gc_step_inv [OF inv] show ?thesis unfolding collect by (intro worker_share)
next
  case sigterm
  with inv show ?thesis by simp
qed

lemma cluster_run_inv:
  assumes "rtranclp (cluster_step P) d d'" and "\<And>own. server_inv n k P (worker_app d own)"
  shows "server_inv n k P (worker_app d' own)"
  using assms by (induction arbitrary: own rule: rtranclp_induct) (blast intro: cluster_step_inv)+

lemma start_primary_forks:
  assumes "start_primary P env web cores w = Some d"
  shows "d = (fork ^^ js_count (env_number (number_of P) web cores))
    \<lparr>d_workers = [], d_next = 1, d_primary = True, d_co = app_co (buildServer P env None w),
     d_db = app_db (buildServer P env None w), d_servers = servers w\<rparr>" (is "d = (fork ^^ _) ?d0")
  using assms fork_loop_counts [of "env_number (number_of P) web cores" 0 ?d0] fork_loop_endless
  by (simp add: start_primary_def Let_def) fastforce

lemma start_primary_db:
  assumes "start_primary P env web cores w = Some d"
  shows "d_db d = empty_db"
  by (subst start_primary_forks [OF assms]) (simp add: buildServer_def Let_def)

lemma start_primary_inv:
  assumes "100 * length (loadTopology env) < 2 ^ 31"
    and "env_number (number_of P) (REPLICATION_FACTOR env) 3 = js_nat n"
    and "env_number (number_of P) (WRITE_QUORUM env) 2 = js_nat k"
    and "cluster_ok w" and "cluster_sound (sha_of P) w"
    and "start_primary P env web cores w = Some d"
  shows "server_inv (min n (length (loadTopology env))) (min k (length (loadTopology env))) P (worker_app d own)"
proof -
  let ?s = "buildServer P env None w"
  let ?k = "min k (length (loadTopology env))" and ?n = "min n (length (loadTopology env))"
  have nodes: "server_nodes env None = loadTopology env" by (simp add: server_nodes_def)
  have inv0: "server_inv ?n ?k P ?s"
  using built_server_inv [where topology = None and env = env, unfolded nodes, OF assms(1-5)] .
  let ?d0 = "\<lparr>d_workers = [], d_next = 1, d_primary = True, d_co = app_co ?s, d_db = app_db ?s,
    d_servers = servers w\<rparr>"
  have "worker_app d own = worker_app ?d0 own"
    by (subst start_primary_forks [OF assms(6)]) (simp add: worker_app_def)
  moreover have "worker_app ?d0 (app_limiter ?s, counters w) = ?s"
    by (simp add: worker_app_def buildServer_def Let_def)
  ultimately show ?thesis using inv0 server_inv_worker by metis
qed

text \<open>A cluster of four workers, for the examples.\<close>

lemma demo_primary:
  obtains d where "start_primary demo_platform demo_environment None 4 demo_world = Some d"
    and "length (d_workers d) = 4" and "d_primary d"
proof -
  have "js_count (js_nat 4) = 4" "js_nat 4 \<noteq> PosInf" by (simp_all add: js_count_def js_nat_def)
  with that show thesis
    by (simp add: start_primary_def Let_def demo_numbers fork_loop_counts)
qed

section \<open>Properties\<close>

text \<open>
  C29: the pool keeps its size. The primary returns from its start unless the number of workers is
  infinite (which the environment variable can say), and then there are as many workers as the
  number, rounded up, none if it is negative or not a number; through any requests, sweeps and
  exits of workers there are always that many, with ids that never repeat among them, until
  the primary is told to stop, and then there are none.
\<close>

theorem workers_kept:
  "(start_primary P env web cores w = None \<longleftrightarrow> env_number (number_of P) web cores = PosInf)
   \<and> (\<forall>d d'. start_primary P env web cores w = Some d \<longrightarrow> rtranclp (cluster_step P) d d' \<longrightarrow>
        length (d_workers d')
          = (if d_primary d' then js_count (env_number (number_of P) web cores) else 0)
        \<and> distinct (map fst (d_workers d')))"
proof -
  let ?n = "env_number (number_of P) web cores" and ?s = "buildServer P env None w"
  let ?d0 = "\<lparr>d_workers = [], d_next = 1, d_primary = True, d_co = app_co ?s, d_db = app_db ?s,
    d_servers = servers w\<rparr>"
  have start: "start_primary P env web cores w = fork_loop ?n 0 ?d0"
    by (simp add: start_primary_def Let_def)
  have "pool_ok (js_count ?n) d'"
    if d: "start_primary P env web cores w = Some d" and run: "rtranclp (cluster_step P) d d'" for d d'
  proof -
    have "?n \<noteq> PosInf" using d fork_loop_endless by (simp add: start)
    from fork_loop_counts [OF this, of 0 ?d0] d have eq: "d = (fork ^^ js_count ?n) ?d0"
      by (simp add: start)
    have "pool_ok 0 ?d0" by (simp add: pool_ok_def)
    from pool_forks [OF this] have "pool_ok (js_count ?n) d" unfolding eq by simp
    with run show ?thesis by (induction rule: rtranclp_induct) (simp_all add: pool_step)
  qed
  then show ?thesis by (simp add: start fork_loop_returns pool_ok_def)
qed

theorem workers_kept_witness:
  "\<exists>d. start_primary demo_platform demo_environment None 4 demo_world = Some d
    \<and> length (d_workers (d\<lparr>d_primary := False, d_workers := []\<rparr>)) = 0 \<and> length (d_workers d) = 4"
proof (rule demo_primary)
  fix d assume d: "start_primary demo_platform demo_environment None 4 demo_world = Some d" "d_primary d"
  with workers_kept [of demo_platform demo_environment None 4 demo_world]
  have "length (d_workers d) = js_count (js_nat 4)" by (simp add: demo_numbers)
  with d show ?thesis by (simp add: js_count_def js_nat_def)
qed

text \<open>
  Many workers are as safe as one. However the requests of all clients are spread over the
  workers, and whichever workers exit and are replaced in between, the shared tables stay
  consistent, every chunk of every version has W copies (or as many as there are nodes), and
  every copy is good.
\<close>

theorem workers_share_store:
  assumes "100 * length (loadTopology env) < 2 ^ 31"
    and "env_number (number_of P) (REPLICATION_FACTOR env) 3 = js_nat n"
    and "env_number (number_of P) (WRITE_QUORUM env) 2 = js_nat k"
    and "cluster_ok w" and "cluster_sound (sha_of P) w"
    and "start_primary P env web cores w = Some d" and "rtranclp (cluster_step P) d d'"
  shows "metadata_wf (d_db d')
    \<and> (\<forall>v ver h. getVersion (d_db d') v = Some ver \<longrightarrow> h \<in> set (chunkHashes ver) \<longrightarrow>
         min k (length (loadTopology env))
           \<le> card (holders (sha1_of P) (d_co d') \<lparr>servers = d_servers d', counters = no_metrics\<rparr> h))
    \<and> (\<forall>x h b. replica (d_co d') \<lparr>servers = d_servers d', counters = no_metrics\<rparr> x h = Some b
         \<longrightarrow> sha256_hex (sha_of P) b = h)"
proof -
  let ?own = "(new_limiter 500 300, no_metrics)"
  let ?k = "min k (length (loadTopology env))" and ?n = "min n (length (loadTopology env))"
  have start: "server_inv ?n ?k P (worker_app d own)" for own by (rule start_primary_inv [OF assms(1-6)])
  have inv: "server_inv ?n ?k P (worker_app d' ?own)"
    by (rule cluster_run_inv [OF assms(7) start])
  have "manifest_refs (d_db d') h \<noteq> 0"
    if "getVersion (d_db d') v = Some ver" "h \<in> set (chunkHashes ver)" for v ver h
    using refs_valid(1) [OF server_invD(2) [OF inv]] that by (simp add: worker_app_def)
  then show ?thesis
    using server_invD(5,8) [OF inv] replica_sound [OF server_invD(4) [OF inv]]
    by (simp add: worker_app_def)
qed

theorem workers_share_store_witness:
  "\<exists>d. start_primary demo_platform demo_environment None 4 demo_world = Some d
    \<and> metadata_wf (d_db (d\<lparr>d_primary := False, d_workers := []\<rparr>))"
proof (rule demo_primary)
  fix d assume d: "start_primary demo_platform demo_environment None 4 demo_world = Some d"
  from workers_share_store [OF demo_few_nodes demo_numbers(2,3) demo_world_ok demo_world_sound d rtranclp.rtrancl_refl] d
  show ?thesis by simp
qed

end
