(* ===== verification/Allowance.thy ===== *)
theory Allowance
  imports Cluster
begin

text \<open>
  What the rate limiter promises of a whole server, and of many workers: how many requests of one client are not
  answered with 429 in a stretch of time.
\<close>

section \<open>One limiter\<close>

text \<open>
  The clock readings of a request lie between \<open>T0\<close> and \<open>T\<close>. A balance: what the client's bucket holds, less what
  the time until its last refill has brought; a bucket that does not exist yet is a full one.
\<close>

definition limiter_ok :: "int \<Rightarrow> rate_limiter \<Rightarrow> bool" where
  "limiter_ok T rl \<longleftrightarrow> 0 \<le> limit_refill rl
     \<and> (\<exists>k :: int. 0 \<le> k \<and> k \<le> 2 ^ 53 \<and> limit_capacity rl = of_int k)
     \<and> (\<forall>b \<in> ran (map_of (buckets rl)). bucket_ok b \<and> lastRefill b \<le> T
          \<and> capacity b = limit_capacity rl \<and> refillPerSecond b = limit_refill rl)"

text \<open>What the time up to \<open>t\<close> brings, at most.\<close>

definition brought :: "rat \<Rightarrow> rate_limiter \<Rightarrow> int \<Rightarrow> rat" where
  "brought u rl t = limit_refill rl * (of_int t / 1000) * (1 + u) ^ 3"

definition balance :: "rat \<Rightarrow> int \<Rightarrow> string \<Rightarrow> rate_limiter \<Rightarrow> rat" where
  "balance u T0 c rl =
     (case map_of (buckets rl) c of
        None \<Rightarrow> limit_capacity rl - brought u rl T0
      | Some b \<Rightarrow> tokens b - brought u rl (lastRefill b))"

lemma brought_mono:
  assumes "rounding u rnd" and "limiter_ok T rl" and "t \<le> t'"
  shows "brought u rl t \<le> brought u rl t'"
  using assms(2,3) roundingD(1) [OF assms(1)] unfolding brought_def
  by (intro mult_right_mono mult_left_mono divide_right_mono) (auto simp: limiter_ok_def)

lemma brought_diff: "brought u rl (t - t') = brought u rl t - brought u rl t'"
  by (simp add: brought_def algebra_simps diff_divide_distrib)

lemma balance_least:
  assumes "rounding u rnd" and "limiter_ok T rl" and "T0 \<le> T"
  shows "- brought u rl T \<le> balance u T0 c rl"
proof (cases "map_of (buckets rl) c")
  case None
  have "0 \<le> limit_capacity rl" using assms(2) by (auto simp: limiter_ok_def)
  with brought_mono [OF assms] None show ?thesis by (simp add: balance_def)
next
  case (Some b)
  then have "bucket_ok b" "lastRefill b \<le> T" using assms(2) by (auto simp: limiter_ok_def ran_def)
  with brought_mono [OF assms(1,2), of "lastRefill b" T] Some show ?thesis by (simp add: balance_def bucket_ok_def)
qed

lemma new_limiter_ok: "limiter_ok T (new_limiter 500 300)"
  by (auto simp: limiter_ok_def new_limiter_def intro!: exI [of _ 500])

lemma new_limiter_balance:
  "balance u T0 c (new_limiter 500 300) = 500 - brought u (new_limiter 500 300) T0"
  by (simp add: balance_def new_limiter_def)

text \<open>The bucket of a client, as it is used: a new one, or the one it has.\<close>

lemma bucketFor_ok:
  assumes "limiter_ok T rl" and "now \<le> T"
  shows "bucket_ok (fst (bucketFor now key rl))" "lastRefill (fst (bucketFor now key rl)) \<le> T"
    "capacity (fst (bucketFor now key rl)) = limit_capacity rl"
    "refillPerSecond (fst (bucketFor now key rl)) = limit_refill rl"
proof -
  have "bucket_ok b \<and> lastRefill b \<le> T \<and> capacity b = limit_capacity rl \<and> refillPerSecond b = limit_refill rl"
    if "map_of (buckets rl) key = Some b" for b
    using assms(1) that by (auto simp: limiter_ok_def ran_def)
  moreover have "bucket_ok (new_bucket (limit_capacity rl) (limit_refill rl) now)"
    using assms(1) by (fastforce simp: limiter_ok_def bucket_ok_def new_bucket_def)
  ultimately show "bucket_ok (fst (bucketFor now key rl))" "lastRefill (fst (bucketFor now key rl)) \<le> T"
    "capacity (fst (bucketFor now key rl)) = limit_capacity rl"
    "refillPerSecond (fst (bucketFor now key rl)) = limit_refill rl"
    using assms(2) by (auto simp: bucketFor_def new_bucket_def Let_def split: option.split)
qed

lemma bucketFor_balance:
  assumes "rounding u rnd" and "limiter_ok T rl" and "T0 \<le> now"
  shows "tokens (fst (bucketFor now key rl)) - brought u rl (lastRefill (fst (bucketFor now key rl)))
    \<le> balance u T0 key rl"
  using brought_mono [OF assms]
  by (simp add: bucketFor_def balance_def new_bucket_def Let_def split: option.split)

lemma allow_balance:
  assumes r: "rounding u rnd" and rl: "limiter_ok T rl" and clock: "T0 \<le> fst clock" "fst clock \<le> T" "snd clock \<le> T"
    and run: "allow rnd clock key 1 rl = (ok, rl')"
  shows "limiter_ok T rl'" and "limit_refill rl' = limit_refill rl" "limit_capacity rl' = limit_capacity rl"
    and "(if ok \<and> key = c then 1 else 0) + balance u T0 c rl'
      \<le> balance u T0 c rl + (if key = c then slack u (limit_capacity rl) else 0)"
proof -
  let ?b = "fst (bucketFor (fst clock) key rl)"
  let ?b' = "snd (tryConsume rnd (snd clock) 1 ?b)"
  note b = bucketFor_ok [OF rl clock(2), of key]
  have rl': "rl' = snd (allow rnd clock key 1 rl)" and ok: "ok = fst (tryConsume rnd (snd clock) 1 ?b)"
    using run allow_own(2) [of rnd clock key 1 rl] by simp_all
  have own: "map_of (buckets rl') key = Some ?b'" unfolding rl' by (rule allow_own(1))
  have other: "map_of (buckets rl') j = map_of (buckets rl) j" if "j \<noteq> key" for j
    using that by (simp add: rl' frame_simps)
  show frame: "limit_refill rl' = limit_refill rl" "limit_capacity rl' = limit_capacity rl"
    by (simp_all add: rl' frame_simps)
  have "lastRefill ?b' \<le> T"
    using consume_all_lastRefill [OF b(2), of "[snd clock]" rnd 1] clock(3) by (simp add: Let_def split_beta)
  then have b': "bucket_ok ?b' \<and> lastRefill ?b' \<le> T \<and> capacity ?b' = limit_capacity rl
      \<and> refillPerSecond ?b' = limit_refill rl"
    using tryConsume_ok [OF r b(1), of 1 "snd clock"] b by (simp add: frame_simps)
  have "bucket_ok d \<and> lastRefill d \<le> T \<and> capacity d = limit_capacity rl \<and> refillPerSecond d = limit_refill rl"
    if d: "map_of (buckets rl') j = Some d" for j d
  proof (cases "j = key")
    case True
    with own d b' show ?thesis by simp
  next
    case False
    with other d rl show ?thesis by (auto simp: limiter_ok_def ran_def)
  qed
  with rl show "limiter_ok T rl'" by (auto simp: limiter_ok_def ran_def frame)
  show "(if ok \<and> key = c then 1 else 0) + balance u T0 c rl'
      \<le> balance u T0 c rl + (if key = c then slack u (limit_capacity rl) else 0)"
  proof (cases "key = c")
    case True
    have frame': "brought u rl' t = brought u rl t" for t by (simp add: brought_def frame)
    have "(if ok then 1 else 0) + tokens ?b' \<le> tokens ?b + slack u (limit_capacity rl)
        + brought u rl (lastRefill ?b' - lastRefill ?b)"
      using tryConsume_balance [OF r b(1) zero_le_one, of "snd clock" ok ?b'] unfolding b ok brought_def by simp
    moreover have "tokens ?b - brought u rl (lastRefill ?b) \<le> balance u T0 c rl"
      using bucketFor_balance [OF r rl clock(1), of key] True by simp
    moreover have "balance u T0 c rl' = tokens ?b' - brought u rl (lastRefill ?b')"
      using own True by (simp add: balance_def frame')
    ultimately show ?thesis using True unfolding brought_diff by (cases ok) simp_all
  next
    case False
    then have "balance u T0 c rl' = balance u T0 c rl"
      using other [of c] unfolding balance_def brought_def frame by simp
    with False show ?thesis by simp
  qed
qed

section \<open>One server\<close>

definition timed :: "int \<Rightarrow> int \<Rightarrow> request_env \<Rightarrow> bool" where
  "timed T0 T e \<longleftrightarrow> T0 \<le> fst (limiter_clock e) \<and> fst (limiter_clock e) \<le> T \<and> snd (limiter_clock e) \<le> T
     \<and> T0 \<le> fst (inject_clock e) \<and> fst (inject_clock e) \<le> T \<and> snd (inject_clock e) \<le> T"

lemma app_limiter_frame [frame_simps]:
  "app_limiter (snd (post_file serve P e body s)) = app_limiter s"
  "app_limiter (snd (put_file serve P e f body s)) = app_limiter s"
  "app_limiter (snd (download serve P e f s)) = app_limiter s"
  "app_limiter (snd (observed label ms answer)) = app_limiter (snd answer)"
  by (auto simp: post_file_def put_file_def download_def observed_def Let_def split_beta
      split: js_value.splits sum.splits option.splits prod.splits)

lemma app_limiter_limited:
  assumes "\<And>rl. app_limiter (snd (handler (s\<lparr>app_limiter := rl\<rparr>))) = rl"
  shows "app_limiter (snd (limited P clock key handler s)) = snd (allow (round_of P) clock key 1 (app_limiter s))"
  using assms by (simp add: limited_def Let_def split_beta)

text \<open>A route leaves the limiter alone, but for the injected request.\<close>

lemma route_limiter:
  "app_limiter (snd (route serve P e req s)) \<in> {app_limiter s,
     snd (allow (round_of P) (inject_clock e) (inject_ip P) 1 (app_limiter s))}"
proof (cases "\<exists>f query. req = DownloadPresigned f query")
  case True
  then show ?thesis
    by (auto simp: download_presigned_def frame_simps app_limiter_limited split: sum.split presign_error.split)
next
  case False
  then show ?thesis by (cases req) (simp_all add: frame_simps)
qed

lemma handle_balance:
  assumes r: "rounding u (round_of P)" and rl: "limiter_ok T (app_limiter s)" and e: "timed T0 T e"
    and run: "handle serve P e client req s = (r, s')"
  shows "limiter_ok T (app_limiter s')" and "limit_refill (app_limiter s') = limit_refill (app_limiter s)"
    "limit_capacity (app_limiter s') = limit_capacity (app_limiter s)"
    and "(if client_key (fst client) (snd client) = c \<and> status r \<noteq> 429 then 1 else 0) + balance u T0 c (app_limiter s')
      \<le> balance u T0 c (app_limiter s) + 2 * slack u (limit_capacity (app_limiter s))"
proof -
  let ?key = "client_key (fst client) (snd client)" and ?cap = "limit_capacity (app_limiter s)"
  have slack: "0 \<le> slack u ?cap" using rl roundingD(1) [OF r] by (auto simp: slack_def limiter_ok_def)
  obtain ok rl1 where one: "allow (round_of P) (limiter_clock e) ?key 1 (app_limiter s) = (ok, rl1)" by fastforce
  have clocks: "T0 \<le> fst (limiter_clock e)" "fst (limiter_clock e) \<le> T" "snd (limiter_clock e) \<le> T"
    "T0 \<le> fst (inject_clock e)" "fst (inject_clock e) \<le> T" "snd (inject_clock e) \<le> T"
    using e by (simp_all add: timed_def)
  note first = allow_balance [OF r rl clocks(1-3) one]
  obtain ok2 rl2 where two: "allow (round_of P) (inject_clock e) (inject_ip P) 1 rl1 = (ok2, rl2)" by fastforce
  note second = allow_balance [OF r first(1) clocks(4-6) two]
  have cases: "(\<not> ok \<and> status r = 429 \<and> app_limiter s' = rl1) \<or> (ok \<and> app_limiter s' \<in> {rl1, rl2})"
  proof (rule observed_cases [OF run [unfolded handle_def]])
    fix s1 assume lim: "limited P (limiter_clock e) ?key (route serve P e req) s = (r, s1)"
    have "app_limiter s' = app_limiter s1"
      using run app_limiter_frame(4) [of "route_label req" "elapsed_ms e" "(r, s1)"] by (simp add: handle_def lim)
    with lim one two route_limiter [of serve P e req "s\<lparr>app_limiter := rl1\<rparr>"] show ?thesis
      by (auto simp: limited_def reply_def Let_def split: if_splits)
  qed
  with first(1-3) second(1-3) show "limiter_ok T (app_limiter s')"
    "limit_refill (app_limiter s') = limit_refill (app_limiter s)" "limit_capacity (app_limiter s') = ?cap"
    by auto
  have "(if ok \<and> ?key = c then 1 else 0) + balance u T0 c rl1 \<le> balance u T0 c (app_limiter s) + slack u ?cap"
    using first(4) [of c] slack by (auto split: if_splits)
  moreover have "balance u T0 c rl2 \<le> balance u T0 c rl1 + slack u ?cap"
    using second(4) [of c] slack unfolding first(3) by (auto split: if_splits)
  ultimately show "(if ?key = c \<and> status r \<noteq> 429 then 1 else 0) + balance u T0 c (app_limiter s')
      \<le> balance u T0 c (app_limiter s) + 2 * slack u ?cap"
    using cases slack by (auto split: if_splits)
qed

section \<open>Many workers\<close>

text \<open>
  Runs of the cluster with a meter: how many requests there were, and how many of the client \<open>c\<close> were not
  refused.
\<close>

inductive metered ::
  "platform \<Rightarrow> int \<Rightarrow> int \<Rightarrow> string \<Rightarrow> storage_node deployment \<Rightarrow> nat \<Rightarrow> nat \<Rightarrow> storage_node deployment \<Rightarrow> bool"
  for P T0 T c d where
  start: "metered P T0 T c d 0 0 d"
| request: "metered P T0 T c d n m d1 \<Longrightarrow> d_workers d1 = us @ (i, own) # ws \<Longrightarrow> timed T0 T e
    \<Longrightarrow> handle (node_serve (sha_of P)) P e client req (worker_app d1 own) = (r, s')
    \<Longrightarrow> metered P T0 T c d (n + 1)
          (m + (if client_key (fst client) (snd client) = c \<and> status r \<noteq> 429 then 1 else 0))
          (share s' d1\<lparr>d_workers := us @ (i, app_limiter s', counters (app_world s')) # ws\<rparr>)"
| worker_exit: "metered P T0 T c d n m d1 \<Longrightarrow> d_primary d1 \<Longrightarrow> d_workers d1 = us @ (i, own) # ws
    \<Longrightarrow> metered P T0 T c d n m (fork (d1\<lparr>d_workers := us @ ws\<rparr>))"
| collect: "metered P T0 T c d n m d1
    \<Longrightarrow> metered P T0 T c d n m (share (gc_step P envs hint (worker_app d1 own)) d1)"
| sigterm: "metered P T0 T c d n m d1 \<Longrightarrow> d_primary d1
    \<Longrightarrow> metered P T0 T c d n m (d1\<lparr>d_primary := False, d_workers := []\<rparr>)"

lemma metered_is_run: "metered P T0 T c d n m d' \<Longrightarrow> rtranclp (cluster_step P) d d'"
  by (induction rule: metered.induct) (blast intro: rtranclp.rtrancl_into_rtrancl cluster_step.intros)+

text \<open>
  The workers that were started have been given the capacity each, and what is left of it is a balance of theirs
  that is at least what the time took.
\<close>

definition worker_ok :: "int \<Rightarrow> rate_limiter \<Rightarrow> bool" where
  "worker_ok T rl \<longleftrightarrow> limiter_ok T rl \<and> limit_capacity rl = 500 \<and> limit_refill rl = 300"

lemma worker_ok_new: "worker_ok T (new_limiter 500 300)"
  by (simp add: worker_ok_def new_limiter_ok) (simp add: new_limiter_def)

text \<open>What a worker may still grant until \<open>T\<close>, rounding apart.\<close>

definition credit :: "rat \<Rightarrow> int \<Rightarrow> int \<Rightarrow> string \<Rightarrow> rate_limiter \<Rightarrow> rat" where
  "credit u T0 T c rl = balance u T0 c rl + 300 * (of_int T / 1000) * (1 + u) ^ 3"

definition credits :: "rat \<Rightarrow> int \<Rightarrow> int \<Rightarrow> string \<Rightarrow> (nat \<times> rate_limiter \<times> metrics) list \<Rightarrow> rat" where
  "credits u T0 T c ws = sum_list (map (\<lambda>w. credit u T0 T c (fst (snd w))) ws)"

lemma credits_simps [simp]:
  "credits u T0 T c [] = 0"
  "credits u T0 T c (w # ws) = credit u T0 T c (fst (snd w)) + credits u T0 T c ws"
  "credits u T0 T c (us @ ws) = credits u T0 T c us + credits u T0 T c ws"
  by (simp_all add: credits_def)

text \<open>The allowance of one client at one worker.\<close>

definition allowance :: "rat \<Rightarrow> int \<Rightarrow> int \<Rightarrow> rat" where
  "allowance u T0 T = 500 + 300 * (of_int (T - T0) / 1000) * (1 + u) ^ 3"

lemma credit_new: "credit u T0 T c (new_limiter 500 300) = allowance u T0 T"
  unfolding credit_def allowance_def new_limiter_balance brought_def
  by (simp add: new_limiter_def algebra_simps diff_divide_distrib)

lemma credit_nonneg:
  assumes "rounding u rnd" and "worker_ok T rl" and "T0 \<le> T"
  shows "0 \<le> credit u T0 T c rl"
  using balance_least [OF assms(1) _ assms(3), of rl c] assms(2)
  by (simp add: credit_def worker_ok_def brought_def)

lemma credits_nonneg:
  assumes "rounding u rnd" and "T0 \<le> T"
  shows "\<forall>w \<in> set ws. worker_ok T (fst (snd w)) \<Longrightarrow> 0 \<le> credits u T0 T c ws"
  by (induction ws) (simp_all add: credit_nonneg [OF assms(1) _ assms(2)])

lemma handle_credit:
  assumes r: "rounding u (round_of P)" and rl: "worker_ok T (app_limiter s)" and e: "timed T0 T e"
    and run: "handle serve P e client req s = (r, s')"
  shows "worker_ok T (app_limiter s')"
    and "(if client_key (fst client) (snd client) = c \<and> status r \<noteq> 429 then 1 else 0) + credit u T0 T c (app_limiter s')
      \<le> credit u T0 T c (app_limiter s) + 2000 * u"
  using handle_balance(1-3) [OF r _ e run] handle_balance(4) [OF r _ e run, of c] rl
  by (simp_all add: worker_ok_def credit_def slack_def)

text \<open>
  The workers started so far have been given an allowance each; what they granted and what they may still grant
  is no more.
\<close>

lemma metered_balance:
  assumes "metered P T0 T c d n m d'" and r: "rounding u (round_of P)" and T: "T0 \<le> T"
    and fresh: "\<forall>w \<in> set (d_workers d). fst (snd w) = new_limiter 500 300" "d_next d = length (d_workers d) + 1"
  shows "(\<forall>w \<in> set (d_workers d'). worker_ok T (fst (snd w)))
    \<and> of_nat m + credits u T0 T c (d_workers d')
      \<le> (of_nat (d_next d') - 1) * allowance u T0 T + of_nat n * (2000 * u)"
  using assms(1)
proof (induction rule: metered.induct)
  case start
  have "credits u T0 T c ws = of_nat (length ws) * allowance u T0 T"
    if "\<forall>w \<in> set ws. fst (snd w) = new_limiter 500 300" for ws
    using that by (induction ws) (simp_all add: credit_new algebra_simps)
  with fresh show ?case by (simp add: worker_ok_new)
next
  case (request n m d1 us i own ws e client req r s')
  let ?m = "if client_key (fst client) (snd client) = c \<and> status r \<noteq> 429 then 1 else 0"
  have own: "worker_ok T (app_limiter (worker_app d1 own))"
    using request by (simp add: worker_app_def)
  note step = handle_credit(1) [OF r own request(3,4)] handle_credit(2) [OF r own request(3,4), of c]
  have "of_nat (m + ?m) = (of_nat m + ?m :: rat)" by simp
  with step request(2) request.IH show ?case
    by (simp add: share_def worker_app_def algebra_simps del: of_nat_add)
next
  case (worker_exit n m d1 us i own ws)
  then have "0 \<le> credit u T0 T c (fst own)" by (intro credit_nonneg [OF r _ T]) simp
  with worker_exit show ?case
    by (simp add: fork_def worker_ok_new credit_new algebra_simps)
next
  case (collect n m d1 envs hint own)
  then show ?case by (simp add: share_def)
next
  case (sigterm n m d1)
  then have "0 \<le> credits u T0 T c (d_workers d1)" by (intro credits_nonneg [OF r T]) simp
  with sigterm show ?case by simp
qed

lemma start_primary_workers:
  assumes "start_primary P env web cores w = Some d"
  shows "\<forall>w \<in> set (d_workers d). fst (snd w) = new_limiter 500 300" and "d_next d = length (d_workers d) + 1"
proof -
  have forks: "(\<forall>w \<in> set (d_workers ((fork ^^ j) d0)). fst (snd w) = new_limiter 500 300)
      \<and> d_next ((fork ^^ j) d0) = j + 1" if "d_workers d0 = []" "d_next d0 = 1" for j and d0 :: "'a deployment"
    using that by (induction j) (simp_all add: fork_def)
  obtain d0 where d0: "fork_loop (env_number (number_of P) web cores) 0 d0 = Some d" "d_workers d0 = []" "d_next d0 = 1"
    using assms by (auto simp: start_primary_def Let_def)
  from fork_loop_counts [OF fork_loop_endless [OF d0(1)], of 0 d0] d0(1)
  have d: "d = (fork ^^ js_count (env_number (number_of P) web cores)) d0" by simp
  from forks [OF d0(2,3)] show "\<forall>w \<in> set (d_workers d). fst (snd w) = new_limiter 500 300"
    unfolding d by blast
  from forks [OF d0(2,3)] show "d_next d = length (d_workers d) + 1"
    unfolding d by (simp add: d0(2))
qed

section \<open>A burst\<close>

text \<open>At the time \<open>T\<close>, the client has \<open>j\<close> requests left at a worker.\<close>

definition left_at :: "int \<Rightarrow> string \<Rightarrow> nat \<Rightarrow> rate_limiter \<Rightarrow> bool" where
  "left_at T c j rl \<longleftrightarrow> j \<le> 500 \<and>
     (case map_of (buckets rl) c of
        None \<Rightarrow> limit_capacity rl = of_nat j
      | Some b \<Rightarrow> tokens b = of_nat j \<and> T \<le> lastRefill b)"

lemma allow_left:
  assumes r: "rounding u rnd" and left: "left_at T c (Suc j) rl"
  shows "\<exists>rl'. allow rnd (T, T) c 1 rl = (True, rl') \<and> left_at T c j rl'"
proof -
  let ?b = "fst (bucketFor T c rl)"
  have b: "tokens ?b = of_nat (Suc j)" "T \<le> lastRefill ?b" and j: "Suc j \<le> 500"
    using left by (auto simp: left_at_def bucketFor_def new_bucket_def Let_def split: option.splits)
  have "rnd (of_int (T - lastRefill ?b) / 1000) \<le> rnd 0"
    using b(2) by (intro roundingD(2) [OF r]) (simp add: divide_le_0_iff)
  then have same: "refill rnd T ?b = ?b" by (simp add: refill_def rounding_zero [OF r])
  have "rnd (of_int (int j)) = of_int (int j)" using j by (intro roundingD(3) [OF r]) simp
  then have "tryConsume rnd T 1 ?b = (True, ?b\<lparr>tokens := of_nat j\<rparr>)"
    using b(1) by (simp add: tryConsume_def same)
  then have "fst (allow rnd (T, T) c 1 rl)"
    "map_of (buckets (snd (allow rnd (T, T) c 1 rl))) c = Some (?b\<lparr>tokens := of_nat j\<rparr>)"
    using allow_own [of rnd "(T, T)" c 1 rl] by simp_all
  with b(2) j show ?thesis by (intro exI [of _ "snd (allow rnd (T, T) c 1 rl)"]) (auto simp: left_at_def prod_eq_iff)
qed

definition at_time :: "int \<Rightarrow> request_env" where
  "at_time T = \<lparr>limiter_clock = (T, T), inject_clock = (T, T), file_now = T, version_now = T, sign_now = 0,
     file_random = [], version_random = [], elapsed_ms = 0, inject_elapsed_ms = 0,
     chunk_env = (\<lambda>_. \<lparr>fate_of = (\<lambda>_. Deliver), nonce_of = (\<lambda>_. (0, [])), settled_ms = (\<lambda>_. 0), failed_ms = (\<lambda>_. 0)\<rparr>)\<rparr>"

lemma health_left:
  assumes r: "rounding u (round_of P)" and left: "left_at T c (Suc j) (app_limiter s)"
  shows "\<exists>r s'. handle serve P (at_time T) (None, c) Health s = (r, s') \<and> status r = 200 \<and> left_at T c j (app_limiter s')"
proof -
  obtain rl' where "allow (round_of P) (T, T) c 1 (app_limiter s) = (True, rl')" "left_at T c j rl'"
    using allow_left [OF r left] by blast
  then show ?thesis
    by (simp add: handle_def observed_def limited_def client_key_def at_time_def reply_def)
qed

lemma worker_burst:
  assumes r: "rounding u (round_of P)"
  shows "metered P T T c d n m d1 \<Longrightarrow> d_workers d1 = us @ (i, own) # ws \<Longrightarrow> left_at T c j (fst own)
    \<Longrightarrow> \<exists>d2 own2. metered P T T c d (n + j) (m + j) d2 \<and> d_workers d2 = us @ (i, own2) # ws"
proof (induction j arbitrary: n m d1 own)
  case (Suc j)
  have "left_at T c (Suc j) (app_limiter (worker_app d1 own))" using Suc.prems(3) by (simp add: worker_app_def)
  from health_left [OF r this, of "node_serve (sha_of P)"] obtain a s' where
    a: "handle (node_serve (sha_of P)) P (at_time T) (None, c) Health (worker_app d1 own) = (a, s')" "status a = 200"
    "left_at T c j (app_limiter s')" by blast
  let ?d = "share s' d1\<lparr>d_workers := us @ (i, app_limiter s', counters (app_world s')) # ws\<rparr>"
  have "timed T T (at_time T)" by (simp add: timed_def at_time_def)
  from metered.request [OF Suc.prems(1,2) this a(1)] a(2)
  have "metered P T T c d (n + 1) (m + 1) ?d" by (simp add: client_key_def)
  from Suc.IH [OF this] a(3) show ?case by simp
qed auto

lemma workers_burst:
  assumes r: "rounding u (round_of P)"
  shows "metered P T T c d n m d1 \<Longrightarrow> d_workers d1 = us @ ws
    \<Longrightarrow> \<forall>w \<in> set ws. fst (snd w) = new_limiter 500 300
    \<Longrightarrow> \<exists>d2. metered P T T c d (n + 500 * length ws) (m + 500 * length ws) d2"
proof (induction ws arbitrary: n m d1 us)
  case (Cons w ws)
  obtain i own where w: "w = (i, own)" by (cases w)
  have "left_at T c 500 (fst own)" using Cons.prems(3) by (simp add: w left_at_def new_limiter_def)
  moreover have "d_workers d1 = us @ (i, own) # ws" using Cons.prems(2) by (simp add: w)
  ultimately obtain d2 own2 where
    d2: "metered P T T c d (n + 500) (m + 500) d2" "d_workers d2 = us @ (i, own2) # ws"
    using worker_burst [OF r Cons.prems(1)] by blast
  from d2(2) have "d_workers d2 = (us @ [(i, own2)]) @ ws" by simp
  from Cons.IH [OF d2(1) this] Cons.prems(3) show ?case by (simp add: add.assoc)
qed auto

section \<open>Properties\<close>

text \<open>
  C31: what the rate limiter promises of the cluster. From its start, whatever requests any clients send to any
  workers, with clocks between \<open>T0\<close> and \<open>T\<close> in any order, and whatever workers exit: the
  requests of one client that are not refused are at most 500 and 300 per second for each worker that was
  ever started, up to the rounding error of the doubles.
\<close>

theorem cluster_allowance:
  assumes "rounding u (round_of P)" and "T0 \<le> T" and "start_primary P env web cores w = Some d"
    and "metered P T0 T c d n m d'"
  shows "of_nat m \<le> (of_nat (d_next d') - 1) * (500 + 300 * (of_int (T - T0) / 1000) * (1 + u) ^ 3)
    + of_nat n * (2000 * u)"
proof -
  note total = metered_balance [OF assms(4,1,2) start_primary_workers [OF assms(3)]]
  then have "0 \<le> credits u T0 T c (d_workers d')" by (intro credits_nonneg [OF assms(1,2)]) blast
  with total show ?thesis unfolding allowance_def by linarith
qed

theorem cluster_allowance_witness:
  "\<exists>d d'. start_primary demo_platform demo_environment None 4 demo_world = Some d
    \<and> metered demo_platform 7 7 ''c'' d 2000 2000 d' \<and> (2000 :: rat) \<le> (of_nat (d_next d') - 1) * 500"
proof (rule demo_primary)
  fix d assume d: "start_primary demo_platform demo_environment None 4 demo_world = Some d" "length (d_workers d) = 4"
  have r: "rounding 0 (round_of demo_platform)" by (simp add: demo_platform_def rounding_id)
  from workers_burst [OF r metered.start, of d "[]" "d_workers d" 7 "''c''"] start_primary_workers(1) [OF d(1)] d(2)
  obtain d' where d': "metered demo_platform 7 7 ''c'' d 2000 2000 d'" by auto
  from cluster_allowance [OF r order_refl d(1) d'] d(1) d' show ?thesis by auto
qed

text \<open>
  C38: the allowance of a client grows with the number of workers. At one instant, a client can have 500
  requests for each worker answered, not 500 in all: each worker has a limiter of its own.
\<close>

theorem allowance_multiplied:
  assumes "rounding u (round_of P)" and "start_primary P env web cores w = Some d"
  shows "\<exists>d'. metered P T T c d (500 * length (d_workers d)) (500 * length (d_workers d)) d'"
  using workers_burst [OF assms(1) metered.start, of d "[]" "d_workers d" T c] start_primary_workers(1) [OF assms(2)]
  by simp

theorem allowance_multiplied_witness:
  "\<exists>d d'. start_primary demo_platform demo_environment None 4 demo_world = Some d
    \<and> metered demo_platform 7 7 ''c'' d 2000 2000 d'"
proof (rule demo_primary)
  fix d assume d: "start_primary demo_platform demo_environment None 4 demo_world = Some d" "length (d_workers d) = 4"
  have "rounding 0 (round_of demo_platform)" by (simp add: demo_platform_def rounding_id)
  from allowance_multiplied [OF this d(1), of 7 "''c''"] d show ?thesis by auto
qed

end
