(* ===== verification/AtomicWrite.thy ===== *)
theory AtomicWrite
  imports ChunkStore
begin

text \<open>
  Why \<^verbatim>\<open>put\<close> in \<^verbatim>\<open>src/chunkStore.js\<close> writes to a temporary file and renames it: any number of
  writers, in processes that share the directory, take the file-system calls of \<^verbatim>\<open>put\<close> one at a
  time and in any order, a write becomes visible piece by piece, and a process may die between
  any two calls.
\<close>

section \<open>The code, call by call\<close>

datatype write_phase = Absent | DirMade | Partial | Complete

text \<open>A writer past the hash check, with the name it chose for its temporary file.\<close>

record writer =
  w_hash :: string
  w_bytes :: bytes
  w_nonce :: nonce
  w_phase :: write_phase

definition w_tmp :: "writer \<Rightarrow> path" where
  "w_tmp w = chunk_dir (w_hash w) @ [tmp_name (w_nonce w)]"

type_synonym write_state = "fsnode \<times> writer list"

text \<open>
  The random part of the name keeps the temporary files of writers under way apart. A crash is a
  writer that takes no further step; what it wrote stays.
\<close>

inductive write_step :: "sha256 \<Rightarrow> write_state \<Rightarrow> write_state \<Rightarrow> bool" for sha where
  check: "sha256_hex sha b = h \<Longrightarrow> pathFor h = Inr (dir, f) \<Longrightarrow> \<not> existsSync t f
    \<Longrightarrow> tmp_name z \<notin> (tmp_name \<circ> w_nonce) ` set ws
    \<Longrightarrow> write_step sha (t, ws)
          (t, \<lparr>w_hash = h, w_bytes = b, w_nonce = z, w_phase = Absent\<rparr> # ws)"
| mkdir: "w_phase w = Absent \<Longrightarrow> mkdirSync t (chunk_dir (w_hash w)) = Inr t'
    \<Longrightarrow> write_step sha (t, us @ w # ws) (t', us @ w\<lparr>w_phase := DirMade\<rparr> # ws)"
| piece: "w_phase w \<in> {DirMade, Partial} \<Longrightarrow> writeFileSync t (w_tmp w) (take k (w_bytes w)) = Inr t'
    \<Longrightarrow> write_step sha (t, us @ w # ws) (t', us @ w\<lparr>w_phase := Partial\<rparr> # ws)"
| written: "w_phase w \<in> {DirMade, Partial} \<Longrightarrow> writeFileSync t (w_tmp w) (w_bytes w) = Inr t'
    \<Longrightarrow> write_step sha (t, us @ w # ws) (t', us @ w\<lparr>w_phase := Complete\<rparr> # ws)"
| rename: "w_phase w = Complete \<Longrightarrow> renameSync t (w_tmp w) (chunk_file (w_hash w)) = Inr t'
    \<Longrightarrow> write_step sha (t, us @ w # ws) (t', us @ ws)"
| crash: "write_step sha (t, us @ w # ws) (t, us @ ws)"
| remove: "delete_chunk h t = (r, t') \<Longrightarrow> write_step sha (t, ws) (t', ws)"

section \<open>The invariant\<close>

definition writer_ok :: "sha256 \<Rightarrow> fsnode \<Rightarrow> writer \<Rightarrow> bool" where
  "writer_ok sha t w \<longleftrightarrow> sha256_hex sha (w_bytes w) = w_hash w
     \<and> (w_phase w = Complete \<longrightarrow> fs_file t (w_tmp w) = Some (w_bytes w))"

definition writers_ok :: "sha256 \<Rightarrow> write_state \<Rightarrow> bool" where
  "writers_ok sha \<sigma> \<longleftrightarrow>
     (case \<sigma> of (t, ws) \<Rightarrow> store_wf t \<and> store_sound sha t
        \<and> distinct (map (tmp_name \<circ> w_nonce) ws) \<and> (\<forall>w \<in> set ws. writer_ok sha t w))"

lemma writer_valid: "writer_ok sha t w \<Longrightarrow> valid_hash (w_hash w)"
  using valid_sha256_hex [of sha "w_bytes w"] by (simp add: writer_ok_def)

lemma tmp_apart:
  "tmp_name (w_nonce w) \<noteq> tmp_name (w_nonce v) \<Longrightarrow> w_tmp w \<noteq> w_tmp v"
  by (simp add: w_tmp_def)

lemma fs_write_keeps_depth:
  "fs_depth n t \<Longrightarrow> fs_write t p c = Some t' \<Longrightarrow> length p = n \<Longrightarrow> fs_depth n t'"
proof (induction t p c arbitrary: n t' rule: fs_write.induct)
  case (3 es k c)
  then show ?case
    by (auto split: option.splits fsnode.splits simp del: fs_depth.simps(4) intro!: fs_depth_update)
next
  case (4 es k j p c)
  then obtain m where "n = Suc m" by (cases n) auto
  with 4 show ?case
    by (auto split: option.splits simp del: fs_depth.simps(4) intro!: fs_depth_update
        dest: fs_depth_sub)
qed auto

lemma writers_okD:
  assumes "writers_ok sha (t, us @ w # ws)"
  shows "store_wf t" "store_sound sha t" "writer_ok sha t w" "\<forall>v \<in> set us \<union> set ws. writer_ok sha t v"
    "distinct (map (tmp_name \<circ> w_nonce) (us @ ws))"
    "v \<in> set us \<union> set ws \<Longrightarrow> w_tmp w \<noteq> w_tmp v"
proof -
  have dist: "distinct (map (tmp_name \<circ> w_nonce) (us @ w # ws))"
    using assms by (simp add: writers_ok_def)
  then have "(tmp_name \<circ> w_nonce) w \<notin> (tmp_name \<circ> w_nonce) ` (set us \<union> set ws)" by auto
  then show "w_tmp w \<noteq> w_tmp v" if "v \<in> set us \<union> set ws" using that tmp_apart by force
  show "distinct (map (tmp_name \<circ> w_nonce) (us @ ws))" using dist by auto
qed (use assms in \<open>auto simp: writers_ok_def\<close>)

text \<open>A change of the tree outside the chunk files and the other writers' temporary files.\<close>

lemma tmp_write:
  assumes ok: "writers_ok sha (t, us @ w # ws)" and run: "writeFileSync t (w_tmp w) c = Inr t'"
  shows "store_wf t'" and "store_sound sha t'" and "fs_file t' (w_tmp w) = Some c"
    and "\<forall>v \<in> set us \<union> set ws. writer_ok sha t' v"
proof -
  note d = writers_okD [OF ok]
  have fs: "fs_write t (w_tmp w) c = Some t'"
    using run by (simp add: writeFileSync_def fs_result_def split: option.splits)
  have "length (w_tmp w) = 3" by (simp add: w_tmp_def)
  with d(1) fs show "store_wf t'" unfolding store_wf_def by (rule fs_write_keeps_depth)
  show "fs_file t' (w_tmp w) = Some c" using fs by (simp add: fs_simps)
  have "copies t' h = copies t h" for h
    using fs tmp_not_chunk [OF writer_valid [OF d(3)], of h "w_nonce w"]
    by (auto simp: copies_def fs_simps w_tmp_def)
  with d(2) show "store_sound sha t'" by (simp add: store_sound_def)
  show "\<forall>v \<in> set us \<union> set ws. writer_ok sha t' v"
  proof
    fix v assume v: "v \<in> set us \<union> set ws"
    with d(4) d(6) [OF v] fs show "writer_ok sha t' v" by (simp add: writer_ok_def fs_simps)
  qed
qed

lemma same_writers: "map (tmp_name \<circ> w_nonce) (us @ w\<lparr>w_phase := p\<rparr> # ws) = map (tmp_name \<circ> w_nonce) (us @ w # ws)"
  by simp

lemma mkdir_ok:
  assumes ok: "writers_ok sha (t, us @ w # ws)" and "w_phase w = Absent"
    and run: "mkdirSync t (chunk_dir (w_hash w)) = Inr t'"
  shows "writers_ok sha (t', us @ w\<lparr>w_phase := DirMade\<rparr> # ws)"
proof -
  have fs: "fs_mkdirp t (chunk_dir (w_hash w)) = Some t'"
    using run by (simp add: mkdirSync_def fs_result_def split: option.splits)
  then have content: "fs_file t' q = fs_file t q" for q by (simp add: fs_simps)
  have "store_wf t'"
    using fs_mkdirp_depth [of 3 t "chunk_dir (w_hash w)"] fs ok
    by (auto simp: writers_ok_def store_wf_def)
  with ok assms(2) show ?thesis
    by (auto simp: writers_ok_def writer_ok_def store_sound_def copies_def content w_tmp_def)
qed

lemma rename_ok:
  assumes ok: "writers_ok sha (t, us @ w # ws)" and complete: "w_phase w = Complete"
    and run: "renameSync t (w_tmp w) (chunk_file (w_hash w)) = Inr t'"
  shows "writers_ok sha (t', us @ ws)"
proof -
  note d = writers_okD [OF ok]
  have tmp: "fs_file t (w_tmp w) = Some (w_bytes w)" and good: "sha256_hex sha (w_bytes w) = w_hash w"
    using d(3) complete by (auto simp: writer_ok_def)
  obtain t1 where t1: "fs_unlink t (w_tmp w) = Some t1" "fs_write t1 (chunk_file (w_hash w)) (w_bytes w) = Some t'"
    using run tmp
    by (auto simp: renameSync_def fs_file_lookup fs_result_def split: option.splits fsnode.splits)
  have content: "fs_file t' q = (if q = chunk_file (w_hash w) then Some (w_bytes w)
      else if q = w_tmp w then None else fs_file t q)" for q
    using t1 by (simp add: fs_simps)
  have "store_wf t'"
    using fs_write_keeps_depth [OF fs_unlink_depth t1(2)] t1(1) d(1) by (auto simp: store_wf_def)
  moreover have "store_sound sha t'"
    using d(2) good by (auto simp: store_sound_def copies_def content split: if_splits)
  moreover have "writer_ok sha t' v" if v: "v \<in> set us \<union> set ws" for v
  proof -
    have "chunk_file (w_hash w) \<noteq> w_tmp v"
      using tmp_not_chunk [OF writer_valid writer_valid [OF d(3)]] d(4) v unfolding w_tmp_def by blast
    with d(4) d(6) [OF v] v show ?thesis by (simp add: writer_ok_def content)
  qed
  ultimately show ?thesis using d(5) by (auto simp: writers_ok_def)
qed

lemma remove_ok:
  assumes ok: "writers_ok sha (t, ws)" and run: "delete_chunk h t = (r, t')"
  shows "writers_ok sha (t', ws)"
proof (cases "valid_hash h")
  case True
  have wf: "store_wf t" "store_sound sha t" using ok by (auto simp: writers_ok_def)
  from delete_chunk_spec [OF wf(1) True] run have
    t': "store_wf t'" "copies t' = (copies t)(h := None)" by auto
  have content: "t' = t \<or> fs_unlink t (chunk_file h) = Some t'"
    using run True
    by (auto simp: delete_chunk_def unlinkSync_def fs_result_def split: if_splits option.splits)
  have "writer_ok sha t' v" if "v \<in> set ws" for v
  proof -
    have v: "writer_ok sha t v" using that ok by (auto simp: writers_ok_def)
    have "chunk_file h \<noteq> w_tmp v"
      using tmp_not_chunk [OF writer_valid [OF v] True] unfolding w_tmp_def by blast
    with v content show ?thesis by (auto simp: writer_ok_def fs_simps)
  qed
  with t' wf ok show ?thesis by (auto simp: writers_ok_def store_sound_def)
next
  case False
  with assms show ?thesis by (simp add: delete_chunk_invalid)
qed

lemma write_step_ok:
  assumes "write_step sha \<sigma> \<sigma>'" and "writers_ok sha \<sigma>"
  shows "writers_ok sha \<sigma>'"
  using assms
proof (induction rule: write_step.induct)
  case (check b h dir f t z ws)
  then show ?case by (auto simp: writers_ok_def writer_ok_def)
next
  case (piece w t k t' us ws)
  note step = tmp_write [OF piece.prems piece.hyps(2)]
  have "writer_ok sha t' (w\<lparr>w_phase := Partial\<rparr>)"
    using piece.prems by (simp add: writers_ok_def writer_ok_def)
  with step piece.prems same_writers [of us Partial w ws] show ?case by (auto simp: writers_ok_def)
next
  case (written w t t' us ws)
  note step = tmp_write [OF written.prems written.hyps(2)]
  have "writer_ok sha t' (w\<lparr>w_phase := Complete\<rparr>)"
    using written.prems step(3) by (simp add: writers_ok_def writer_ok_def w_tmp_def)
  with step written.prems same_writers [of us Complete w ws] show ?case by (auto simp: writers_ok_def)
next
  case (crash t us w ws)
  then show ?case by (auto simp: writers_ok_def)
next
  case (mkdir w t t' us ws)
  show ?case by (rule mkdir_ok [OF mkdir.prems mkdir.hyps])
next
  case (rename w t t' us ws)
  show ?case by (rule rename_ok [OF rename.prems rename.hyps])
next
  case (remove h t r t' ws)
  show ?case by (rule remove_ok [OF remove.prems remove.hyps])
qed

section \<open>\<^verbatim>\<open>put\<close> is a sequence of these steps\<close>

lemma put_chunk_steps:
  assumes "put_chunk sha z h (Buffer b) t = (r, t')"
  shows "\<exists>ws. rtranclp (write_step sha) (t, []) (t', ws) \<and> (isl r \<or> ws = [])"
proof (cases "sha256_hex sha b = h \<and> \<not> existsSync t (chunk_file h)")
  case False
  have "valid_hash h" if "sha256_hex sha b = h" using that valid_sha256_hex [of sha b] by simp
  with False assms have "t' = t" "r = r" by (auto simp: put_chunk_def Let_def split: if_splits)
  then show ?thesis by blast
next
  case True
  then have h: "valid_hash h" using valid_sha256_hex [of sha b] by simp
  let ?w = "\<lambda>p. \<lparr>w_hash = h, w_bytes = b, w_nonce = z, w_phase = p\<rparr>"
  have tmp: "w_tmp (?w p) = chunk_dir h @ [tmp_name z]" for p by (simp add: w_tmp_def)
  note run = assms [unfolded put_chunk_def hash_input.simps option.case Let_def pathFor_valid [OF h]]
  have "write_step sha (t, []) (t, [?w Absent])"
    using True h by (intro write_step.check [where dir = "chunk_dir h" and f = "chunk_file h"]) simp_all
  then have s1: "rtranclp (write_step sha) (t, []) (t, [?w Absent])" by (rule r_into_rtranclp)
  show ?thesis
  proof (cases "mkdirSync t (chunk_dir h)")
    case (Inl e)
    with run True have "t' = t" "isl r" by auto
    with s1 show ?thesis by blast
  next
    case t1: (Inr t1)
    have "write_step sha (t, [] @ ?w Absent # []) (t1, [] @ (?w Absent)\<lparr>w_phase := DirMade\<rparr> # [])"
      by (rule write_step.mkdir) (simp_all add: t1)
    with s1 have s2: "rtranclp (write_step sha) (t, []) (t1, [?w DirMade])" by simp
    show ?thesis
    proof (cases "writeFileSync t1 (chunk_dir h @ [tmp_name z]) b")
      case (Inl e)
      with run True t1 have "t' = t1" "isl r" by auto
      with s2 show ?thesis by blast
    next
      case t2: (Inr t2)
      have "write_step sha (t1, [] @ ?w DirMade # []) (t2, [] @ (?w DirMade)\<lparr>w_phase := Complete\<rparr> # [])"
        by (rule write_step.written) (simp_all add: t2 tmp)
      with s2 have s3: "rtranclp (write_step sha) (t, []) (t2, [?w Complete])" by simp
      show ?thesis
      proof (cases "renameSync t2 (chunk_dir h @ [tmp_name z]) (chunk_file h)")
        case (Inl e)
        with run True t1 t2 have "t' = t2" "isl r" by auto
        with s3 show ?thesis by blast
      next
        case t3: (Inr t3)
        with run True t1 t2 have "t' = t3" by auto
        moreover have "write_step sha (t2, [] @ ?w Complete # []) (t3, [] @ [])"
          by (rule write_step.rename) (simp_all add: t3 tmp)
        ultimately show ?thesis using s3 by (metis append_Nil rtranclp.rtrancl_into_rtrancl)
      qed
    qed
  qed
qed

section \<open>Properties\<close>

text \<open>
  C17: no torn chunk. Whatever writers do the calls of \<^verbatim>\<open>put\<close> in whatever order, for the same chunk
  or different ones, with deletes in between, pieces of files visible while they are written,
  and any of them dying at any point: at every moment, whatever is stored under the name of a
  chunk has that name as its digest. And the calls of an uninterrupted \<^verbatim>\<open>put\<close> are one such run.
\<close>

theorem no_torn_chunk:
  assumes "store_wf t" and "store_sound sha t" and "rtranclp (write_step sha) (t, []) (t', ws)"
  shows "store_sound sha t' \<and> store_wf t'
    \<and> (\<forall>z h b r t2. put_chunk sha z h (Buffer b) t = (r, t2)
         \<longrightarrow> (\<exists>ws2. rtranclp (write_step sha) (t, []) (t2, ws2) \<and> (isl r \<or> ws2 = [])))"
proof -
  have "writers_ok sha (t', ws)"
    using assms(3)
  proof (induction rule: rtranclp_induct)
    case base
    from assms(1,2) show ?case by (simp add: writers_ok_def)
  qed (rule write_step_ok)
  then have "store_sound sha t' \<and> store_wf t'" by (simp add: writers_ok_def)
  with put_chunk_steps show ?thesis by blast
qed

theorem no_torn_chunk_witness:
  "\<exists>w t1 t2. rtranclp (write_step (\<lambda>_. 5)) (new_store, []) (t1, [w])
    \<and> writeFileSync t1 (w_tmp w) (take 1 [3, 4]) = Inr t2
    \<and> store_sound (\<lambda>_. 5) t2"
proof -
  let ?h = "sha256_hex (\<lambda>_. 5) [3, 4]"
  let ?w = "\<lambda>p. \<lparr>w_hash = ?h, w_bytes = [3, 4], w_nonce = (1, [7]), w_phase = p\<rparr>"
  have h: "valid_hash ?h" by (rule valid_sha256_hex)
  have "\<not> existsSync new_store (chunk_file ?h)"
    using exists_chunk [OF store_wf_new h] by (simp add: copies_new)
  then have "write_step (\<lambda>_. 5) (new_store, []) (new_store, [?w Absent])"
    using h by (intro write_step.check [where dir = "chunk_dir ?h" and f = "chunk_file ?h"]) simp_all
  then have s1: "rtranclp (write_step (\<lambda>_. 5)) (new_store, []) (new_store, [?w Absent])"
    by (rule r_into_rtranclp)
  obtain t1 where t1: "fs_mkdirp new_store (chunk_dir ?h) = Some t1" "fs_depth 3 t1"
    using fs_mkdirp_depth [of 3 new_store "chunk_dir ?h"] store_wf_new by (auto simp: store_wf_def)
  have "write_step (\<lambda>_. 5) (new_store, [] @ ?w Absent # []) (t1, [] @ (?w Absent)\<lparr>w_phase := DirMade\<rparr> # [])"
    by (rule write_step.mkdir) (simp_all add: t1 mkdirSync_def fs_result_def)
  with s1 have s2: "rtranclp (write_step (\<lambda>_. 5)) (new_store, []) (t1, [?w DirMade])" by simp
  obtain es where "fs_lookup t1 (chunk_dir ?h) = Some (Dir es)" using fs_mkdirp_makes [OF t1(1)] ..
  then obtain t2 where "fs_write t1 (w_tmp (?w DirMade)) (take 1 [3, 4]) = Some t2"
    using fs_write_depth [of 3 t1 "w_tmp (?w DirMade)" es "take 1 [3, 4]"] t1(2) by (auto simp: w_tmp_def)
  then have t2: "writeFileSync t1 (w_tmp (?w DirMade)) (take 1 [3, 4]) = Inr t2"
    by (simp add: writeFileSync_def fs_result_def)
  have "write_step (\<lambda>_. 5) (t1, [] @ ?w DirMade # []) (t2, [] @ (?w DirMade)\<lparr>w_phase := Partial\<rparr> # [])"
    by (rule write_step.piece [where k = 1]) (use t2 in simp_all)
  with s2 have "rtranclp (write_step (\<lambda>_. 5)) (new_store, []) (t2, [?w Partial])" by simp
  moreover have "store_sound (\<lambda>_. 5) new_store" by (simp add: store_sound_def copies_new)
  ultimately have "store_sound (\<lambda>_. 5) t2"
    using no_torn_chunk [OF store_wf_new] by blast
  with s2 t2 show ?thesis by blast
qed

end
