(* ===== verification/CallInvariant.thy ===== *)
theory CallInvariant
  imports EndToEnd
begin

text \<open>
  The server reaches the storage nodes by \<^verbatim>\<open>fetch\<close> alone. So what every call to one of its URLs keeps, every
  operation of the coordinator, every route of the server and every sweep keeps: the lemmas of the
  locale \<open>call_invariant\<close>. What does not depend on the metrics at all is kept by the hooks too, and
  so by every request: the locale \<open>request_invariant\<close>.
\<close>

locale call_invariant =
  fixes serve :: "'n server"
    and urls :: "string set"
    and I :: "'n world \<Rightarrow> bool"
  assumes fetch_keeps: "I w \<Longrightarrow> u \<in> urls \<Longrightarrow> I (snd (fetch serve f z (Some u) req w))"
    and bump_keeps: "I w \<Longrightarrow> keeps_requests g \<Longrightarrow> I (bump g w)"
begin

lemma call_keeps: "I w \<Longrightarrow> set_option url \<subseteq> urls \<Longrightarrow> I (snd (fetch serve f z url req w))"
  using fetch_keeps by (cases url) (auto simp: fetch_def)

lemma putToNode_keeps: "I w \<Longrightarrow> set_option url \<subseteq> urls \<Longrightarrow> I (snd (putToNode serve env url x h b w))"
  using call_keeps bump_keeps
  by (simp add: putToNode_def observe_write_def Let_def split_beta split: option.split chunk_payload.split)

lemma getFromNode_keeps: "I w \<Longrightarrow> set_option url \<subseteq> urls \<Longrightarrow> I (snd (getFromNode serve env url x h w))"
  using call_keeps by (simp add: getFromNode_def split_beta)

lemma known_url: "ran m \<subseteq> urls \<Longrightarrow> set_option (m x) \<subseteq> urls"
  by (cases "m x") (auto simp: ran_def)

lemma put_all_keeps: "I w \<Longrightarrow> ran m \<subseteq> urls \<Longrightarrow> I (snd (put_all serve env m h b xs w))"
proof (induction xs arbitrary: w)
  case (Cons x xs)
  have "I (snd (putToNode serve env (m x) x h b w))"
    by (rule putToNode_keeps [OF Cons.prems(1) known_url [OF Cons.prems(2)]])
  from Cons.IH [OF this Cons.prems(2)] show ?case by (simp add: split_beta)
qed simp

lemma putChunk_keeps:
  assumes "I w" and "ran (nodesById co) \<subseteq> urls"
  shows "I (snd (putChunk serve sha1 env co h b w))"
  using put_all_keeps [OF assms, of env h b] bump_keeps assms(1)
  by (auto simp: putChunk_def Let_def split_beta split: option.split)

lemma get_loop_keeps:
  "I w \<Longrightarrow> ran m \<subseteq> urls \<Longrightarrow> I (snd (get_loop serve sha env m h tries i xs reason w))"
proof (induction xs arbitrary: i reason w)
  case (Cons x xs)
  have w1: "I (snd (getFromNode serve env (m x) x h w))"
    by (rule getFromNode_keeps [OF Cons.prems(1) known_url [OF Cons.prems(2)]])
  show ?case
    using Cons.IH [OF w1 Cons.prems(2)] Cons.IH [OF bump_keeps [OF w1] Cons.prems(2)]
      Cons.IH [OF bump_keeps [OF bump_keeps [OF w1]] Cons.prems(2)] w1 bump_keeps [OF w1]
    by (simp add: Let_def split_beta split: get_result.split)
qed simp

lemma getChunk_keeps:
  "I w \<Longrightarrow> ran (nodesById co) \<subseteq> urls \<Longrightarrow> I (snd (getChunk serve sha sha1 env co h w))"
  by (simp add: getChunk_def get_loop_keeps split: option.split)

lemma delete_all_keeps: "I w \<Longrightarrow> ran m \<subseteq> urls \<Longrightarrow> I (snd (delete_all serve env m h xs w))"
proof (induction xs arbitrary: w)
  case (Cons x xs)
  have "I (snd (fetch serve (fate_of env x) (nonce_of env x) (m x) (DeleteChunk h) w))"
    by (rule call_keeps [OF Cons.prems(1) known_url [OF Cons.prems(2)]])
  from Cons.IH [OF this Cons.prems(2)] show ?case by (simp add: Let_def split_beta)
qed simp

lemma deleteChunk_keeps:
  "I w \<Longrightarrow> ran (nodesById co) \<subseteq> urls \<Longrightarrow> I (snd (deleteChunk serve sha1 env co h w))"
  by (simp add: deleteChunk_def delete_all_keeps Let_def split_beta split: option.split)

lemma upload_loop_keeps:
  "I w \<Longrightarrow> ran (nodesById co) \<subseteq> urls \<Longrightarrow> I (snd (upload_loop serve sha1 envs co i cs w))"
proof (induction cs arbitrary: i w)
  case (Cons c cs)
  obtain r w1 where put: "putChunk serve sha1 (envs i) co (chunk_sha c) (chunk_data c) w = (r, w1)"
    by fastforce
  then have "I w1" using putChunk_keeps [OF Cons.prems] by (metis snd_conv)
  from Cons.IH [OF this Cons.prems(2), of "i + 1"] \<open>I w1\<close> put show ?case
    by (auto split: sum.split prod.split)
qed simp

lemma uploadChunks_keeps:
  assumes "I w" and "ran (nodesById co) \<subseteq> urls"
  shows "I (snd (uploadChunks serve P envs co buf w))"
proof (cases "chunkBuffer (sha_of P) (Buffer buf) DEFAULT_CHUNK_SIZE")
  case (Some r)
  then show ?thesis
    using assms(1) upload_loop_keeps [OF assms, of "sha1_of P" envs 0 "projr r"]
    by (cases r) (auto simp: uploadChunks_def split: sum.split prod.split)
qed (simp add: uploadChunks_def assms(1))

lemma read_all_keeps:
  "I w \<Longrightarrow> ran (nodesById co) \<subseteq> urls \<Longrightarrow> I (snd (read_all serve P envs co i hs w))"
proof (induction hs arbitrary: i w)
  case (Cons h hs)
  from Cons.IH [OF getChunk_keeps [OF Cons.prems] Cons.prems(2)] show ?case
    by (simp add: Let_def split_beta)
qed simp

lemma post_file_keeps:
  assumes "I (app_world s)" and "ran (nodesById (app_co s)) \<subseteq> urls"
  shows "I (app_world (snd (post_file serve P e body s)))"
  using uploadChunks_keeps [OF assms, of P "chunk_env e"] assms(1)
  by (auto simp: post_file_def Let_def split_beta split: js_value.split sum.split)

lemma put_file_keeps:
  assumes "I (app_world s)" and "ran (nodesById (app_co s)) \<subseteq> urls"
  shows "I (app_world (snd (put_file serve P e f body s)))"
  using uploadChunks_keeps [OF assms, of P "chunk_env e"] assms(1)
  by (auto simp: put_file_def Let_def split_beta split: js_value.split sum.split option.split)

lemma download_keeps:
  assumes "I (app_world s)" and "ran (nodesById (app_co s)) \<subseteq> urls"
  shows "I (app_world (snd (download serve P e f s)))"
  using read_all_keeps [OF assms, of P "chunk_env e" 0] assms(1)
  by (auto simp: download_def Let_def split_beta split: option.split)

lemma limited_keeps:
  assumes "I (app_world s)" and "\<And>rl. I (app_world (snd (handler (s\<lparr>app_limiter := rl\<rparr>))))"
  shows "I (app_world (snd (limited P clock key handler s)))"
  using assms bump_keeps by (simp add: limited_def Let_def split_beta)

lemma plain_route_keeps:
  assumes "I (app_world s)" and "ran (nodesById (app_co s)) \<subseteq> urls"
    and "\<forall>f query. req \<noteq> DownloadPresigned f query"
  shows "I (app_world (snd (route serve P e req s)))"
  using assms by (cases req) (simp_all add: post_file_keeps put_file_keeps download_keeps)

lemma sweep_keeps:
  assumes "I w" and "ran (nodesById co) \<subseteq> urls"
  shows "I (snd (snd (runGarbageCollection orphans reap (\<lambda>h. deleteChunk serve sha1 (envs h) co h) hint db w)))"
proof -
  obtain q db' w' where loop: "gc_loop (\<lambda>h. deleteChunk serve sha1 (envs h) co h) reap hint (orphans db) 0 0 db w
      = (q, db', w')" by (cases rule: prod_cases3)
  have "I w'"
    by (rule gc_loop_preserves [where I = I, OF _ assms(1) loop]) (metis deleteChunk_keeps assms(2) snd_conv)
  with loop bump_keeps show ?thesis
    by (auto simp: runGarbageCollection_def split: sum.split prod.split)
qed

end

locale request_invariant = call_invariant +
  assumes observe_keeps: "I w \<Longrightarrow> I (bump g w)"
begin

lemma observed_keeps:
  "I (app_world (snd answer)) \<Longrightarrow> I (app_world (snd (observed label ms answer)))"
  using observe_keeps by (simp add: observed_def split_beta)

lemma route_keeps_calls:
  assumes "I (app_world s)" and "ran (nodesById (app_co s)) \<subseteq> urls"
  shows "I (app_world (snd (route serve P e req s)))"
proof (cases "\<exists>f query. req = DownloadPresigned f query")
  case True
  then obtain f query where req: "req = DownloadPresigned f query" by blast
  have "I (app_world (snd (observed (''GET'', ''/files/:fileId/download'') (inject_elapsed_ms e)
      (limited P (inject_clock e) (inject_ip P) (download serve P e f) s))))"
    using assms by (intro observed_keeps limited_keeps download_keeps) simp_all
  with assms(1) req show ?thesis
    by (simp add: download_presigned_def split: sum.split presign_error.split)
qed (use plain_route_keeps [OF assms] in blast)

lemma handle_keeps_calls:
  assumes "I (app_world s)" and "ran (nodesById (app_co s)) \<subseteq> urls"
  shows "I (app_world (snd (handle serve P e client req s)))"
  unfolding handle_def using assms by (intro observed_keeps limited_keeps route_keeps_calls) simp_all

end

end
