(* ===== verification/Url.thy ===== *)
theory Url
  imports Topology
begin

text \<open>
  What \<^verbatim>\<open>scripts/startStorageNodes.js\<close> uses of the platform's \<^verbatim>\<open>URL\<close> and \<^verbatim>\<open>path\<close>: the port of a URL,
  and the joining of directory names.
\<close>

section \<open>URLs\<close>

text \<open>
  Hosts that the parser takes as they are: names in lower case that are not encoded, whose labels begin
  with a letter, and addresses of four numbers without leading zeros.
\<close>

definition plain_label :: "string \<Rightarrow> bool" where
  "plain_label l \<longleftrightarrow> l \<noteq> [] \<and> hd l \<in> set ''abcdefghijklmnopqrstuvwxyz''
     \<and> list_all (\<lambda>c. c \<in> set ''abcdefghijklmnopqrstuvwxyz0123456789-'') l \<and> take 4 l \<noteq> ''xn--''"

definition plain_octet :: "string \<Rightarrow> bool" where
  "plain_octet l \<longleftrightarrow> is_digits l \<and> digits_value l < 256 \<and> l = decimal (digits_value l)"

definition plain_host :: "string \<Rightarrow> bool" where
  "plain_host h \<longleftrightarrow> list_all plain_label (split_on (CHR ''.'') h)
     \<or> length (split_on (CHR ''.'') h) = 4 \<and> list_all plain_octet (split_on (CHR ''.'') h)"

text \<open>
  \<^verbatim>\<open>new URL(u)\<close>: the text of its property \<^verbatim>\<open>port\<close>, which is empty for the default port of the scheme, and
  the port a request to it is sent to; \<open>None\<close> when the constructor throws. Exact on \<^verbatim>\<open>http://\<close>
  followed by a plain host and an optional port; on other text the result is an argument.
\<close>

definition js_URL :: "(string \<Rightarrow> (string \<times> nat) option) \<Rightarrow> string \<Rightarrow> (string \<times> nat) option" where
  "js_URL other u =
     (if take 7 u = ''http://'' then
        (case split_on (CHR '':'') (drop 7 u) of
           [host] \<Rightarrow> if plain_host host then Some ([], 80) else other u
         | [host, digits] \<Rightarrow>
             if plain_host host \<and> is_digits digits then
               let p = digits_value digits
               in if 65535 < p then None
                  else if p = 80 then Some ([], 80)
                  else Some (decimal p, p)
             else other u
         | _ \<Rightarrow> other u)
      else other u)"

lemma js_URL_port:
  assumes "plain_host host" and "CHR '':'' \<notin> set host" and "p < 65536" and "p \<noteq> 80"
  shows "js_URL other (''http://'' @ host @ '':'' @ decimal p) = Some (decimal p, p)"
proof -
  have "CHR '':'' \<notin> set (decimal p)" using decimal_chars [of "CHR '':''" p] by auto
  then have "split_on (CHR '':'') (host @ CHR '':'' # decimal p) = [host, decimal p]"
    using split_on_append [OF assms(2)] split_on_plain by simp
  then show ?thesis using assms decimal_digits [of p] by (simp add: js_URL_def)
qed

lemma js_URL_default:
  assumes "plain_host host" and "CHR '':'' \<notin> set host"
  shows "js_URL other (''http://'' @ host @ '':80'') = Some ([], 80)"
    and "js_URL other (''http://'' @ host) = Some ([], 80)"
proof -
  have "split_on (CHR '':'') (host @ '':80'') = [host, ''80'']"
    using split_on_append [OF assms(2), of "''80''"] by simp
  moreover have "is_digits ''80'' \<and> digits_value ''80'' = 80"
    by (simp add: is_digits_def digits_value_def)
  ultimately show "js_URL other (''http://'' @ host @ '':80'') = Some ([], 80)"
    using assms(1) by (simp add: js_URL_def)
  show "js_URL other (''http://'' @ host) = Some ([], 80)"
    using assms split_on_plain [OF assms(2)] by (simp add: js_URL_def)
qed

section \<open>Paths\<close>

text \<open>A directory is the list of names from the root.\<close>

type_synonym dir = "string list"

fun path_walk :: "dir \<Rightarrow> string list \<Rightarrow> dir" where
  "path_walk d [] = d"
| "path_walk d (s # ss) =
     path_walk (if s = [] \<or> s = ''.'' then d
                else if s = ''..'' then butlast d
                else d @ [s]) ss"

definition path_text :: "dir \<Rightarrow> string" where
  "path_text d = (if d = [] then ''/'' else concat (map (\<lambda>s. CHR ''/'' # s) d))"

text \<open>
  \<^verbatim>\<open>path.join\<close> of an absolute directory and further parts; a slash at the end of the last part is kept.
\<close>

definition path_join :: "dir \<Rightarrow> string list \<Rightarrow> string" where
  "path_join d parts =
     (let e = path_walk d (concat (map (split_on (CHR ''/'')) parts));
          used = filter (\<lambda>s. s \<noteq> []) parts
      in path_text e
         @ (if e \<noteq> [] \<and> used \<noteq> [] \<and> last (last used) = CHR ''/'' then ''/'' else []))"

text \<open>The directory that a path names in a process with the working directory \<open>cwd\<close>.\<close>

definition path_open :: "dir \<Rightarrow> string \<Rightarrow> dir" where
  "path_open cwd p =
     path_walk (case p of c # _ \<Rightarrow> if c = CHR ''/'' then [] else cwd | [] \<Rightarrow> cwd)
       (split_on (CHR ''/'') p)"

definition file_name :: "string \<Rightarrow> bool" where
  "file_name s \<longleftrightarrow> s \<noteq> [] \<and> s \<noteq> ''.'' \<and> s \<noteq> ''..'' \<and> CHR ''/'' \<notin> set s"

lemma path_walk_append [simp]: "path_walk d (ss @ ts) = path_walk (path_walk d ss) ts"
  by (induction ss arbitrary: d) simp_all

lemma path_walk_names: "\<forall>s \<in> set ss. file_name s \<Longrightarrow> path_walk d ss = d @ ss"
  by (induction ss arbitrary: d) (simp_all add: file_name_def)

lemma split_on_concat:
  "\<forall>s \<in> set ss. c \<notin> set s \<Longrightarrow> c \<notin> set s0
     \<Longrightarrow> split_on c (s0 @ concat (map (\<lambda>s. c # s) ss)) = s0 # ss"
proof (induction ss arbitrary: s0)
  case (Cons s ss)
  then show ?case using split_on_append [of c s0 "s @ concat (map (\<lambda>s. c # s) ss)"] by simp
qed (simp add: split_on_plain)

lemma path_open_text:
  assumes "\<forall>s \<in> set d. file_name s"
  shows "path_open cwd (path_text d) = d"
proof (cases d)
  case (Cons s ss)
  have "split_on (CHR ''/'') ([] @ concat (map (\<lambda>s. CHR ''/'' # s) d)) = [] # d"
    by (rule split_on_concat) (use assms in \<open>auto simp: file_name_def\<close>)
  moreover have "path_walk [] d = d" using path_walk_names [OF assms, of "[]"] by simp
  ultimately show ?thesis by (simp add: path_open_def path_text_def Cons)
qed (simp add: path_open_def path_text_def)

lemma path_join_name:
  assumes "file_name x"
  shows "path_join d [''..'', ''data'', x] = path_text (butlast d @ [''data'', x])"
proof -
  have "x \<noteq> []" "split_on (CHR ''/'') x = [x]"
    using assms split_on_plain [of "CHR ''/''" x] by (auto simp: file_name_def)
  moreover have "last x \<noteq> CHR ''/''"
    using assms last_in_set [of x] unfolding file_name_def by metis
  ultimately have "x \<noteq> []" "last x \<noteq> CHR ''/''" "split_on (CHR ''/'') x = [x]" by simp_all
  then show ?thesis using assms by (simp add: path_join_def file_name_def Let_def)
qed

end
