(* ===== verification/Launcher.thy ===== *)
theory Launcher
  imports Url Quorum
begin

text \<open>
  \<^verbatim>\<open>scripts/startStorageNodes.js\<close> and the command line of \<^verbatim>\<open>src/storageNode.js\<close>: one process per node of
  the topology, each with a port and a data directory of its own. A process serves requests from its
  directory on disk, so what it stored outlives it.
\<close>

section \<open>The code\<close>

subsection \<open>The command line of a storage node\<close>

record node_env =
  NODE_ID :: "string option"
  PORT :: "string option"
  DATA_DIR :: "string option"

text \<open>\<^verbatim>\<open>process.env.NAME || d\<close>.\<close>

definition env_text :: "string option \<Rightarrow> string \<Rightarrow> string" where
  "env_text v d = (case v of Some (c # s) \<Rightarrow> c # s | _ \<Rightarrow> d)"

record node_config =
  cfg_nodeId :: string
  cfg_port :: jsnum
  cfg_dataDir :: string

definition node_main :: "(string \<Rightarrow> jsnum) \<Rightarrow> node_env \<Rightarrow> node_config" where
  "node_main num env =
     (let nodeId = env_text (NODE_ID env) ''node-0''
      in \<lparr>cfg_nodeId = nodeId, cfg_port = env_number num (PORT env) 4100,
          cfg_dataDir = env_text (DATA_DIR env) (''./data/'' @ nodeId)\<rparr>)"

text \<open>
  The ports that \<^verbatim>\<open>listen\<close> may bind for a given number: this one, or any for 0. Other numbers are
  errors.
\<close>

definition tcp_port :: "jsnum \<Rightarrow> nat \<Rightarrow> bool" where
  "tcp_port n p \<longleftrightarrow> (n = js_nat p \<or> n = js_nat 0) \<and> 0 < p \<and> p < 65536"

subsection \<open>The launcher\<close>

text \<open>What the machine provides: digests, conversions, and where the files are.\<close>

record machine =
  mach_sha :: sha256
  mach_number :: "string \<Rightarrow> jsnum"
  mach_url :: "string \<Rightarrow> (string \<times> nat) option"
  mach_dirname :: dir
  mach_cwd :: dir

datatype child_state = Starting | Listening nat | Exited

record child =
  child_id :: string
  child_cfg :: node_config
  child_state :: child_state

record launcher =
  children :: "child list"
  alive :: bool
  disk :: "dir \<Rightarrow> fsnode option"

definition spawn_node :: "machine \<Rightarrow> string \<Rightarrow> string \<Rightarrow> child" where
  "spawn_node M nodeId port =
     \<lparr>child_id = nodeId,
      child_cfg = node_main (mach_number M)
        \<lparr>NODE_ID = Some nodeId, PORT = Some port,
         DATA_DIR = Some (path_join (mach_dirname M) [''..'', ''data'', nodeId])\<rparr>,
      child_state = Starting\<rparr>"

text \<open>
  The loop over the topology: the error it ends with, if any, and the children it has spawned by then.
\<close>

fun launch_loop ::
  "machine \<Rightarrow> (string \<times> string option) list \<Rightarrow> child list \<Rightarrow> js_error option \<times> child list" where
  "launch_loop M [] cs = (None, cs)"
| "launch_loop M ((nodeId, url) # nodes) cs =
     (case Option.bind url (js_URL (mach_url M)) of
        None \<Rightarrow> (Some TypeError, cs)
      | Some (port, _) \<Rightarrow> launch_loop M nodes (cs @ [spawn_node M nodeId port]))"

definition launch :: "machine \<Rightarrow> environment \<Rightarrow> (dir \<Rightarrow> fsnode option) \<Rightarrow> launcher" where
  "launch M env files =
     (let (err, cs) = launch_loop M (loadTopology env) []
      in \<lparr>children = cs, alive = (err = None), disk = files\<rparr>)"

subsection \<open>The processes\<close>

definition data_dir :: "machine \<Rightarrow> child \<Rightarrow> dir" where
  "data_dir M c = path_open (mach_cwd M) (cfg_dataDir (child_cfg c))"

text \<open>The constructor of the chunk store makes the directory unless it is there.\<close>

definition open_dir :: "dir \<Rightarrow> (dir \<Rightarrow> fsnode option) \<Rightarrow> dir \<Rightarrow> fsnode option" where
  "open_dir d files = (case files d of None \<Rightarrow> files(d \<mapsto> new_store) | Some _ \<Rightarrow> files)"

text \<open>A running process: its id, and the store in its directory.\<close>

definition child_node :: "machine \<Rightarrow> (dir \<Rightarrow> fsnode option) \<Rightarrow> child \<Rightarrow> storage_node option" where
  "child_node M files c =
     map_option (\<lambda>t. \<lparr>node_id = cfg_nodeId (child_cfg c), node_store = t\<rparr>) (files (data_dir M c))"

definition ports :: "child list \<Rightarrow> nat list" where
  "ports cs = concat (map (\<lambda>c. case child_state c of Listening p \<Rightarrow> [p] | _ \<Rightarrow> []) cs)"

text \<open>\<^verbatim>\<open>SIGINT\<close>: the launcher stops its children and exits.\<close>

definition stop_all :: "launcher \<Rightarrow> launcher" where
  "stop_all l = l\<lparr>children := map (child_state_update (\<lambda>_. Exited)) (children l), alive := False\<rparr>"

text \<open>
  A child gets its port, or exits because it does not (\<^verbatim>\<open>process.exit(1)\<close>); it serves a request; it is
  killed; the launcher is interrupted and takes its children with it.
\<close>

inductive launch_step :: "machine \<Rightarrow> launcher \<Rightarrow> launcher \<Rightarrow> bool" for M where
  listens: "children l = cs @ c # ds \<Longrightarrow> child_state c = Starting
    \<Longrightarrow> tcp_port (cfg_port (child_cfg c)) p \<Longrightarrow> p \<notin> set (ports (children l))
    \<Longrightarrow> launch_step M l (l\<lparr>children := cs @ c\<lparr>child_state := Listening p\<rparr> # ds,
          disk := open_dir (data_dir M c) (disk l)\<rparr>)"
| listen_fails: "children l = cs @ c # ds \<Longrightarrow> child_state c = Starting
    \<Longrightarrow> launch_step M l (l\<lparr>children := cs @ c\<lparr>child_state := Exited\<rparr> # ds,
          disk := open_dir (data_dir M c) (disk l)\<rparr>)"
| serves: "c \<in> set (children l) \<Longrightarrow> child_state c = Listening p
    \<Longrightarrow> child_node M (disk l) c = Some n \<Longrightarrow> node_serve (mach_sha M) z req n = (r, n')
    \<Longrightarrow> launch_step M l (l\<lparr>disk := (disk l)(data_dir M c \<mapsto> node_store n')\<rparr>)"
| killed: "children l = cs @ c # ds
    \<Longrightarrow> launch_step M l (l\<lparr>children := cs @ c\<lparr>child_state := Exited\<rparr> # ds\<rparr>)"
| sigint: "alive l \<Longrightarrow> launch_step M l (stop_all l)"

text \<open>
  What the coordinator sees: at a URL, the process that listens on its port, every URL naming this machine.
\<close>

definition launched_world :: "machine \<Rightarrow> launcher \<Rightarrow> storage_node world" where
  "launched_world M l =
     \<lparr>servers = (\<lambda>url. case js_URL (mach_url M) url of
          None \<Rightarrow> None
        | Some (_, p) \<Rightarrow>
            Option.bind (find (\<lambda>c. child_state c = Listening p) (children l)) (child_node M (disk l))),
      counters = no_metrics\<rparr>"

section \<open>The invariant of the processes\<close>

definition launch_inv :: "machine \<Rightarrow> launcher \<Rightarrow> bool" where
  "launch_inv M l \<longleftrightarrow> distinct (ports (children l))
     \<and> (\<forall>d t. disk l d = Some t \<longrightarrow> store_ok (mach_sha M) t)
     \<and> (\<forall>c \<in> set (children l). \<forall>p. child_state c = Listening p
          \<longrightarrow> tcp_port (cfg_port (child_cfg c)) p \<and> disk l (data_dir M c) \<noteq> None)"

lemma ports_simps [simp]:
  "ports [] = []" "ports (cs @ ds) = ports cs @ ports ds"
  "ports (c # cs) = (case child_state c of Listening p \<Rightarrow> [p] | _ \<Rightarrow> []) @ ports cs"
  by (simp_all add: ports_def)

lemma set_ports: "p \<in> set (ports cs) \<longleftrightarrow> (\<exists>c \<in> set cs. child_state c = Listening p)"
  by (induction cs) (auto split: child_state.splits)

lemma ports_exited [simp]: "ports (map (child_state_update (\<lambda>_. Exited)) cs) = []"
  by (induction cs) simp_all

lemma find_listening:
  "distinct (ports cs) \<Longrightarrow> c \<in> set cs \<Longrightarrow> child_state c = Listening p
     \<Longrightarrow> find (\<lambda>c. child_state c = Listening p) cs = Some c"
proof (induction cs)
  case (Cons d cs)
  show ?case
  proof (cases "child_state d = Listening p")
    case True
    with Cons.prems have "p \<notin> set (ports cs)" by simp
    then have "c \<notin> set cs" using Cons.prems(3) by (auto simp: set_ports)
    with True Cons.prems show ?thesis by simp
  next
    case False
    then have "c \<in> set cs" using Cons.prems by auto
    moreover have "distinct (ports cs)" using Cons.prems(1) by simp
    ultimately show ?thesis using Cons False by simp
  qed
qed simp

lemma store_ok_serve:
  assumes "store_ok sha (node_store n)"
  shows "store_ok sha (node_store (snd (node_serve sha z req n)))"
proof (cases req)
  case (PutChunk h v)
  then show ?thesis
    using store_ok_put [OF assms, of z h v] by (auto simp: node_put_def Let_def split_beta split: sum.split)
next
  case (GetChunk h)
  with assms show ?thesis by (auto simp: node_get_def split: sum.split option.split)
next
  case (DeleteChunk h)
  then show ?thesis
    using store_ok_delete [OF assms, of h] by (auto simp: node_delete_def Let_def split_beta split: sum.split)
qed (use assms in simp_all)

lemma node_serve_id: "node_id (snd (node_serve sha z req n)) = node_id n"
  by (cases req) (auto simp: node_put_def node_get_def node_delete_def Let_def split_beta
      split: sum.split option.split)

lemma open_dir_ok:
  "\<forall>d t. files d = Some t \<longrightarrow> store_ok sha t \<Longrightarrow> open_dir e files d = Some t \<Longrightarrow> store_ok sha t"
  by (auto simp: open_dir_def store_ok_new split: option.splits if_splits)

lemma open_dir_keeps: "files d \<noteq> None \<Longrightarrow> open_dir e files d \<noteq> None" "open_dir d files d \<noteq> None"
  by (auto simp: open_dir_def split: option.splits)

lemma data_dir_state [simp]: "data_dir M (c\<lparr>child_state := x\<rparr>) = data_dir M c"
  by (simp add: data_dir_def)

lemma launch_step_inv:
  assumes "launch_step M l l'" and "launch_inv M l"
  shows "launch_inv M l'"
  using assms
proof (induction rule: launch_step.induct)
  case (listens l cs c ds p)
  then show ?case
    using open_dir_ok [of "disk l" "mach_sha M" "data_dir M c"] open_dir_keeps [where files = "disk l"]
    unfolding launch_inv_def by (auto simp del: not_None_eq)
next
  case (listen_fails l cs c ds)
  then show ?case
    using open_dir_ok [of "disk l" "mach_sha M" "data_dir M c"] open_dir_keeps [where files = "disk l"]
    unfolding launch_inv_def by (auto simp del: not_None_eq)
next
  case (serves c l p n z req r n')
  then have "store_ok (mach_sha M) (node_store n)" by (auto simp: launch_inv_def child_node_def)
  from store_ok_serve [OF this, of z req] serves show ?case by (auto simp: launch_inv_def)
next
  case (killed l cs c ds)
  then show ?case by (auto simp: launch_inv_def)
qed (auto simp: launch_inv_def stop_all_def)

lemma launch_run_inv: "rtranclp (launch_step M) l l' \<Longrightarrow> launch_inv M l \<Longrightarrow> launch_inv M l'"
  by (induction rule: rtranclp_induct) (auto intro: launch_step_inv)

section \<open>A launched cluster\<close>

text \<open>The children never change but for their state.\<close>

definition static :: "launcher \<Rightarrow> (string \<times> node_config) list" where
  "static l = map (\<lambda>c. (child_id c, child_cfg c)) (children l)"

lemma launch_step_static: "launch_step M l l' \<Longrightarrow> static l' = static l"
  by (induction rule: launch_step.induct) (simp_all add: static_def stop_all_def)

lemma launch_run_static: "rtranclp (launch_step M) l l' \<Longrightarrow> static l' = static l"
  by (induction rule: rtranclp_induct) (simp_all add: launch_step_static)

text \<open>Nodes as the script expects them: a name that is a file name, and a URL with a port of its own.\<close>

definition node_url :: "string \<Rightarrow> nat \<Rightarrow> string" where
  "node_url host p = ''http://'' @ host @ '':'' @ decimal p"

definition nodes_ok :: "(string \<times> string \<times> nat) list \<Rightarrow> bool" where
  "nodes_ok nodes \<longleftrightarrow> nodes \<noteq> []
     \<and> (\<forall>(x, host, p) \<in> set nodes. file_name x \<and> plain x \<and> plain_host host \<and> 0 < p \<and> p < 65536 \<and> p \<noteq> 80)
     \<and> distinct (map fst nodes) \<and> distinct (map (snd \<circ> snd) nodes)"

definition nodes_text :: "(string \<times> string \<times> nat) list \<Rightarrow> string" where
  "nodes_text nodes = show_topology (map (\<lambda>(x, host, p). (x, node_url host p)) nodes)"

definition node_dir :: "machine \<Rightarrow> string \<Rightarrow> dir" where
  "node_dir M x = butlast (mach_dirname M) @ [''data'', x]"

lemma set_split_on: "set s \<subseteq> insert c (\<Union> (set ` set (split_on c s)))"
proof (induction s)
  case (Cons d s)
  obtain t ts where "split_on c s = t # ts" by (cases "split_on c s") auto
  with Cons show ?case by auto
qed simp

lemma plain_host_without:
  assumes "plain_host host" and c: "c = CHR ''='' \<or> c = CHR '','' \<or> c = CHR '':''"
  shows "c \<notin> set host"
proof -
  have c': "c \<notin> set ''abcdefghijklmnopqrstuvwxyz0123456789-''" "c \<notin> set ''0123456789''" "c \<noteq> CHR ''.''"
    using c by auto
  have "c \<notin> set l" if "l \<in> set (split_on (CHR ''.'') host)" for l
  proof -
    have "plain_label l \<or> plain_octet l" using assms(1) that by (auto simp: plain_host_def list_all_iff)
    then show ?thesis using c' unfolding plain_label_def plain_octet_def is_digits_def list_all_iff by metis
  qed
  then show ?thesis using set_split_on [of host "CHR ''.''"] c'(3) by blast
qed

lemma plain_node_url:
  assumes "plain_host host"
  shows "plain (node_url host p)"
proof -
  have "c \<notin> set host" "c \<notin> set (decimal p)" if "c = CHR ''='' \<or> c = CHR '',''" for c
    using plain_host_without [OF assms, of c] decimal_chars [of c p] that by auto
  then show ?thesis by (simp add: plain_def node_url_def)
qed

lemma js_URL_node:
  assumes "plain_host host" and "p < 65536"
  shows "js_URL other (node_url host p) = Some (if p = 80 then [] else decimal p, p)"
proof -
  have colon: "CHR '':'' \<notin> set host" by (rule plain_host_without [OF assms(1)]) simp
  have "decimal 80 = ''80''" by code_simp
  with js_URL_port [OF assms(1) colon assms(2)] js_URL_default(1) [OF assms(1) colon] show ?thesis
    by (simp add: node_url_def)
qed

definition node_child :: "machine \<Rightarrow> string \<Rightarrow> nat \<Rightarrow> child" where
  "node_child M x p =
     \<lparr>child_id = x,
      child_cfg = \<lparr>cfg_nodeId = x, cfg_port = js_nat p, cfg_dataDir = path_text (node_dir M x)\<rparr>,
      child_state = Starting\<rparr>"

lemma spawn_node_plain:
  assumes "file_name x" and "p < 65536"
  shows "spawn_node M x (decimal p) = node_child M x p"
proof -
  have "x \<noteq> []" using assms(1) by (simp add: file_name_def)
  then have "env_text (Some x) d = x" for d by (cases x) (simp_all add: env_text_def)
  moreover have "env_number num (Some (decimal p)) d = js_nat p" for num d
    using js_Number_decimal [of p num] assms(2)
    by (cases "decimal p") (simp_all add: env_number_def)
  moreover have "path_text (node_dir M x) \<noteq> []" by (simp add: path_text_def node_dir_def)
  then have "env_text (Some (path_text (node_dir M x))) d = path_text (node_dir M x)" for d
    by (cases "path_text (node_dir M x)") (simp_all add: env_text_def)
  ultimately show ?thesis
    using path_join_name [OF assms(1)]
    by (simp add: spawn_node_def node_main_def node_child_def node_dir_def)
qed

text \<open>The text that \<^verbatim>\<open>URL\<close> gives for a port.\<close>

definition port_text :: "nat \<Rightarrow> string" where
  "port_text p = (if p = 80 then [] else decimal p)"

lemma launch_urls:
  assumes "nodes \<noteq> []" and ok: "\<forall>(x, host, p) \<in> set nodes. plain x \<and> plain_host host \<and> p < 65536"
    and env: "STORAGE_NODES env = Some (nodes_text nodes)"
  shows "launch M env files = \<lparr>children = map (\<lambda>(x, host, p). spawn_node M x (port_text p)) nodes,
    alive = True, disk = files\<rparr>"
proof -
  have "loadTopology env = map (\<lambda>(x, u). (x, Some u)) (map (\<lambda>(x, host, p). (x, node_url host p)) nodes)"
    using ok assms(1) env
    by (intro loadTopology_show) (auto simp: plain_node_url nodes_text_def)
  moreover have "launch_loop M (map (\<lambda>(x, u). (x, Some u)) (map (\<lambda>(x, host, p). (x, node_url host p)) ns)) cs
      = (None, cs @ map (\<lambda>(x, host, p). spawn_node M x (port_text p)) ns)" if "set ns \<subseteq> set nodes" for ns cs
    using that
  proof (induction ns arbitrary: cs)
    case (Cons n ns)
    obtain x host p where n: "n = (x, host, p)" by (cases n)
    then have "plain_host host \<and> p < 65536" using Cons.prems ok by auto
    then have "js_URL (mach_url M) (node_url host p) = Some (port_text p, p)"
      by (simp add: js_URL_node port_text_def)
    with Cons show ?case by (simp add: n)
  qed simp
  ultimately show ?thesis by (simp add: launch_def)
qed

lemma launch_nodes:
  assumes "nodes_ok nodes" and "STORAGE_NODES env = Some (nodes_text nodes)"
  shows "launch M env files
    = \<lparr>children = map (\<lambda>(x, host, p). node_child M x p) nodes, alive = True, disk = files\<rparr>"
proof -
  have "map (\<lambda>(x, host, p). spawn_node M x (port_text p)) nodes = map (\<lambda>(x, host, p). node_child M x p) nodes"
    using assms(1) by (intro map_cong) (auto simp: nodes_ok_def port_text_def spawn_node_plain)
  moreover have "nodes \<noteq> []" "\<forall>(x, host, p) \<in> set nodes. plain x \<and> plain_host host \<and> p < 65536"
    using assms(1) by (auto simp: nodes_ok_def)
  from launch_urls [OF this assms(2)] have
    "launch M env files = \<lparr>children = map (\<lambda>(x, host, p). spawn_node M x (port_text p)) nodes,
       alive = True, disk = files\<rparr>" .
  ultimately show ?thesis by simp
qed

text \<open>The port each process is told, and that of a node without one in its URL.\<close>

lemma node_children:
  assumes "nodes \<noteq> []" and ok: "\<forall>(x, host, p) \<in> set nodes. plain x \<and> plain_host host \<and> p < 65536"
    and env: "STORAGE_NODES env = Some (nodes_text nodes)"
    and run: "rtranclp (launch_step M) (launch M env files) l"
  shows "(\<lambda>c. (child_id c, cfg_port (child_cfg c))) ` set (children l)
    = (\<lambda>(x, host, p). (x, js_nat (if p = 80 then 4100 else p))) ` set nodes"
proof -
  have child: "(child_id (spawn_node M x (port_text p)), cfg_port (child_cfg (spawn_node M x (port_text p))))
      = (x, js_nat (if p = 80 then 4100 else p))" if "p < 65536" for x p
    using js_Number_decimal [of p "mach_number M"] that
    by (cases "decimal p") (simp_all add: spawn_node_def node_main_def Let_def port_text_def env_number_def)
  have "map (\<lambda>c. (child_id c, cfg_port (child_cfg c))) (children l)
      = map (\<lambda>(x, cfg). (x, cfg_port cfg)) (static l)"
    by (simp add: static_def comp_def)
  also have "\<dots> = map (\<lambda>(x, host, p). (child_id (spawn_node M x (port_text p)),
      cfg_port (child_cfg (spawn_node M x (port_text p))))) nodes"
    unfolding launch_run_static [OF run] launch_urls [OF assms(1-3)]
    by (simp add: static_def comp_def split_beta)
  also have "\<dots> = map (\<lambda>(x, host, p). (x, js_nat (if p = 80 then 4100 else p))) nodes"
    using ok child by (intro map_cong) auto
  finally have "set (map (\<lambda>c. (child_id c, cfg_port (child_cfg c))) (children l))
      = set (map (\<lambda>(x, host, p). (x, js_nat (if p = 80 then 4100 else p))) nodes)" by (rule arg_cong)
  then show ?thesis by simp
qed

lemma launch_inv_start:
  assumes "\<forall>d t. files d = Some t \<longrightarrow> store_ok (mach_sha M) t"
  shows "launch_inv M (launch M env files)"
proof -
  have starting: "\<forall>c \<in> set (snd (launch_loop M ns cs)). child_state c = Starting"
    if "\<forall>c \<in> set cs. child_state c = Starting" for ns cs
    using that
  proof (induction ns arbitrary: cs)
    case (Cons n ns)
    then have "\<forall>c \<in> set (snd (launch_loop M ns (cs @ [spawn_node M x port]))). child_state c = Starting"
      for x port by (intro Cons.IH) (simp add: spawn_node_def)
    with Cons.prems show ?case by (cases n) (simp split: option.split)
  qed simp
  have "ports cs = []" if "\<forall>c \<in> set cs. child_state c = Starting" for cs
    using that by (induction cs) simp_all
  with starting [of "[]" "loadTopology env"] assms show ?thesis
    by (auto simp: launch_def launch_inv_def split_beta)
qed

definition all_listening :: "launcher \<Rightarrow> bool" where
  "all_listening l \<longleftrightarrow> (\<forall>c \<in> set (children l). \<exists>p. child_state c = Listening p)"

lemma launch_inv_world:
  assumes "launch_inv M l"
  shows "cluster_ok (launched_world M l)" and "cluster_sound (mach_sha M) (launched_world M l)"
proof -
  have "store_ok (mach_sha M) (node_store n)" if "servers (launched_world M l) u = Some n" for u n
    using that assms
    by (auto simp: launched_world_def launch_inv_def child_node_def bind_eq_Some_conv split: option.splits)
  then show "cluster_ok (launched_world M l)" "cluster_sound (mach_sha M) (launched_world M l)"
    by (auto simp: world_ok_def cluster_sound_def node_wf_def node_copy_def store_ok_def store_sound_def)
qed

text \<open>Each process that listens is the one its URL names, and serves its own directory.\<close>

lemma launched_at:
  assumes nodes: "nodes_ok nodes" "STORAGE_NODES env = Some (nodes_text nodes)"
    and dirs: "\<forall>s \<in> set (mach_dirname M). file_name s"
    and run: "rtranclp (launch_step M) (launch M env files) l" and inv: "launch_inv M l"
    and up: "all_listening l" and n: "(x, host, p) \<in> set nodes"
  obtains t where "disk l (node_dir M x) = Some t"
    and "servers (launched_world M l) (node_url host p) = Some \<lparr>node_id = x, node_store = t\<rparr>"
proof -
  have ok: "file_name x" "plain_host host" "0 < p" "p < 65536" "p \<noteq> 80"
    using nodes(1) n by (auto simp: nodes_ok_def)
  let ?cfg = "\<lparr>cfg_nodeId = x, cfg_port = js_nat p, cfg_dataDir = path_text (node_dir M x)\<rparr>"
  have "static l = map (\<lambda>(x, host, p). (child_id (node_child M x p), child_cfg (node_child M x p))) nodes"
    using launch_run_static [OF run] by (simp add: launch_nodes [OF nodes] static_def comp_def split_beta)
  with n have "(x, ?cfg) \<in> set (static l)"
    by (auto simp: node_child_def intro!: image_eqI [where x = "(x, host, p)"])
  then obtain c where c: "c \<in> set (children l)" "child_cfg c = ?cfg"
    by (auto simp: static_def)
  with up obtain q where q: "child_state c = Listening q" by (auto simp: all_listening_def)
  with inv c have "tcp_port (js_nat p) q" and "disk l (data_dir M c) \<noteq> None"
    by (auto simp: launch_inv_def)
  moreover have "data_dir M c = node_dir M x"
  proof -
    have "\<forall>s \<in> set (node_dir M x). file_name s"
      using dirs ok(1) by (auto simp: node_dir_def file_name_def dest: in_set_butlastD)
    then show ?thesis by (simp add: data_dir_def c path_open_text)
  qed
  ultimately obtain t where t: "q = p" "disk l (node_dir M x) = Some t" "data_dir M c = node_dir M x"
    using ok(3) by (auto simp: tcp_port_def js_nat_def)
  have "find (\<lambda>c. child_state c = Listening p) (children l) = Some c"
    using find_listening inv c(1) q t(1) by (auto simp: launch_inv_def)
  with t that ok show thesis
    by (simp add: launched_world_def js_URL_node child_node_def c)
qed

text \<open>Steps that leave every directory as it is.\<close>

abbreviation quiet :: "machine \<Rightarrow> launcher \<Rightarrow> launcher \<Rightarrow> bool" where
  "quiet M l l' \<equiv> launch_step M l l' \<and> (\<forall>d t. disk l d = Some t \<longrightarrow> disk l' d = Some t)"

lemma quiet_run:
  assumes "rtranclp (quiet M) l l'"
  shows "rtranclp (launch_step M) l l'" and "disk l d = Some t \<Longrightarrow> disk l' d = Some t"
  using assms by (induction rule: rtranclp_induct) auto

text \<open>The children can all come up, in the order of the list.\<close>

lemma can_listen:
  assumes "distinct ps" and "length ps = length cs"
    and "\<forall>i < length cs. child_state (cs ! i) = Starting \<and> tcp_port (cfg_port (child_cfg (cs ! i))) (ps ! i)"
    and "children l = up @ cs" and "\<forall>c \<in> set up. \<exists>p. child_state c = Listening p"
    and "set (ports up) \<inter> set ps = {}"
  shows "\<exists>l'. rtranclp (quiet M) l l' \<and> all_listening l'"
  using assms
proof (induction cs arbitrary: ps up l)
  case Nil
  then show ?case by (auto simp: all_listening_def)
next
  case (Cons c cs)
  then obtain q qs where ps: "ps = q # qs" by (cases ps) auto
  have c: "child_state c = Starting" "tcp_port (cfg_port (child_cfg c)) q"
    using Cons.prems(3) ps by auto
  have rest: "\<forall>i < length cs. child_state (cs ! i) = Starting \<and> tcp_port (cfg_port (child_cfg (cs ! i))) (qs ! i)"
  proof (intro allI impI)
    fix i assume "i < length cs"
    with Cons.prems(3) ps show "child_state (cs ! i) = Starting
        \<and> tcp_port (cfg_port (child_cfg (cs ! i))) (qs ! i)"
      by (elim allE [of _ "Suc i"]) simp
  qed
  then have "ports cs = []"
  proof -
    have "child_state d = Starting" if "d \<in> set cs" for d
      using rest that by (metis in_set_conv_nth)
    then show ?thesis by (induction cs) simp_all
  qed
  let ?c = "c\<lparr>child_state := Listening q\<rparr>"
  let ?l = "l\<lparr>children := up @ ?c # cs, disk := open_dir (data_dir M c) (disk l)\<rparr>"
  have "launch_step M l ?l"
    by (rule launch_step.listens)
      (use Cons.prems(4,6) c ps \<open>ports cs = []\<close> in auto)
  then have step: "quiet M l ?l" by (simp add: open_dir_def split: option.split)
  have "\<exists>l'. rtranclp (quiet M) ?l l' \<and> all_listening l'"
    by (rule Cons.IH [of qs, where up = "up @ [?c]"])
      (use Cons.prems ps rest in auto)
  with converse_rtranclp_into_rtranclp [of "quiet M", OF step] show ?case by blast
qed

lemma nodes_can_listen:
  assumes "nodes_ok nodes" and "STORAGE_NODES env = Some (nodes_text nodes)"
  shows "\<exists>l. rtranclp (quiet M) (launch M env files) l \<and> all_listening l"
proof (rule can_listen [where ps = "map (snd \<circ> snd) nodes" and up = "[]"])
  let ?cs = "map (\<lambda>(x, host, p). node_child M x p) nodes"
  show "distinct (map (snd \<circ> snd) nodes)" using assms(1) by (simp add: nodes_ok_def)
  show "length (map (snd \<circ> snd) nodes) = length ?cs" by simp
  show "children (launch M env files) = [] @ ?cs" by (simp add: launch_nodes [OF assms])
  show "\<forall>i < length ?cs. child_state (?cs ! i) = Starting
      \<and> tcp_port (cfg_port (child_cfg (?cs ! i))) (map (snd \<circ> snd) nodes ! i)"
  proof (intro allI impI)
    fix i assume i: "i < length ?cs"
    obtain x host p where n: "nodes ! i = (x, host, p)" by (cases "nodes ! i")
    with i have "(x, host, p) \<in> set nodes" by (metis length_map nth_mem)
    with assms(1) have "0 < p \<and> p < 65536" by (auto simp: nodes_ok_def)
    with i n show "child_state (?cs ! i) = Starting
        \<and> tcp_port (cfg_port (child_cfg (?cs ! i))) (map (snd \<circ> snd) nodes ! i)"
      by (simp add: node_child_def tcp_port_def)
  qed
qed simp_all

section \<open>Properties\<close>

text \<open>
  C24: the launcher starts the cluster that the topology describes. With node names that are file
  names and URLs with different ports other than 80, no iteration throws; all processes can come up;
  and whenever all are up, in whatever order and after whatever requests, each node's URL
  reaches the process with this node's id, which serves this node's own directory.
\<close>

theorem launched_nodes_serve:
  assumes "nodes_ok nodes" and "STORAGE_NODES env = Some (nodes_text nodes)"
    and "\<forall>s \<in> set (mach_dirname M). file_name s"
    and "\<forall>d t. files d = Some t \<longrightarrow> store_ok (mach_sha M) t"
  shows "alive (launch M env files)
    \<and> (\<exists>l. rtranclp (launch_step M) (launch M env files) l \<and> all_listening l)
    \<and> (\<forall>l x host p. rtranclp (launch_step M) (launch M env files) l \<longrightarrow> all_listening l \<longrightarrow>
         (x, host, p) \<in> set nodes \<longrightarrow>
         (\<exists>t. disk l (node_dir M x) = Some t
            \<and> servers (launched_world M l) (node_url host p) = Some \<lparr>node_id = x, node_store = t\<rparr>))"
proof (intro conjI allI impI)
  note start = launch_nodes [OF assms(1,2), of M files]
  show "alive (launch M env files)" by (simp add: start)
  show "\<exists>l. rtranclp (launch_step M) (launch M env files) l \<and> all_listening l"
    using nodes_can_listen [OF assms(1,2)] quiet_run(1) by blast
next
  fix l x host p
  assume run: "rtranclp (launch_step M) (launch M env files) l" and l: "all_listening l"
    "(x, host, p) \<in> set nodes"
  have "launch_inv M l" by (rule launch_run_inv [OF run launch_inv_start [OF assms(4)]])
  from launched_at [OF assms(1-3) run this l]
  show "\<exists>t. disk l (node_dir M x) = Some t
      \<and> servers (launched_world M l) (node_url host p) = Some \<lparr>node_id = x, node_store = t\<rparr>" by metis
qed

definition demo_machine :: machine where
  "demo_machine = \<lparr>mach_sha = (\<lambda>_. 1), mach_number = (\<lambda>_. NaN), mach_url = (\<lambda>_. None),
     mach_dirname = [''app'', ''scripts''], mach_cwd = [''app'']\<rparr>"

lemma demo_dirs: "\<forall>s \<in> set (mach_dirname demo_machine). file_name s"
  by (simp add: demo_machine_def file_name_def)

definition demo_nodes :: "(string \<times> string \<times> nat) list" where
  "demo_nodes = [(''a'', ''localhost'', 4100), (''b'', ''localhost'', 4101), (''c'', ''localhost'', 4102)]"

definition demo_launch_env :: environment where
  "demo_launch_env = \<lparr>STORAGE_NODES = Some (nodes_text demo_nodes), REPLICATION_FACTOR = None,
     WRITE_QUORUM = None\<rparr>"

lemma demo_host: "plain_host ''localhost''"
  by (simp add: plain_host_def plain_label_def)

lemma demo_nodes_ok: "nodes_ok demo_nodes"
  using demo_host by (simp add: nodes_ok_def demo_nodes_def file_name_def plain_def)

theorem launched_nodes_serve_witness:
  "\<exists>l t. rtranclp (launch_step demo_machine) (launch demo_machine demo_launch_env (\<lambda>_. None)) l
    \<and> servers (launched_world demo_machine l) (node_url ''localhost'' 4101)
        = Some \<lparr>node_id = ''b'', node_store = t\<rparr>"
proof -
  have env: "STORAGE_NODES demo_launch_env = Some (nodes_text demo_nodes)" by (simp add: demo_launch_env_def)
  have "(''b'', ''localhost'', 4101) \<in> set demo_nodes" by (simp add: demo_nodes_def)
  with launched_nodes_serve [OF demo_nodes_ok env demo_dirs, of "\<lambda>_. None"] show ?thesis by blast
qed

text \<open>
  The processes are a sound cluster in every moment. From directories without corrupt
  copies, through starts that fail, requests, kills and the interrupt, no two processes listen on one
  port, the world the coordinator sees satisfies what the theorems about the coordinator assume, and
  after the interrupt no URL is served any more while every directory stays as it is.
\<close>

theorem launched_cluster_sound:
  assumes "\<forall>d t. files d = Some t \<longrightarrow> store_ok (mach_sha M) t"
    and "rtranclp (launch_step M) (launch M env files) l"
  shows "distinct (ports (children l)) \<and> cluster_ok (launched_world M l)
    \<and> cluster_sound (mach_sha M) (launched_world M l)
    \<and> (\<forall>l'. alive l \<longrightarrow> rtranclp (launch_step M) (stop_all l) l' \<longrightarrow>
         servers (launched_world M l') = Map.empty \<and> disk l' = disk l)"
proof -
  have inv: "launch_inv M l" by (rule launch_run_inv [OF assms(2) launch_inv_start [OF assms(1)]])
  have stop: "(\<forall>c \<in> set (children l'). child_state c = Exited) \<and> disk l' = disk l"
    if "rtranclp (launch_step M) (stop_all l) l'" for l'
    using that
  proof (induction rule: rtranclp_induct)
    case (step y z)
    from step.hyps(2) step.IH show ?case by (cases rule: launch_step.cases) (auto simp: stop_all_def)
  qed (auto simp: stop_all_def)
  have "servers (launched_world M l') = Map.empty"
    if "\<forall>c \<in> set (children l'). child_state c = Exited" for l'
  proof -
    have "find (\<lambda>c. child_state c = Listening p) (children l') = None" for p
      using that by (auto simp: find_None_iff)
    then show ?thesis by (auto simp: launched_world_def split: option.split)
  qed
  with stop launch_inv_world [OF inv] inv show ?thesis by (simp add: launch_inv_def)
qed

theorem launched_cluster_sound_witness:
  "cluster_ok (launched_world demo_machine (launch demo_machine demo_launch_env (\<lambda>_. None)))"
  using launched_cluster_sound [of "\<lambda>_. None" demo_machine, OF _ rtranclp.rtrancl_refl] by simp

text \<open>
  A node with the default port is never reached. \<^verbatim>\<open>URL\<close> gives the empty text for the port 80 of
  an \<^verbatim>\<open>http\<close> URL and the process takes it for no port at all and listens on 4100, while the coordinator
  sends its requests to port 80.
\<close>

theorem default_port_unserved:
  assumes "\<forall>(x, host, p) \<in> set nodes. plain x \<and> plain_host host \<and> 0 < p \<and> p < 65536"
    and "STORAGE_NODES env = Some (nodes_text nodes)" and "(x, host, 80) \<in> set nodes"
    and "\<forall>d t. files d = Some t \<longrightarrow> store_ok (mach_sha M) t"
    and "rtranclp (launch_step M) (launch M env files) l"
  shows "(\<exists>c \<in> set (children l). child_id c = x \<and> cfg_port (child_cfg c) = js_nat 4100)
    \<and> servers (launched_world M l) (node_url host 80) = None"
proof -
  have "nodes \<noteq> []" using assms(3) by auto
  moreover have "\<forall>(x, host, p) \<in> set nodes. plain x \<and> plain_host host \<and> p < 65536"
    using assms(1) by auto
  ultimately have cs: "(\<lambda>c. (child_id c, cfg_port (child_cfg c))) ` set (children l)
      = (\<lambda>(x, host, p). (x, js_nat (if p = 80 then 4100 else p))) ` set nodes"
    by (rule node_children [OF _ _ assms(2,5)])
  have "(x, js_nat 4100) \<in> (\<lambda>(x, host, p). (x, js_nat (if p = 80 then 4100 else p))) ` set nodes"
    using assms(3) by force
  then have "\<exists>c \<in> set (children l). child_id c = x \<and> cfg_port (child_cfg c) = js_nat 4100"
    unfolding cs [symmetric] by auto
  moreover have "child_state c \<noteq> Listening 80" if "c \<in> set (children l)" for c
  proof
    assume "child_state c = Listening 80"
    with launch_run_inv [OF assms(5) launch_inv_start [OF assms(4)]] that
    have "tcp_port (cfg_port (child_cfg c)) 80" by (auto simp: launch_inv_def)
    moreover have "(child_id c, cfg_port (child_cfg c))
        \<in> (\<lambda>(x, host, p). (x, js_nat (if p = 80 then 4100 else p))) ` set nodes"
      using that by (simp add: cs [symmetric])
    then obtain p where "0 < p" "cfg_port (child_cfg c) = js_nat (if p = 80 then 4100 else p)"
      using assms(1) by auto
    ultimately show False by (auto simp: tcp_port_def js_nat_def split: if_splits)
  qed
  then have "find (\<lambda>c. child_state c = Listening 80) (children l) = None"
    by (simp add: find_None_iff)
  moreover have "plain_host host" using assms(1,3) by auto
  ultimately show ?thesis by (simp add: launched_world_def js_URL_node)
qed

theorem default_port_unserved_witness:
  "servers (launched_world demo_machine (launch demo_machine
      (demo_launch_env\<lparr>STORAGE_NODES := Some (nodes_text [(''a'', ''localhost'', 80)])\<rparr>) (\<lambda>_. None)))
    (node_url ''localhost'' 80) = None"
  using default_port_unserved [of "[(''a'', ''localhost'', 80)]"
      "demo_launch_env\<lparr>STORAGE_NODES := Some (nodes_text [(''a'', ''localhost'', 80)])\<rparr>" "''a''" "''localhost''"
      "\<lambda>_. None" demo_machine, OF _ _ _ _ rtranclp.rtrancl_refl] demo_host
  by (simp add: plain_def)

end
