(* ===== verification/Processes.thy ===== *)
theory Processes
  imports CallInvariant Launcher
begin

text \<open>
  The server on top of the launched processes: every run of the server against the world that the
  theorems speak of is a run of the processes, with their directories on disk. Then what happens when all
  processes are stopped and started again.
\<close>

section \<open>Calls are requests to processes\<close>

text \<open>URLs that name different ports, and processes with different directories.\<close>

definition separate :: "machine \<Rightarrow> string set \<Rightarrow> launcher \<Rightarrow> bool" where
  "separate M U l \<longleftrightarrow> distinct (map (data_dir M) (children l))
     \<and> (\<forall>u \<in> U. js_URL (mach_url M) u \<noteq> None)
     \<and> inj_on (\<lambda>u. snd (the (js_URL (mach_url M) u))) U"

abbreviation serving :: "machine \<Rightarrow> launcher \<Rightarrow> launcher \<Rightarrow> bool" where
  "serving M l l' \<equiv> launch_step M l l' \<and> children l' = children l \<and> alive l' = alive l"

definition agrees :: "machine \<Rightarrow> string set \<Rightarrow> launcher \<Rightarrow> storage_node world \<Rightarrow> bool" where
  "agrees M U l w \<longleftrightarrow> (\<forall>u \<in> U. servers w u = servers (launched_world M l) u)"

definition simulated :: "machine \<Rightarrow> string set \<Rightarrow> launcher \<Rightarrow> storage_node world \<Rightarrow> bool" where
  "simulated M U l w \<longleftrightarrow> separate M U l \<and> launch_inv M l
     \<and> (\<exists>l'. rtranclp (serving M) l l' \<and> agrees M U l' w)"

lemma serving_run:
  assumes "rtranclp (serving M) l l'"
  shows "rtranclp (launch_step M) l l'" and "children l' = children l"
  using assms by (induction rule: rtranclp_induct) auto

lemma separate_children: "children l' = children l \<Longrightarrow> separate M U l' = separate M U l"
  by (simp add: separate_def)

text \<open>One call, carried out by the process that listens on the URL's port.\<close>

lemma serving_agrees:
  assumes sep: "separate M U l" and agr: "agrees M U l w" and u: "u \<in> U"
    and url: "js_URL (mach_url M) u = Some (t, p)"
    and c: "find (\<lambda>c. child_state c = Listening p) (children l) = Some c"
    and node: "child_node M (disk l) c = Some n" and "node_id n' = node_id n"
  shows "agrees M U (l\<lparr>disk := (disk l)(data_dir M c \<mapsto> node_store n')\<rparr>) (w\<lparr>servers := (servers w)(u \<mapsto> n')\<rparr>)"
    (is "agrees M U ?l ?w")
  unfolding agrees_def
proof
  fix v assume v: "v \<in> U"
  have cl: "c \<in> set (children l)" "child_state c = Listening p"
    using c by (auto simp: find_Some_iff)
  have same: "child_node M (disk ?l) c = Some n'"
    using node assms(7) by (auto simp: child_node_def)
  show "servers ?w v = servers (launched_world M ?l) v"
  proof (cases "v = u")
    case True
    with same c url show ?thesis by (simp add: launched_world_def)
  next
    case v_u: False
    obtain t' q where v_url: "js_URL (mach_url M) v = Some (t', q)"
      using sep v by (auto simp: separate_def)
    have "q \<noteq> p"
      using sep u v v_u url v_url unfolding separate_def inj_on_def by (metis option.sel snd_conv)
    have "child_node M (disk ?l) d = child_node M (disk l) d"
      if d: "find (\<lambda>c. child_state c = Listening q) (children l) = Some d" for d
    proof -
      have "d \<in> set (children l)" "child_state d = Listening q" using d by (auto simp: find_Some_iff)
      with cl \<open>q \<noteq> p\<close> sep have "data_dir M d \<noteq> data_dir M c"
        unfolding separate_def distinct_map inj_on_def by (metis child_state.inject)
      then show ?thesis by (simp add: child_node_def)
    qed
    with v_u v_url agr v show ?thesis
      by (cases "find (\<lambda>c. child_state c = Listening q) (children l)")
        (simp_all add: agrees_def launched_world_def)
  qed
qed

lemma fetch_served:
  assumes sep: "separate M U l" and inv: "launch_inv M l" and agr: "agrees M U l w" and u: "u \<in> U"
  shows "\<exists>l'. rtranclp (serving M) l l'
    \<and> agrees M U l' (snd (fetch (node_serve (mach_sha M)) f z (Some u) req w))"
proof (cases "servers w u = None \<or> f = Drop")
  case True
  then have "snd (fetch (node_serve (mach_sha M)) f z (Some u) req w) = w"
    by (auto simp: fetch_def split: option.split)
  with agr show ?thesis by auto
next
  case False
  then obtain n where n: "servers w u = Some n" by auto
  obtain r n' where serve: "node_serve (mach_sha M) z req n = (r, n')" by fastforce
  from n agr u have "servers (launched_world M l) u = Some n" by (simp add: agrees_def)
  then obtain t p c where url: "js_URL (mach_url M) u = Some (t, p)"
    and c: "find (\<lambda>c. child_state c = Listening p) (children l) = Some c"
    and node: "child_node M (disk l) c = Some n"
    by (auto simp: launched_world_def bind_eq_Some_conv split: option.splits)
  have cl: "c \<in> set (children l)" "child_state c = Listening p"
    using c by (auto simp: find_Some_iff)
  let ?l = "l\<lparr>disk := (disk l)(data_dir M c \<mapsto> node_store n')\<rparr>"
  have "serving M l ?l" using launch_step.serves [OF cl node serve] by simp
  moreover have "agrees M U ?l (w\<lparr>servers := (servers w)(u \<mapsto> n')\<rparr>)"
    by (rule serving_agrees [OF sep agr u url c node]) (use node_serve_id [of "mach_sha M" z req n] serve in simp)
  moreover have "servers (snd (fetch (node_serve (mach_sha M)) f z (Some u) req w))
      = servers (w\<lparr>servers := (servers w)(u \<mapsto> n')\<rparr>)"
    using False n serve by (simp add: fetch_def)
  ultimately have "serving M l ?l"
    "agrees M U ?l (snd (fetch (node_serve (mach_sha M)) f z (Some u) req w))"
    by (simp_all add: agrees_def)
  then show ?thesis using r_into_rtranclp [of "serving M" l ?l] by blast
qed

lemma fetch_simulated:
  assumes "simulated M U l w" and "u \<in> U"
  shows "simulated M U l (snd (fetch (node_serve (mach_sha M)) f z (Some u) req w))"
proof -
  obtain l1 where l1: "rtranclp (serving M) l l1" "agrees M U l1 w" "separate M U l" "launch_inv M l"
    using assms(1) by (auto simp: simulated_def)
  have "separate M U l1" "launch_inv M l1"
    using l1 serving_run [OF l1(1)] launch_run_inv separate_children by metis+
  from fetch_served [OF this l1(2) assms(2), of f z req] l1 show ?thesis
    unfolding simulated_def by (meson rtranclp_trans)
qed

lemma simulated_bump: "simulated M U l w \<Longrightarrow> simulated M U l (bump g w)"
  by (simp add: simulated_def agrees_def)

interpretation processes: request_invariant "node_serve (mach_sha M)" U "simulated M U l" for M U l
  by unfold_locales (rule fetch_simulated simulated_bump, assumption+)+

lemma server_step_simulated:
  assumes "server_step P allowed s s'" and M: "mach_sha M = sha_of P"
    and sim: "simulated M U l (app_world s)" and urls: "ran (nodesById (app_co s)) \<subseteq> U"
  shows "simulated M U l (app_world s')"
  using assms(1)
proof (elim server_stepE)
  fix req e client r
  assume "handle (node_serve (sha_of P)) P e client req s = (r, s')"
  with processes.handle_keeps_calls [OF sim urls, of P e client req] M show ?thesis by simp
next
  fix envs hint assume s': "s' = gc_step P envs hint s"
  have "simulated M U l (snd (snd (gc_sweep (sha_of P) (sha1_of P) envs (app_co s) hint (app_db s) (app_world s))))"
    unfolding gc_sweep_def M [symmetric] by (rule processes.sweep_keeps [OF sim urls])
  then show ?thesis by (simp add: s' gc_step_def split_beta)
qed

lemma server_run_simulated:
  assumes "rtranclp (server_step P allowed) s s'" and M: "mach_sha M = sha_of P"
    and sim: "simulated M U l (app_world s)" and urls: "ran (nodesById (app_co s)) \<subseteq> U"
  shows "simulated M U l (app_world s') \<and> app_co s' = app_co s"
  using assms(1)
proof (induction rule: rtranclp_induct)
  case (step y z)
  with server_step_simulated [OF step.hyps(2) M] urls server_step_co [OF step.hyps(2)] show ?case by simp
qed (simp add: sim)

end
