(* ===== verification/Availability.thy ===== *)
theory Availability
  imports EndToEnd
begin

text \<open>
  Uploads succeed. The theorems about uploads say what holds when they are answered with success; this
  theory shows that they are, as long as enough nodes answer.
\<close>

section \<open>Nodes that are up\<close>

text \<open>Every node of the ring has a URL with a server behind it.\<close>

definition ring_served :: "coordinator \<Rightarrow> 'n world \<Rightarrow> bool" where
  "ring_served co w \<longleftrightarrow> 0 < vnodesPerNode (co_ring co)
     \<and> (\<forall>x \<in> set (ring_nodes (co_ring co)). Option.bind (nodesById co x) (servers w) \<noteq> None)"

lemma evolves_served:
  assumes "evolves copy R w w'"
  shows "ring_served co w' \<longleftrightarrow> ring_served co w"
proof -
  have "servers w u = None \<longleftrightarrow> servers w' u = None" for u
    using assms unfolding evolves_def by (metis option.rel_distinct(1) option.rel_distinct(2) option.exhaust_sel)
  then have "Option.bind url (servers w) = None \<longleftrightarrow> Option.bind url (servers w') = None" for url
    by (cases url) auto
  then show ?thesis by (simp add: ring_served_def)
qed

text \<open>With fewer than N - W + 1 bad nodes, W nodes of every preference list are good.\<close>

lemma enough_good:
  assumes co: "config_ok n k co" and served: "ring_served co w"
    and size: "n \<le> length (ring_nodes (co_ring co))"
    and bad: "finite bad" "card bad + k \<le> n" and up: "\<forall>x. x \<notin> bad \<longrightarrow> fate_of env x = Deliver"
  obtains pl where "preferenceList sha1 (co_ring co) h (repl_n co) = Some pl"
    and "k \<le> length (filter (\<lambda>x. fate_of env x = Deliver \<and> Option.bind (nodesById co x) (servers w) \<noteq> None) pl)"
proof -
  let ?r = "co_ring co"
  let ?pl = "take n (node_order sha1 ?r h)"
  let ?good = "\<lambda>x. fate_of env x = Deliver \<and> Option.bind (nodesById co x) (servers w) \<noteq> None"
  have ring: "ring_wf ?r" "ring_fits ?r" "repl_n co = js_nat n" "0 < vnodesPerNode ?r"
    using co served by (simp_all add: config_ok_def ring_served_def)
  have pl: "preferenceList sha1 ?r h (repl_n co) = Some ?pl"
    unfolding ring(3) by (rule preferenceList_Some [OF ring(1,2)])
  have len: "length ?pl = n" using length_node_order [OF ring(1,4)] size by (simp add: ring_size_def)
  have "set ?pl \<subseteq> set (ring_nodes ?r)"
    using set_node_order [OF ring(1,4)] set_take_subset by fast
  then have "?good x" if "x \<in> set ?pl" "x \<notin> bad" for x
    using that served up unfolding ring_served_def by blast
  then have "set ?pl - bad \<subseteq> set (filter ?good ?pl)" by auto
  then have "card (set ?pl - bad) \<le> card (set (filter ?good ?pl))"
    by (rule card_mono [OF finite_set])
  moreover have "card (set (filter ?good ?pl)) = length (filter ?good ?pl)"
    by (intro distinct_card distinct_filter distinct_take distinct_node_order)
  moreover have "card (set ?pl) = n"
    using len distinct_card [of ?pl] by (simp add: distinct_take)
  moreover have "card (set ?pl) - card bad \<le> card (set ?pl - bad)" using bad(1) by (rule diff_card_le_card_Diff)
  ultimately have "k \<le> length (filter ?good ?pl)" using bad(2) by linarith
  with pl that show thesis by blast
qed

lemma upload_loop_succeeds:
  assumes "cluster_ok w" and "config_ok n k co" and "ring_served co w"
    and "n \<le> length (ring_nodes (co_ring co))" and "finite bad" "card bad + k \<le> n"
    and "\<forall>i x. x \<notin> bad \<longrightarrow> fate_of (envs i) x = Deliver"
    and "\<forall>c \<in> set cs. chunk_sha c = sha256_hex sha (chunk_data c)"
  shows "\<exists>results w'. upload_loop (node_serve sha) sha1 envs co i cs w = (Inr results, w')"
  using assms(1,3,8)
proof (induction cs arbitrary: i w)
  case (Cons c cs)
  have up: "\<forall>x. x \<notin> bad \<longrightarrow> fate_of (envs i) x = Deliver" using assms(7) by blast
  obtain pl where pl: "preferenceList sha1 (co_ring co) (chunk_sha c) (repl_n co) = Some pl"
    "k \<le> length (filter (\<lambda>x. fate_of (envs i) x = Deliver \<and> Option.bind (nodesById co x) (servers w) \<noteq> None) pl)"
    by (rule enough_good [OF assms(2) Cons.prems(2) assms(4-6) up])
  have W: "write_w co = js_nat k" using assms(2) by (simp add: config_ok_def)
  have "sha256_hex sha (chunk_data c) = chunk_sha c" using Cons.prems(3) by simp
  then obtain rep w1 where put: "putChunk (node_serve sha) sha1 (envs i) co (chunk_sha c) (chunk_data c) w
      = (Inr rep, w1)"
    using putChunk_succeeds [OF Cons.prems(1) W _ pl] by blast
  note frame = putChunk_frame [OF Cons.prems(1) put]
  have "ring_served co w1" using Cons.prems(2) frame evolves_served by blast
  with Cons.IH [of w1 "i + 1"] frame Cons.prems(3) put show ?case by auto
qed simp

lemma uploadChunks_succeeds:
  assumes "cluster_ok w" and "config_ok n k co" and "ring_served co w"
    and "n \<le> length (ring_nodes (co_ring co))" and "finite bad" "card bad + k \<le> n"
    and "\<forall>i x. x \<notin> bad \<longrightarrow> fate_of (envs i) x = Deliver"
  obtains results w' where "uploadChunks (node_serve (sha_of P)) P envs co buf w
    = (Inr (map (hashChunk (sha_of P)) (blocks DEFAULT_CHUNK_SIZE buf), results, length buf), w')"
proof -
  let ?cs = "numbered (sha_of P) 0 (blocks DEFAULT_CHUNK_SIZE buf)"
  have "chunk_sha c = sha256_hex (sha_of P) (chunk_data c)" if "c \<in> set (numbered (sha_of P) j bs)" for c j bs
    using that by (induction bs arbitrary: j) (auto simp: hashChunk_def)
  then have "\<forall>c \<in> set ?cs. chunk_sha c = sha256_hex (sha_of P) (chunk_data c)" by blast
  from upload_loop_succeeds [OF assms this, of "sha1_of P" 0] that show thesis
    by (auto simp: uploadChunks_def chunkBuffer_blocks)
qed

lemma uploads_succeed:
  assumes "server_inv n k P s" and "ring_served (app_co s) (app_world s)"
    and "n \<le> length (ring_nodes (co_ring (app_co s)))" and "finite bad" and "card bad + k \<le> n"
    and "\<forall>i x. x \<notin> bad \<longrightarrow> fate_of (chunk_env e i) x = Deliver"
    and "getFile (app_db s) (newId ''file'' (file_random e)) = None"
    and "getVersion (app_db s) (newId ''ver'' (version_random e)) = None"
  shows "status (fst (post_file (node_serve (sha_of P)) P e (Buffer buf) s)) = 201"
    and "getFile (app_db s) f \<noteq> None
      \<Longrightarrow> status (fst (put_file (node_serve (sha_of P)) P e f (Buffer buf) s)) = 200"
proof -
  let ?hs = "map (hashChunk (sha_of P)) (blocks DEFAULT_CHUNK_SIZE buf)"
  obtain results w1 where up: "uploadChunks (node_serve (sha_of P)) P (chunk_env e) (app_co s) buf (app_world s)
      = (Inr (?hs, results, length buf), w1)"
    by (rule uploadChunks_succeeds [OF server_invD(3,1) [OF assms(1)] assms(2-6)])
  have free: "newId ''ver'' (version_random e) \<notin> version_id ` set (versions (app_db s))"
    "newId ''file'' (file_random e) \<notin> file_id ` set (files (app_db s))"
    using assms(7,8) find_key_None [of file_id _ "files (app_db s)"] by (simp_all add: getFile_def)
  have wf: "metadata_wf (app_db s)" by (rule server_invD(5) [OF assms(1)])
  show "status (fst (post_file (node_serve (sha_of P)) P e (Buffer buf) s)) = 201"
  proof -
    obtain db1 where create: "createFile (file_random e) (file_now e) (app_db s)
        = (Inr (newId ''file'' (file_random e)), db1)"
      and db1: "versions db1 = versions (app_db s)" "newId ''file'' (file_random e) \<in> file_id ` set (files db1)"
      using free(2) by (simp add: createFile_def Let_def)
    have "metadata_wf db1"
      using metadata_wf_create [OF wf, of "file_random e" "file_now e"] create by simp
    with create db1 free(1) up show ?thesis
      by (simp add: post_file_def commitVersion_eq)
  qed
  show "status (fst (put_file (node_serve (sha_of P)) P e f (Buffer buf) s)) = 200"
    if "getFile (app_db s) f \<noteq> None"
  proof -
    from that obtain row where row: "getFile (app_db s) f = Some row" by (meson not_None_eq)
    then have "f \<in> file_id ` set (files (app_db s))"
      using find_key_None [of file_id f "files (app_db s)"] by (auto simp: getFile_def)
    with row free(1) up show ?thesis
      by (simp add: put_file_def commitVersion_eq [OF wf] Let_def)
  qed
qed

section \<open>Properties\<close>

text \<open>
  C23: uploads and updates succeed while enough nodes answer. If every node of the ring has a server, at
  most N - W nodes are unreachable or misbehave during the request, and the random ids are not taken,
  then an upload of any bytes is answered with 201 and an update of a file that exists with 200.
\<close>

theorem upload_available:
  assumes "server_inv n k P s" and "ring_served (app_co s) (app_world s)"
    and "n \<le> length (ring_nodes (co_ring (app_co s)))" and "finite bad" and "card bad + k \<le> n"
    and "\<forall>i x. x \<notin> bad \<longrightarrow> fate_of (chunk_env e i) x = Deliver"
    and "getFile (app_db s) (newId ''file'' (file_random e)) = None"
    and "getVersion (app_db s) (newId ''ver'' (version_random e)) = None"
  shows "status (fst (route (node_serve (sha_of P)) P e (PostFile (Buffer buf)) s)) = 201
    \<and> (getFile (app_db s) f \<noteq> None \<longrightarrow>
         status (fst (route (node_serve (sha_of P)) P e (PutFile f (Buffer buf)) s)) = 200)"
  using uploads_succeed [OF assms] by simp

theorem upload_available_witness:
  "status (fst (route (node_serve demo_sha) demo_platform (demo_request {''b''} [1])
      (PostFile (Buffer [9, 8])) demo_app)) = 201"
proof -
  have co: "app_co demo_app = demo" "app_world demo_app = demo_world" "app_db demo_app = empty_db"
    by (simp_all add: demo_app_def)
  have "ring_served (app_co demo_app) (app_world demo_app)"
    by (simp add: ring_served_def co demo_def demo_vnodes demo_world_def)
  moreover have "3 \<le> length (ring_nodes (co_ring (app_co demo_app)))"
    by (simp add: co demo_def demo_ring_nodes)
  moreover have "\<forall>i x. x \<notin> {''b''} \<longrightarrow> fate_of (chunk_env (demo_request {''b''} [1]) i) x = Deliver"
    by (simp add: demo_request_def demo_env_def)
  ultimately show ?thesis
    using upload_available [OF demo_app_inv, of "{''b''}" "demo_request {''b''} [1]" "[9, 8]"]
    by (simp add: co getFile_def empty_db_def demo_platform_def)
qed

end
