(* ===== verification/Restart.thy ===== *)
theory Restart
  imports Processes Availability
begin

text \<open>
  The command lines of \<^verbatim>\<open>src/server.js\<close> and \<^verbatim>\<open>src/gc.js\<close>: both open the database file named in the environment
  and build their own coordinator. What the collector's process does is a sweep of the server's
  system, and a cluster that is stopped and started again has its files back.
\<close>

section \<open>The code\<close>

text \<open>
  \<^verbatim>\<open>new DatabaseSync(path)\<close> and the schema, whose statements leave tables alone that are there. A database
  in memory is always new.
\<close>

definition open_database :: "(string \<Rightarrow> metadata option) \<Rightarrow> string \<Rightarrow> metadata" where
  "open_database dbs path =
     (if path = '':memory:'' then empty_db
      else case dbs path of None \<Rightarrow> empty_db | Some db \<Rightarrow> db)"

definition db_path :: "string option \<Rightarrow> string" where
  "db_path DB_PATH = env_text DB_PATH ''./data/metadata.sqlite''"

text \<open>The command line of the server: the port it listens on, and the server.\<close>

definition server_main ::
  "platform \<Rightarrow> environment \<Rightarrow> string option \<Rightarrow> string option \<Rightarrow> (string \<Rightarrow> metadata option)
     \<Rightarrow> 'n world \<Rightarrow> jsnum \<times> 'n app" where
  "server_main P env DB_PATH port dbs w =
     (env_number (number_of P) port 3000,
      (buildServer P env None w)\<lparr>app_db := open_database dbs (db_path DB_PATH)\<rparr>)"

text \<open>The command line of the collector: one sweep, in a process of its own.\<close>

definition gc_main ::
  "platform \<Rightarrow> environment \<Rightarrow> string option \<Rightarrow> (string \<Rightarrow> call_env) \<Rightarrow> (string \<Rightarrow> metadata option)
     \<Rightarrow> storage_node world
     \<Rightarrow> (js_error + gc_report) \<times> (string \<Rightarrow> metadata option) \<times> storage_node world" where
  "gc_main P env DB_PATH envs dbs w =
     (let nodes = loadTopology env;
          coordinator = build_coordinator (sha1_of P) (number_of P) env 100 nodes;
          path = db_path DB_PATH;
          (result, db, w1) = gc_sweep (sha_of P) (sha1_of P) envs coordinator (Some DEFAULT_CHUNK_SIZE)
            (open_database dbs path) w
      in (result, if path = '':memory:'' then dbs else dbs(path \<mapsto> db), w1))"

section \<open>Stopping and starting again\<close>

lemma ran_fold_nodesById:
  "ran (fold (\<lambda>(nodeId, url) m. m(nodeId := url)) ns m0) \<subseteq> ran m0 \<union> (\<Union> (set_option ` snd ` set ns))"
proof (induction ns arbitrary: m0)
  case (Cons n ns)
  obtain x u where n: "n = (x, u)" by fastforce
  have "ran (m0(x := u)) \<subseteq> ran m0 \<union> set_option u" by (auto simp: ran_def)
  with Cons.IH [of "m0(x := u)"]
  have "ran (fold (\<lambda>(nodeId, url) m. m(nodeId := url)) ns (m0(x := u)))
      \<subseteq> (ran m0 \<union> set_option u) \<union> (\<Union> (set_option ` snd ` set ns))" by blast
  then show ?case
    by (simp only: n fold_simps prod.case list.set(2) image_insert snd_conv Union_insert Un_assoc)
qed simp

abbreviation urls_of :: "(string \<times> string \<times> nat) list \<Rightarrow> string set" where
  "urls_of nodes \<equiv> (\<lambda>(x, host, p). node_url host p) ` set nodes"

lemma nodes_topology:
  assumes "nodes_ok nodes" and "STORAGE_NODES env = Some (nodes_text nodes)"
  shows "loadTopology env = map (\<lambda>(x, host, p). (x, Some (node_url host p))) nodes"
proof -
  have "loadTopology env = map (\<lambda>(x, u). (x, Some u)) (map (\<lambda>(x, host, p). (x, node_url host p)) nodes)"
    using assms by (intro loadTopology_show) (auto simp: nodes_ok_def plain_node_url nodes_text_def)
  then show ?thesis by (simp add: comp_def split_beta)
qed

lemma nodes_urls:
  assumes "nodes_ok nodes" and "STORAGE_NODES env = Some (nodes_text nodes)"
  shows "ran (nodesById (build_coordinator sha1 num env vn (loadTopology env))) \<subseteq> urls_of nodes"
  using ran_fold_nodesById [of "loadTopology env" Map.empty]
  by (force simp: build_coordinator_def nodes_topology [OF assms])

lemma data_dir_node:
  assumes "\<forall>s \<in> set (mach_dirname M). file_name s" and "file_name x"
  shows "data_dir M (node_child M x p) = node_dir M x"
proof -
  have "\<forall>s \<in> set (node_dir M x). file_name s"
    using assms by (auto simp: node_dir_def file_name_def dest: in_set_butlastD)
  then show ?thesis by (simp add: data_dir_def node_child_def path_open_text)
qed

lemma launched_separate:
  assumes nodes: "nodes_ok nodes" "STORAGE_NODES env = Some (nodes_text nodes)"
    and dirs: "\<forall>s \<in> set (mach_dirname M). file_name s"
    and run: "rtranclp (launch_step M) (launch M env fs) l"
  shows "separate M (urls_of nodes) l"
proof -
  have "map (data_dir M) (children l) = map (\<lambda>(x, cfg). path_open (mach_cwd M) (cfg_dataDir cfg)) (static l)"
    by (simp add: static_def data_dir_def comp_def)
  also have "\<dots> = map (\<lambda>(x, host, p). data_dir M (node_child M x p)) nodes"
    unfolding launch_run_static [OF run] launch_nodes [OF nodes]
    by (simp add: static_def data_dir_def comp_def split_beta)
  also have "\<dots> = map (node_dir M) (map fst nodes)"
    using nodes(1) data_dir_node [OF dirs] by (auto simp: nodes_ok_def)
  finally have "distinct (map (data_dir M) (children l))"
    using nodes(1) by (simp add: nodes_ok_def distinct_map inj_on_def node_dir_def)
  moreover have url: "js_URL (mach_url M) (node_url host p) = Some (decimal p, p)"
    if "(x, host, p) \<in> set nodes" for x host p
    using that nodes(1) by (auto simp: nodes_ok_def js_URL_node)
  moreover have "inj_on (\<lambda>u. snd (the (js_URL (mach_url M) u))) (urls_of nodes)"
  proof (rule inj_onI, elim imageE)
    fix u v m n assume uv: "u = (case m of (x, host, p) \<Rightarrow> node_url host p)" "m \<in> set nodes"
      "v = (case n of (x, host, p) \<Rightarrow> node_url host p)" "n \<in> set nodes"
      and eq: "snd (the (js_URL (mach_url M) u)) = snd (the (js_URL (mach_url M) v))"
    from eq url uv have "snd (snd m) = snd (snd n)" by (cases m, cases n) simp
    moreover have inj: "inj_on (snd \<circ> snd) (set nodes)"
      using nodes(1) by (simp add: nodes_ok_def distinct_map)
    ultimately have "m = n" by (intro inj_onD [OF inj _ uv(2,4)]) simp
    with uv show "u = v" by simp
  qed
  ultimately show ?thesis by (auto simp: separate_def)
qed

lemma relaunched_same:
  assumes nodes: "nodes_ok nodes" "STORAGE_NODES env = Some (nodes_text nodes)"
    and dirs: "\<forall>s \<in> set (mach_dirname M). file_name s"
    and l1: "rtranclp (launch_step M) (launch M env fs) l1" "launch_inv M l1" "all_listening l1"
    and l2: "rtranclp (quiet M) (launch M env (disk l1)) l2" "all_listening l2"
  shows "\<forall>u \<in> urls_of nodes. servers (launched_world M l2) u = servers (launched_world M l1) u"
proof clarify
  fix x host p assume n: "(x, host, p) \<in> set nodes"
  have "launch_inv M (launch M env (disk l1))"
    using l1(2) by (intro launch_inv_start) (auto simp: launch_inv_def)
  then have inv2: "launch_inv M l2" using launch_run_inv quiet_run(1) [OF l2(1)] by blast
  obtain t1 where t1: "disk l1 (node_dir M x) = Some t1"
      "servers (launched_world M l1) (node_url host p) = Some \<lparr>node_id = x, node_store = t1\<rparr>"
    by (rule launched_at [OF nodes dirs l1 n])
  obtain t2 where t2: "disk l2 (node_dir M x) = Some t2"
      "servers (launched_world M l2) (node_url host p) = Some \<lparr>node_id = x, node_store = t2\<rparr>"
    by (rule launched_at [OF nodes dirs quiet_run(1) [OF l2(1)] inv2 l2(2) n])
  have "disk (launch M env (disk l1)) = disk l1" by (simp add: launch_def split_beta)
  with t1(1) quiet_run(2) [OF l2(1), of "node_dir M x" t1] t2(1) have "t2 = t1" by simp
  with t1 t2 show "servers (launched_world M l2) (node_url host p)
      = servers (launched_world M l1) (node_url host p)" by simp
qed

section \<open>A deployed system\<close>

text \<open>
  What the operator sets up: nodes and quorum numbers in the environment, a database file that is not there
  yet, and data directories without corrupt copies.
\<close>

definition deployment_ok ::
  "machine \<Rightarrow> platform \<Rightarrow> environment \<Rightarrow> (string \<times> string \<times> nat) list \<Rightarrow> nat \<Rightarrow> nat
     \<Rightarrow> (dir \<Rightarrow> fsnode option) \<Rightarrow> bool" where
  "deployment_ok M P env nodes n k fs \<longleftrightarrow> nodes_ok nodes \<and> STORAGE_NODES env = Some (nodes_text nodes)
     \<and> mach_sha M = sha_of P \<and> (\<forall>s \<in> set (mach_dirname M). file_name s)
     \<and> (\<forall>d t. fs d = Some t \<longrightarrow> store_ok (sha_of P) t)
     \<and> 100 * length nodes < 2 ^ 31
     \<and> env_number (number_of P) (REPLICATION_FACTOR env) 3 = js_nat n
     \<and> env_number (number_of P) (WRITE_QUORUM env) 2 = js_nat k"

lemma deployed_start:
  assumes ok: "deployment_ok M P env nodes n k fs"
    and l: "rtranclp (launch_step M) (launch M env fs) l"
  shows "server_inv (min n (length nodes)) (min k (length nodes)) P (buildServer P env None (launched_world M l))"
proof -
  have nodes: "nodes_ok nodes" "STORAGE_NODES env = Some (nodes_text nodes)" and M: "mach_sha M = sha_of P"
    using ok by (auto simp: deployment_ok_def)
  have len: "length (server_nodes env None) = length nodes"
    by (simp add: server_nodes_def nodes_topology [OF nodes])
  have "launch_inv M (launch M env fs)"
    using ok by (intro launch_inv_start) (simp add: deployment_ok_def)
  from launch_inv_world [OF launch_run_inv [OF l this]] ok show ?thesis
    unfolding len [symmetric] by (intro built_server_inv) (simp_all only: len, simp_all add: deployment_ok_def)
qed

text \<open>A run of the server is a run of the processes under it.\<close>

lemma deployed_run:
  assumes ok: "deployment_ok M P env nodes n k fs"
    and l: "rtranclp (launch_step M) (launch M env fs) l" "all_listening l"
    and run: "rtranclp (server_step P allowed) (buildServer P env None (launched_world M l)) s"
  obtains l1 where "rtranclp (launch_step M) l l1" "launch_inv M l1" "all_listening l1"
    "agrees M (urls_of nodes) l1 (app_world s)"
    "app_co s = build_coordinator (sha1_of P) (number_of P) env 100 (loadTopology env)"
    "ran (nodesById (app_co s)) \<subseteq> urls_of nodes"
    "server_inv (min n (length nodes)) (min k (length nodes)) P s"
proof -
  have nodes: "nodes_ok nodes" "STORAGE_NODES env = Some (nodes_text nodes)"
    and M: "mach_sha M = sha_of P" and dirs: "\<forall>s \<in> set (mach_dirname M). file_name s"
    and fs: "\<forall>d t. fs d = Some t \<longrightarrow> store_ok (mach_sha M) t"
    using ok by (auto simp: deployment_ok_def)
  let ?s0 = "buildServer P env None (launched_world M l)"
  have s0: "app_co ?s0 = build_coordinator (sha1_of P) (number_of P) env 100 (loadTopology env)"
    "app_world ?s0 = launched_world M l"
    by (simp_all add: buildServer_def Let_def)
  have inv: "launch_inv M l" by (rule launch_run_inv [OF l(1) launch_inv_start [OF fs]])
  have sim: "simulated M (urls_of nodes) l (app_world ?s0)"
    using launched_separate [OF nodes dirs l(1)] inv unfolding s0(2) simulated_def agrees_def by blast
  have urls: "ran (nodesById (app_co ?s0)) \<subseteq> urls_of nodes" unfolding s0(1) by (rule nodes_urls [OF nodes])
  note simulated = server_run_simulated [OF run M sim urls]
  then obtain l1 where l1: "rtranclp (serving M) l l1" "agrees M (urls_of nodes) l1 (app_world s)"
    unfolding simulated_def by blast
  show thesis
  proof (rule that [OF serving_run(1) [OF l1(1)] launch_run_inv [OF serving_run(1) [OF l1(1)] inv] _ l1(2)])
    show "all_listening l1" using l(2) serving_run(2) [OF l1(1)] by (simp add: all_listening_def)
    show "server_inv (min n (length nodes)) (min k (length nodes)) P s"
      by (rule server_run_inv [OF run deployed_start [OF ok l(1)]])
  qed (use simulated s0(1) urls in simp_all)
qed

lemma node_of_id:
  assumes nodes: "nodes_ok nodes" "STORAGE_NODES env = Some (nodes_text nodes)"
    and x: "nodesById (build_coordinator sha1 num env vn (loadTopology env)) x = Some u"
  obtains host p where "(x, host, p) \<in> set nodes" and "u = node_url host p"
proof -
  let ?ns = "map (\<lambda>(x, host, p). (x, Some (node_url host p))) nodes"
  have fold: "fold (\<lambda>(nodeId, url) m. m(nodeId := url)) ?ns (\<lambda>_. None) x = Some u"
    using x by (simp add: build_coordinator_def nodes_topology [OF nodes])
  then have "x \<in> fst ` set ?ns" using fold_nodesById_other [of x ?ns "\<lambda>_. None"] by force
  then obtain host p where n: "(x, host, p) \<in> set nodes" by auto
  then have "(x, Some (node_url host p)) \<in> set ?ns" by force
  moreover have "distinct (map fst ?ns)" using nodes(1) by (simp add: nodes_ok_def comp_def split_beta)
  ultimately have "u = node_url host p" using fold_nodesById [of ?ns x] fold by force
  with n that show thesis by blast
qed

text \<open>All nodes of the ring are served.\<close>

lemma deployed_ring:
  assumes ok: "deployment_ok M P env nodes n k fs"
    and l1: "rtranclp (launch_step M) (launch M env fs) l1" "launch_inv M l1" "all_listening l1"
      "agrees M (urls_of nodes) l1 w"
  shows "ring_served (build_coordinator (sha1_of P) (number_of P) env 100 (loadTopology env)) w"
    and "length (ring_nodes (co_ring (build_coordinator (sha1_of P) (number_of P) env 100 (loadTopology env))))
      = length nodes"
proof -
  let ?co = "build_coordinator (sha1_of P) (number_of P) env 100 (loadTopology env)"
  have nodes: "nodes_ok nodes" "STORAGE_NODES env = Some (nodes_text nodes)"
    and dirs: "\<forall>s \<in> set (mach_dirname M). file_name s"
    using ok by (auto simp: deployment_ok_def)
  note ring = build_coordinator_ring [where ?sha1.0 = "sha1_of P" and num = "number_of P" and env = env
      and vn = 100 and nodes = "loadTopology env"]
  have ids: "set (ring_nodes (co_ring ?co)) = set (map fst nodes)"
    unfolding ring(3) by (force simp: nodes_topology [OF nodes])
  have "distinct (map fst nodes)" "distinct (ring_nodes (co_ring ?co))"
    using nodes(1) ring(1) by (auto simp: nodes_ok_def ring_wf_def)
  then show "length (ring_nodes (co_ring ?co)) = length nodes"
    using ids by (metis distinct_card length_map)
  have "Option.bind (nodesById ?co x) (servers w) \<noteq> None" if "x \<in> set (ring_nodes (co_ring ?co))" for x
  proof -
    obtain host p where n: "(x, host, p) \<in> set nodes" using \<open>x \<in> _\<close> ids by auto
    obtain t where t: "servers (launched_world M l1) (node_url host p) = Some \<lparr>node_id = x, node_store = t\<rparr>"
      by (rule launched_at [OF nodes dirs l1(1-3) n])
    have "servers w (node_url host p) = servers (launched_world M l1) (node_url host p)"
      using l1(4) n by (force simp: agrees_def)
    moreover have "nodesById ?co x = Some (node_url host p)"
    proof -
      have "distinct (map fst (map (\<lambda>(x, host, p). (x, Some (node_url host p))) nodes))"
        using nodes(1) by (simp add: nodes_ok_def comp_def split_beta)
      moreover have "(x, Some (node_url host p)) \<in> set (map (\<lambda>(x, host, p). (x, Some (node_url host p))) nodes)"
        using n by force
      ultimately show ?thesis
        using fold_nodesById by (simp only: build_coordinator_def coordinator.simps nodes_topology [OF nodes])
    qed
    ultimately show ?thesis using t by simp
  qed
  with ring(2) show "ring_served ?co w" by (simp add: ring_served_def)
qed

text \<open>The directories that have a good copy of a chunk.\<close>

definition on_disk ::
  "machine \<Rightarrow> (string \<times> string \<times> nat) list \<Rightarrow> (dir \<Rightarrow> fsnode option) \<Rightarrow> string \<Rightarrow> string set" where
  "on_disk M nodes fs h =
     {x \<in> fst ` set nodes. \<exists>t b. fs (node_dir M x) = Some t \<and> copies t h = Some b
        \<and> sha256_hex (mach_sha M) b = h}"

lemma holders_on_disk:
  assumes ok: "deployment_ok M P env nodes n k fs"
    and l1: "rtranclp (launch_step M) (launch M env fs) l1" "launch_inv M l1" "all_listening l1"
      "agrees M (urls_of nodes) l1 w"
    and co: "co = build_coordinator (sha1_of P) (number_of P) env 100 (loadTopology env)"
    and sound: "cluster_sound (sha_of P) w"
  shows "holders (sha1_of P) co w h \<subseteq> on_disk M nodes (disk l1) h"
proof
  have nodes: "nodes_ok nodes" "STORAGE_NODES env = Some (nodes_text nodes)"
    and M: "mach_sha M = sha_of P" and dirs: "\<forall>s \<in> set (mach_dirname M). file_name s"
    using ok by (auto simp: deployment_ok_def)
  fix x assume "x \<in> holders (sha1_of P) co w h"
  then obtain b where b: "replica co w x h = Some b" by (auto simp: holders_def split: option.splits)
  then obtain u where u: "nodesById co x = Some u" by (auto simp: held_def split: bind_splits option.splits)
  from node_of_id [OF nodes u [unfolded co]] obtain host p where
    n: "(x, host, p) \<in> set nodes" and "u = node_url host p" .
  moreover obtain t where t: "disk l1 (node_dir M x) = Some t"
      "servers (launched_world M l1) (node_url host p) = Some \<lparr>node_id = x, node_store = t\<rparr>"
    by (rule launched_at [OF nodes dirs l1(1-3) n])
  moreover have "servers w (node_url host p) = servers (launched_world M l1) (node_url host p)"
    using l1(4) n by (force simp: agrees_def)
  ultimately have "copies t h = Some b" using b u by (simp add: held_def node_copy_def)
  moreover have "sha256_hex (mach_sha M) b = h" using replica_sound [OF sound b] by (simp add: M)
  moreover have "x \<in> fst ` set nodes" using n by force
  ultimately show "x \<in> on_disk M nodes (disk l1) h" using t(1) unfolding on_disk_def by blast
qed

text \<open>A new server on the old database and the old directories.\<close>

lemma restarted:
  assumes ok: "deployment_ok M P env nodes n k fs"
    and l1: "rtranclp (launch_step M) (launch M env fs) l1" "launch_inv M l1" "all_listening l1"
      "agrees M (urls_of nodes) l1 (app_world s)"
    and co: "app_co s = build_coordinator (sha1_of P) (number_of P) env 100 (loadTopology env)"
    and inv: "server_inv n' k' P s"
    and l2: "rtranclp (quiet M) (launch M env (disk l1)) l2" "all_listening l2"
    and s2: "app_co s2 = app_co s" "app_db s2 = app_db s" "app_world s2 = launched_world M l2"
  shows "replica (app_co s2) (app_world s2) x h = replica (app_co s) (app_world s) x h"
    and "server_inv n' k' P s2"
proof -
  have nodes: "nodes_ok nodes" "STORAGE_NODES env = Some (nodes_text nodes)"
    and M: "mach_sha M = sha_of P" and dirs: "\<forall>s \<in> set (mach_dirname M). file_name s"
    using ok by (auto simp: deployment_ok_def)
  have urls: "ran (nodesById (app_co s)) \<subseteq> urls_of nodes" unfolding co by (rule nodes_urls [OF nodes])
  have at: "servers (app_world s2) u = servers (app_world s) u" if "u \<in> urls_of nodes" for u
    using bspec [OF relaunched_same [OF nodes dirs l1(1-3) l2] that]
      bspec [OF l1(4) [unfolded agrees_def] that] by (simp only: s2(3))
  show same: "replica (app_co s2) (app_world s2) x h = replica (app_co s) (app_world s) x h" for x h
  proof (cases "nodesById (app_co s) x")
    case (Some u)
    then have "u \<in> urls_of nodes" using urls by (auto simp: ran_def)
    from at [OF this] Some show ?thesis by (simp add: held_def s2(1))
  qed (simp add: held_def s2(1))
  have "launch_inv M (launch M env (disk l1))"
    using l1(2) by (intro launch_inv_start) (auto simp: launch_inv_def)
  then have "launch_inv M l2" using launch_run_inv quiet_run(1) [OF l2(1)] by blast
  note world = launch_inv_world [OF this]
  show "server_inv n' k' P s2"
  proof (rule server_inv_update [OF inv])
    show "keeps (app_co s) (app_world s) (app_world s2)"
      using same unfolding keeps_def s2(1) by simp
  qed (use world server_invD(2) [OF inv] server_invD(8) [OF inv] in \<open>simp_all add: s2 M\<close>)
qed

text \<open>The small cluster of three nodes as a deployment.\<close>

definition demo_host :: machine where
  "demo_host = demo_machine\<lparr>mach_sha := demo_sha\<rparr>"

lemma demo_deployment:
  "deployment_ok demo_host demo_platform demo_launch_env demo_nodes 3 2 (\<lambda>_. None)"
  using demo_nodes_ok demo_dirs
  by (simp add: deployment_ok_def demo_host_def demo_launch_env_def env_number_def)
    (simp add: demo_platform_def demo_nodes_def)

lemma demo_launched:
  obtains l where "rtranclp (launch_step demo_host) (launch demo_host demo_launch_env (\<lambda>_. None)) l"
    and "all_listening l"
proof -
  have "STORAGE_NODES demo_launch_env = Some (nodes_text demo_nodes)" by (simp add: demo_launch_env_def)
  from nodes_can_listen [OF demo_nodes_ok this, of demo_host "\<lambda>_. None"] that quiet_run(1)
  show thesis by blast
qed

section \<open>Properties\<close>

text \<open>
  C6: what is committed is on the disks. Let the nodes be launched as configured and the server run
  on top of them for any requests and sweeps. Then the processes have made a run of their own that the server's
  world agrees with, and after it every chunk of every version is, with bytes that hash to its name, in the data
  directories of at least W nodes (or of all, if there are fewer), where kills and interrupts leave it.
\<close>

theorem committed_on_disk:
  assumes "deployment_ok M P env nodes n k fs"
    and "rtranclp (launch_step M) (launch M env fs) l" and "all_listening l"
    and "rtranclp (server_step P (\<lambda>_. True)) (buildServer P env None (launched_world M l)) s"
  shows "\<exists>l1. rtranclp (launch_step M) l l1 \<and> agrees M (urls_of nodes) l1 (app_world s)
    \<and> (\<forall>v ver h. getVersion (app_db s) v = Some ver \<longrightarrow> h \<in> set (chunkHashes ver) \<longrightarrow>
         min k (length nodes) \<le> card (on_disk M nodes (disk l1) h))"
proof (rule deployed_run [OF assms])
  fix l1
  assume l1: "rtranclp (launch_step M) l l1" "launch_inv M l1" "all_listening l1"
      "agrees M (urls_of nodes) l1 (app_world s)"
    and co: "app_co s = build_coordinator (sha1_of P) (number_of P) env 100 (loadTopology env)"
    and inv: "server_inv (min n (length nodes)) (min k (length nodes)) P s"
  have run: "rtranclp (launch_step M) (launch M env fs) l1" using assms(2) l1(1) by (rule rtranclp_trans)
  have "min k (length nodes) \<le> card (on_disk M nodes (disk l1) h)"
    if "getVersion (app_db s) v = Some ver" "h \<in> set (chunkHashes ver)" for v ver h
  proof -
    have "min k (length nodes) \<le> card (holders (sha1_of P) (app_co s) (app_world s) h)"
      by (rule server_invD(8) [OF inv refs_valid(1) [OF server_invD(2) [OF inv] that]])
    also have "\<dots> \<le> card (on_disk M nodes (disk l1) h)"
      using holders_on_disk [OF assms(1) run l1(2-4) co server_invD(4) [OF inv]]
      by (intro card_mono) (simp_all add: on_disk_def)
    finally show ?thesis .
  qed
  with l1(1,4) show ?thesis by blast
qed

theorem committed_on_disk_witness:
  "\<exists>l l1. all_listening l \<and> rtranclp (launch_step demo_host) l l1
    \<and> agrees demo_host (urls_of demo_nodes) l1 (launched_world demo_host l)"
proof -
  obtain l where l: "rtranclp (launch_step demo_host) (launch demo_host demo_launch_env (\<lambda>_. None)) l"
      "all_listening l"
    by (rule demo_launched)
  have "app_world (buildServer demo_platform demo_launch_env None (launched_world demo_host l))
      = launched_world demo_host l"
    by (simp add: buildServer_def Let_def)
  with committed_on_disk [OF demo_deployment l rtranclp.rtrancl_refl] l(2) show ?thesis by metis
qed

text \<open>
  C5: a restart loses nothing. After any run as above, all processes are stopped; the launcher
  starts new ones, which find the old directories and come up without serving yet, and a new server is
  started on the same database file. Then every file has the version it had, every node has the copies it had, and
  every file reads as before, now and after any further requests other than updates of it.
\<close>

theorem restart_keeps_files:
  assumes "deployment_ok M P env nodes n k fs"
    and "rtranclp (launch_step M) (launch M env fs) l" and "all_listening l"
    and "db_path DB_PATH \<noteq> '':memory:''" and "dbs (db_path DB_PATH) = None"
    and "rtranclp (server_step P (\<lambda>_. True)) (snd (server_main P env DB_PATH port dbs (launched_world M l))) s"
  shows "\<exists>l1. rtranclp (launch_step M) l l1
    \<and> (\<exists>l2. rtranclp (quiet M) (launch M env (disk l1)) l2 \<and> all_listening l2) \<and> (\<forall>l2 s2.
      rtranclp (quiet M) (launch M env (disk l1)) l2 \<longrightarrow> all_listening l2 \<longrightarrow>
      s2 = snd (server_main P env DB_PATH port (dbs(db_path DB_PATH \<mapsto> app_db s)) (launched_world M l2)) \<longrightarrow>
      (\<forall>f v hs. stored_version s f v hs \<longleftrightarrow> stored_version s2 f v hs)
      \<and> (\<forall>x h. replica (app_co s2) (app_world s2) x h = replica (app_co s) (app_world s) x h)
      \<and> (\<forall>f v buf. stored_version s f v (map (hashChunk (sha_of P)) (blocks DEFAULT_CHUNK_SIZE buf))
           \<longrightarrow> readable P (min k (length nodes)) s2 f buf))"
proof -
  have main: "snd (server_main P env DB_PATH port dbs w) = buildServer P env None w"
    for w :: "storage_node world"
    using assms(4,5) by (simp add: server_main_def open_database_def buildServer_def Let_def)
  show ?thesis
  proof (rule deployed_run [OF assms(1-3) assms(6) [unfolded main]])
    fix l1
    assume l1: "rtranclp (launch_step M) l l1" "launch_inv M l1" "all_listening l1"
        "agrees M (urls_of nodes) l1 (app_world s)"
      and co: "app_co s = build_coordinator (sha1_of P) (number_of P) env 100 (loadTopology env)"
      and inv: "server_inv (min n (length nodes)) (min k (length nodes)) P s"
    show ?thesis
    proof (rule exI [of _ l1], intro conjI allI impI)
      show "rtranclp (launch_step M) l l1" by (rule l1(1))
      show "\<exists>l2. rtranclp (quiet M) (launch M env (disk l1)) l2 \<and> all_listening l2"
        using assms(1) by (intro nodes_can_listen) (auto simp: deployment_ok_def)
      fix l2 s2
      assume l2: "rtranclp (quiet M) (launch M env (disk l1)) l2" "all_listening l2"
        and "s2 = snd (server_main P env DB_PATH port (dbs(db_path DB_PATH \<mapsto> app_db s)) (launched_world M l2))"
      then have s2: "app_co s2 = app_co s" "app_db s2 = app_db s" "app_world s2 = launched_world M l2"
        using assms(4) by (simp_all add: server_main_def open_database_def buildServer_def Let_def co)
      have "rtranclp (launch_step M) (launch M env fs) l1" using assms(2) l1(1) by (rule rtranclp_trans)
      note restarted = restarted [OF assms(1) this l1(2-4) co inv l2 s2]
      show stored: "stored_version s f v hs \<longleftrightarrow> stored_version s2 f v hs" for f v hs
        by (simp add: stored_version_def s2(2))
      show "replica (app_co s2) (app_world s2) x h = replica (app_co s) (app_world s) x h" for x h
        by (rule restarted(1))
      show "readable P (min k (length nodes)) s2 f buf"
        if "stored_version s f v (map (hashChunk (sha_of P)) (blocks DEFAULT_CHUNK_SIZE buf))" for f v buf
        using stored_readable [OF restarted(2)] that stored by blast
    qed
  qed
qed

theorem restart_keeps_files_witness:
  "\<exists>l l1 l2. all_listening l \<and> rtranclp (launch_step demo_host) l l1
    \<and> rtranclp (quiet demo_host) (launch demo_host demo_launch_env (disk l1)) l2 \<and> all_listening l2"
proof -
  obtain l where l: "rtranclp (launch_step demo_host) (launch demo_host demo_launch_env (\<lambda>_. None)) l"
      "all_listening l"
    by (rule demo_launched)
  have "db_path None \<noteq> '':memory:''" by (simp add: db_path_def env_text_def)
  from restart_keeps_files [OF demo_deployment l this, of "\<lambda>_. None" None, OF refl rtranclp.rtrancl_refl]
  obtain l1 l2 where "rtranclp (launch_step demo_host) l l1"
      "rtranclp (quiet demo_host) (launch demo_host demo_launch_env (disk l1)) l2" "all_listening l2"
    by (elim exE conjE)
  with l(2) show ?thesis by (intro exI) (intro conjI)
qed

text \<open>
  C7: a deployed system accepts uploads. With the nodes launched and the server on top of them as above, in every
  state of the system an upload during which at most N - W nodes are bad, with random ids that are
  not taken, is answered with 201, and the file then reads as what was uploaded.
\<close>

theorem deployed_uploads:
  assumes "deployment_ok M P env nodes n k fs"
    and "rtranclp (launch_step M) (launch M env fs) l" and "all_listening l"
    and "rtranclp (server_step P (\<lambda>_. True)) (buildServer P env None (launched_world M l)) s"
    and "finite bad" and "card bad + min k (length nodes) \<le> min n (length nodes)"
    and "\<forall>i x. x \<notin> bad \<longrightarrow> fate_of (chunk_env e i) x = Deliver"
    and "getFile (app_db s) (newId ''file'' (file_random e)) = None"
    and "getVersion (app_db s) (newId ''ver'' (version_random e)) = None"
  shows "\<exists>f v s1. route (node_serve (sha_of P)) P e (PostFile (Buffer buf)) s
      = (reply 201 (Created f v (length (blocks DEFAULT_CHUNK_SIZE buf)) (length buf)), s1)
    \<and> readable P (min k (length nodes)) s1 f buf"
proof (rule deployed_run [OF assms(1-4)])
  fix l1
  let ?co = "build_coordinator (sha1_of P) (number_of P) env 100 (loadTopology env)"
  assume l1: "rtranclp (launch_step M) l l1" "launch_inv M l1" "all_listening l1"
      "agrees M (urls_of nodes) l1 (app_world s)"
    and co: "app_co s = ?co"
    and inv: "server_inv (min n (length nodes)) (min k (length nodes)) P s"
  have run: "rtranclp (launch_step M) (launch M env fs) l1" using assms(2) l1(1) by (rule rtranclp_trans)
  note ring = deployed_ring [OF assms(1) run l1(2-4)]
  obtain r s1 where post: "post_file (node_serve (sha_of P)) P e (Buffer buf) s = (r, s1)"
    by fastforce
  have "ring_served (app_co s) (app_world s)" unfolding co by (rule ring(1))
  moreover have "min n (length nodes) \<le> length (ring_nodes (co_ring (app_co s)))"
    unfolding co ring(2) by simp
  ultimately have "status r = 201"
    using uploads_succeed(1) [OF inv _ _ assms(5-9), of buf] post by simp
  from post_created [OF inv post this] obtain f v where
    "r = reply 201 (Created f v (length (blocks DEFAULT_CHUNK_SIZE buf)) (length buf))"
    "stored_version s1 f v (map (hashChunk (sha_of P)) (blocks DEFAULT_CHUNK_SIZE buf))"
    by (metis js_value.inject(1))
  with stored_readable [OF post_file_inv [OF inv post]] post show ?thesis by fastforce
qed

theorem deployed_uploads_witness:
  "\<exists>l r s1 f. all_listening l \<and> readable demo_platform 2 s1 f [9]
    \<and> route (node_serve demo_sha) demo_platform (demo_request {''b''} [1]) (PostFile (Buffer [9]))
        (buildServer demo_platform demo_launch_env None (launched_world demo_host l)) = (r, s1)"
proof -
  obtain l where l: "rtranclp (launch_step demo_host) (launch demo_host demo_launch_env (\<lambda>_. None)) l"
      "all_listening l"
    by (rule demo_launched)
  let ?s = "buildServer demo_platform demo_launch_env None (launched_world demo_host l)"
  have db: "app_db ?s = empty_db" by (simp add: buildServer_def Let_def)
  have "card {''b''} + min 2 (length demo_nodes) \<le> min 3 (length demo_nodes)" by (simp add: demo_nodes_def)
  moreover have "\<forall>i x. x \<notin> {''b''} \<longrightarrow> fate_of (chunk_env (demo_request {''b''} [1]) i) x = Deliver"
    by (simp add: demo_request_def demo_env_def)
  moreover have "getFile (app_db ?s) i = None" "getVersion (app_db ?s) i = None" for i
    unfolding db by (simp_all add: getFile_def empty_db_def)
  moreover have "min 2 (length demo_nodes) = 2" by (simp add: demo_nodes_def)
  moreover have "sha_of demo_platform = demo_sha" by (simp add: demo_platform_def)
  ultimately show ?thesis
    using deployed_uploads [OF demo_deployment l rtranclp.rtrancl_refl, of "{''b''}" "demo_request {''b''} [1]" "[9]"] l(2)
    by (simp only: finite.intros simp_thms) metis
qed



end
