(* ===== verification/Observability.thy ===== *)
theory Observability
  imports CallInvariant
begin

text \<open>
  What the histograms of \<^verbatim>\<open>src/metrics.js\<close> show: how many observations a request and a chunk write leave, and
  with which labels.
\<close>

section \<open>Requests\<close>

text \<open>No route touches the histogram of the requests, but the one that injects a request.\<close>

interpretation request_log: call_invariant serve UNIV "\<lambda>w. httpRequestDuration (counters w) = log"
  for serve :: "'n server" and log
  by unfold_locales (simp_all add: frame_simps keeps_requests_def)

definition observation :: "string \<times> string \<Rightarrow> nat \<Rightarrow> rat \<Rightarrow> (string \<times> string \<times> nat) \<times> rat" where
  "observation label code ms = ((fst label, snd label, code), ms / 1000)"

lemma observed_log:
  "httpRequestDuration (counters (app_world (snd (observed label ms answer))))
     = httpRequestDuration (counters (app_world (snd answer))) @ [observation label (status (fst answer)) ms]"
  by (simp add: observed_def split_beta observe_httpRequestDuration_def observation_def)

lemma fst_observed [simp]: "fst (observed label ms answer) = fst answer"
  by (simp add: observed_def split_beta)

lemma route_log:
  fixes s :: "'n app"
  assumes "route serve P e req s = (r, s')"
  shows "\<exists>inner. httpRequestDuration (counters (app_world s'))
      = httpRequestDuration (counters (app_world s)) @ inner
    \<and> (inner = [] \<or> (\<exists>f query. req = DownloadPresigned f query)
        \<and> inner = [observation (''GET'', ''/files/:fileId/download'') (status r) (inject_elapsed_ms e)])"
proof (cases "\<exists>f query. req = DownloadPresigned f query")
  case False
  then have "httpRequestDuration (counters (app_world (snd (route serve P e req s))))
      = httpRequestDuration (counters (app_world s))"
    by (intro request_log.plain_route_keeps) auto
  with assms show ?thesis by simp
next
  case True
  then obtain f query where req: "req = DownloadPresigned f query" by blast
  let ?down = "limited P (inject_clock e) (inject_ip P) (download serve P e f) s"
  have "httpRequestDuration (counters (app_world (snd ?down))) = httpRequestDuration (counters (app_world s))"
    by (intro request_log.limited_keeps request_log.download_keeps) simp_all
  then have "httpRequestDuration (counters (app_world (snd (observed (''GET'', ''/files/:fileId/download'')
        (inject_elapsed_ms e) ?down)))) = httpRequestDuration (counters (app_world s))
      @ [observation (''GET'', ''/files/:fileId/download'') (status (fst ?down)) (inject_elapsed_ms e)]"
    by (simp only: observed_log)
  moreover have "s' = s \<or> (r, s') = observed (''GET'', ''/files/:fileId/download'') (inject_elapsed_ms e) ?down"
    using assms by (auto simp: req download_presigned_def split: sum.splits presign_error.splits)
  ultimately show ?thesis using req by (metis append_Nil2 fst_conv fst_observed snd_conv)
qed

section \<open>Chunk writes\<close>

text \<open>The outcomes observed for a node, the oldest first.\<close>

definition outcomes :: "metrics \<Rightarrow> string \<Rightarrow> string list" where
  "outcomes m x = map (\<lambda>((y, outcome), seconds). outcome)
     (filter (\<lambda>((y, outcome), seconds). y = x) (replicaWriteLatency m))"

lemma outcomes_simps [simp]:
  "outcomes (observe_replicaWriteLatency y outcome seconds m) x
     = outcomes m x @ (if y = x then [outcome] else [])"
  "outcomes (inc_quorumWriteFailures m) x = outcomes m x"
  "outcomes (inc_dedupBytesSaved k m) x = outcomes m x"
  by (simp_all add: outcomes_def observe_replicaWriteLatency_def inc_quorumWriteFailures_def
      inc_dedupBytesSaved_def)

text \<open>One call: what is observed for its outcome.\<close>

definition observed_as :: "ack \<Rightarrow> string list set" where
  "observed_as a = (if ack_ok a then {[''success'']} else {[''error''], [''success'', ''error'']})"

lemma putToNode_outcomes:
  assumes "putToNode serve env url x h buf w = (a, w')"
  shows "ack_node a = x" and "y \<noteq> x \<Longrightarrow> outcomes (counters w') y = outcomes (counters w) y"
    and "\<exists>new \<in> observed_as a. outcomes (counters w') x = outcomes (counters w) x @ new"
proof -
  obtain res w1 where f: "fetch serve (fate_of env x) (nonce_of env x) url (PutChunk h (Buffer buf)) w = (res, w1)"
    by fastforce
  then have "counters w1 = counters w"
    using fetch_counters [of serve "fate_of env x" "nonce_of env x" url "PutChunk h (Buffer buf)" w] by simp
  with assms f show "ack_node a = x" "y \<noteq> x \<Longrightarrow> outcomes (counters w') y = outcomes (counters w) y"
    "\<exists>new \<in> observed_as a. outcomes (counters w') x = outcomes (counters w) x @ new"
    by (auto simp: putToNode_def observe_write_def observed_as_def nack_def Let_def
        split: option.splits chunk_payload.splits if_splits)
qed

lemma put_all_outcomes:
  assumes "put_all serve env urls h buf xs w = (as, w')" and "distinct xs"
  shows "map ack_node as = xs"
    and "x \<notin> set xs \<Longrightarrow> outcomes (counters w') x = outcomes (counters w) x"
    and "a \<in> set as \<Longrightarrow> \<exists>new \<in> observed_as a.
      outcomes (counters w') (ack_node a) = outcomes (counters w) (ack_node a) @ new"
proof -
  have "map ack_node as = xs
    \<and> (\<forall>x. x \<notin> set xs \<longrightarrow> outcomes (counters w') x = outcomes (counters w) x)
    \<and> (\<forall>a \<in> set as. \<exists>new \<in> observed_as a.
      outcomes (counters w') (ack_node a) = outcomes (counters w) (ack_node a) @ new)"
    using assms
  proof (induction xs arbitrary: w as)
    case (Cons x xs)
    obtain b w1 where b: "putToNode serve env (urls x) x h buf w = (b, w1)" by fastforce
    obtain bs where bs: "put_all serve env urls h buf xs w1 = (bs, w')" "as = b # bs"
      using Cons.prems(1) b by (auto split: prod.splits)
    note first = putToNode_outcomes [OF b]
    have "distinct xs" "x \<notin> set xs" using Cons.prems(2) by auto
    from Cons.IH [OF bs(1) this(1)] first this(2) bs(2) show ?case
      by (auto simp del: ex_simps) (metis imageI image_set)+
  qed simp
  then show "map ack_node as = xs"
    and "x \<notin> set xs \<Longrightarrow> outcomes (counters w') x = outcomes (counters w) x"
    and "a \<in> set as \<Longrightarrow> \<exists>new \<in> observed_as a.
      outcomes (counters w') (ack_node a) = outcomes (counters w) (ack_node a) @ new"
    by blast+
qed

section \<open>Properties\<close>

text \<open>
  C35: every response is counted once, with its own status. Whatever a request does, refused or not, the histogram
  of the requests ends with one observation with its method, its route and the status it was
  answered with, and the rest is as before, but for the download behind an accepted presigned URL, which is an
  observation of its own with the same status.
\<close>

theorem response_observed:
  fixes s :: "'n app"
  assumes "handle serve P e client req s = (r, s')"
  shows "\<exists>inner. httpRequestDuration (counters (app_world s'))
      = httpRequestDuration (counters (app_world s)) @ inner @ [observation (route_label req) (status r) (elapsed_ms e)]
    \<and> (inner = [] \<or> (\<exists>f query. req = DownloadPresigned f query)
        \<and> inner = [observation (''GET'', ''/files/:fileId/download'') (status r) (inject_elapsed_ms e)])"
proof (rule observed_cases [OF assms [unfolded handle_def]])
  fix s1
  let ?log = "\<lambda>s :: 'n app. httpRequestDuration (counters (app_world s))"
  assume lim: "limited P (limiter_clock e) (client_key (fst client) (snd client)) (route serve P e req) s = (r, s1)"
  have last: "?log s' = ?log s1 @ [observation (route_label req) (status r) (elapsed_ms e)]"
    using observed_log [of "route_label req" "elapsed_ms e" "(r, s1)"] assms by (simp add: handle_def lim)
  have "\<exists>inner. ?log s1 = ?log s @ inner \<and> (inner = [] \<or> (\<exists>f query. req = DownloadPresigned f query)
      \<and> inner = [observation (''GET'', ''/files/:fileId/download'') (status r) (inject_elapsed_ms e)])"
  proof (rule limited_cases [OF lim])
    fix rl assume "route serve P e req (s\<lparr>app_limiter := rl\<rparr>) = (r, s1)"
    from route_log [OF this] show ?thesis by simp
  qed (simp add: inc_rateLimitRejections_def)
  with last show ?thesis by (metis append.assoc)
qed

theorem response_observed_witness:
  "httpRequestDuration (counters (app_world (snd (handle (node_serve demo_sha) demo_platform (demo_request {} [1])
      (None, ''10.0.0.1'') (GetFileInfo ''file_01'') demo_file_app))))
    = httpRequestDuration (counters (app_world demo_file_app)) @ [((''GET'', ''/files/:fileId'', 200), 1 / 1000)]"
proof -
  let ?req = "GetFileInfo ''file_01''"
  obtain r s' where run: "handle (node_serve demo_sha) demo_platform (demo_request {} [1])
      (None, ''10.0.0.1'') ?req demo_file_app = (r, s')" by fastforce
  then have "status r = 200"
    using demo_file_row
    by (simp add: handle_def observed_def limited_def client_key_def file_info_def demo_file_app_def demo_app_def
        demo_platform_def demo_request_def allow_def bucketFor_def new_limiter_def tryConsume_def refill_def
        new_bucket_def Let_def split_beta)
      fastforce
  with response_observed [OF run] run show ?thesis
    by (auto simp: observation_def demo_request_def)
qed

text \<open>
  The histogram of the writes agrees with the acknowledgements. A chunk write leaves, for each node of the
  preference list, one observation of success if the node's acknowledgement counts towards the quorum; if it does not,
  the last observation is an error, and there is one before it, of a success, when only the body of the
  node's answer could not be read; for other nodes nothing is observed.
\<close>

theorem writes_observed:
  assumes "preferenceList sha1 (co_ring co) h (repl_n co) = Some pl"
    and "putChunk serve sha1 env co h buf w = (r, w')"
  shows "\<exists>as. fst (put_all serve env (nodesById co) h buf pl w) = as \<and> map ack_node as = pl
    \<and> (\<forall>a \<in> set as. \<exists>new \<in> (if ack_ok a then {[''success'']} else {[''error''], [''success'', ''error'']}).
         outcomes (counters w') (ack_node a) = outcomes (counters w) (ack_node a) @ new)
    \<and> (\<forall>x. x \<notin> set pl \<longrightarrow> outcomes (counters w') x = outcomes (counters w) x)"
proof -
  obtain as w1 where as: "put_all serve env (nodesById co) h buf pl w = (as, w1)" by fastforce
  have "outcomes (counters w') x = outcomes (counters w1) x" for x
    using assms(2) by (auto simp: putChunk_def assms(1) as Let_def split: if_splits)
  with put_all_outcomes [OF as preferenceList_distinct [OF assms(1)]] show ?thesis
    by (simp add: as observed_as_def)
qed

theorem writes_observed_witness:
  "\<exists>w'. snd (putChunk (node_serve demo_sha) (\<lambda>_. 0) (demo_env {''b''}) demo (sha256_hex demo_sha [9]) [9]
      demo_world) = w' \<and> outcomes (counters w') ''zz'' = []"
proof -
  let ?h = "sha256_hex demo_sha [9]"
  obtain pl where pl: "preferenceList (\<lambda>_. 0) (co_ring demo) ?h (repl_n demo) = Some pl"
      "set pl = {''a'', ''b'', ''c''}"
    using demo_pl [of "\<lambda>_. 0" ?h] by (auto simp: demo_def)
  have "outcomes (counters demo_world) ''zz'' = []"
    by (simp add: outcomes_def demo_world_def no_metrics_def)
  with writes_observed [OF pl(1) prod.collapse [symmetric], of "node_serve demo_sha" "demo_env {''b''}" "[9]" demo_world]
    pl(2) show ?thesis by auto
qed

text \<open>The second case happens: a good answer whose body is damaged on its way.\<close>

lemma damaged_body_counted_twice:
  "outcomes (counters (snd (putToNode (\<lambda>z req n. (reply 201 (PutBody True False), n))
      ((demo_env {})\<lparr>fate_of := \<lambda>_. Garble []\<rparr>) (Some ''a'') ''a'' h [9] demo_world))) ''a''
    = [''success'', ''error'']"
  by (simp add: putToNode_def fetch_def demo_world_def observe_write_def no_metrics_def reply_def)
    (simp add: outcomes_def observe_replicaWriteLatency_def)

end
