(* ===== verification/ObjectStore.thy ===== *)
theory ObjectStore
  imports EndToEnd
begin

text \<open>
  What the server is for its clients: a map from file ids to contents. This theory states that abstract store
  (\<open>store_step\<close>) and shows that every run of the server, with its tables, its nodes and its collector, is a run
  of it (a forward simulation, stated once in the locale \<open>forward_simulation\<close>).
\<close>

section \<open>Forward simulation\<close>

text \<open>A step shows an event or nothing; a trace is the events that were shown.\<close>

inductive trace :: "('s \<Rightarrow> 'e option \<Rightarrow> 's \<Rightarrow> bool) \<Rightarrow> 's \<Rightarrow> 'e list \<Rightarrow> 's \<Rightarrow> bool" for step where
  start: "trace step s [] s"
| shown: "trace step s es s1 \<Longrightarrow> step s1 (Some e) s2 \<Longrightarrow> trace step s (es @ [e]) s2"
| hidden: "trace step s es s1 \<Longrightarrow> step s1 None s2 \<Longrightarrow> trace step s es s2"

locale forward_simulation =
  fixes spec :: "'a \<Rightarrow> 'e option \<Rightarrow> 'a \<Rightarrow> bool"
    and impl :: "'c \<Rightarrow> 'e option \<Rightarrow> 'c \<Rightarrow> bool"
    and R :: "'a \<Rightarrow> 'c \<Rightarrow> bool"
  assumes simulates: "R a c \<Longrightarrow> impl c e c' \<Longrightarrow> \<exists>a'. (spec a e a' \<or> e = None \<and> a' = a) \<and> R a' c'"
begin

lemma traces:
  assumes "trace impl c es c'" and "R a c"
  shows "\<exists>a'. trace spec a es a' \<and> R a' c'"
  using assms
proof (induction rule: trace.induct)
  case (start s)
  then show ?case by (intro exI [of _ a] conjI trace.start)
next
  case (shown s es s1 e s2)
  obtain a1 where a1: "trace spec a es a1" "R a1 s1" using shown.IH [OF shown.prems] by blast
  from simulates [OF a1(2) shown.hyps(2)] obtain a2 where a2: "spec a1 (Some e) a2" "R a2 s2" by auto
  from trace.shown [OF a1(1) a2(1)] a2(2) show ?case by (intro exI [of _ a2] conjI)
next
  case (hidden s es s1 s2)
  obtain a1 where a1: "trace spec a es a1" "R a1 s1" using hidden.IH [OF hidden.prems] by blast
  from simulates [OF a1(2) hidden.hyps(2)] obtain a2 where a2: "spec a1 None a2 \<or> a2 = a1" "R a2 s2" by auto
  then have "trace spec a es a2" using trace.hidden [OF a1(1)] a1(1) by auto
  with a2(2) show ?case by (intro exI [of _ a2] conjI)
qed

end

section \<open>The abstract store\<close>

type_synonym store = "string \<Rightarrow> bytes option"

fun names :: "app_request \<Rightarrow> string option" where
  "names (PutFile f body) = Some f"
| "names (GetFileInfo f) = Some f"
| "names (Download f) = Some f"
| "names (PresignDownload f) = Some f"
| "names (DownloadPresigned f query) = Some f"
| "names _ = None"

text \<open>
  An upload makes a file under a name that was free; an update replaces its content; a download returns it, and the
  information on a file the size of its one version. A name without content is not found. A request that is
  refused or fails, for whatever reason, changes nothing.
\<close>

inductive store_step ::
  "sha256 \<Rightarrow> store \<Rightarrow> (app_request \<times> app_payload response) option \<Rightarrow> store \<Rightarrow> bool" for sha where
  create: "m f = None
    \<Longrightarrow> store_step sha m (Some (PostFile (Buffer b), reply 201 (Created f v k (length b)))) (m(f \<mapsto> b))"
| replace: "store_step sha m (Some (PutFile f (Buffer b), reply 200 (Updated f v p k (length b)))) (m(f \<mapsto> b))"
| read: "m f = Some b \<Longrightarrow> same_content sha b bs \<Longrightarrow> req = Download f \<or> req = DownloadPresigned f query
    \<Longrightarrow> store_step sha m (Some (req, reply 200 (Bytes (concat bs)))) m"
| info: "map version_size vs = (case m f of None \<Rightarrow> [] | Some b \<Rightarrow> [length b])
    \<Longrightarrow> store_step sha m (Some (GetFileInfo f, reply 200 (FileInfo row vs))) m"
| service: "req = PresignDownload f \<or> req = Health \<or> req = MetricsPage \<Longrightarrow> status r = 200
    \<Longrightarrow> store_step sha m (Some (req, r)) m"
| absent: "names req = Some f \<Longrightarrow> m f = None \<Longrightarrow> status r = 404 \<Longrightarrow> store_step sha m (Some (req, r)) m"
| failed: "status r \<in> {400, 403, 429, 500} \<Longrightarrow> store_step sha m (Some (req, r)) m"

text \<open>The server, one request or one sweep at a time.\<close>

inductive server_event ::
  "platform \<Rightarrow> storage_node app \<Rightarrow> (app_request \<times> app_payload response) option \<Rightarrow> storage_node app \<Rightarrow> bool"
  for P where
  request: "handle (node_serve (sha_of P)) P e client req s = (r, s') \<Longrightarrow> server_event P s (Some (req, r)) s'"
| sweep: "server_event P s None (gc_step P envs hint s)"

section \<open>What is stored\<close>

text \<open>The manifest and the size of the current version of a file.\<close>

definition stored :: "metadata \<Rightarrow> string \<Rightarrow> (string list \<times> nat) option" where
  "stored db f =
     Option.bind (getFile db f) (\<lambda>row. Option.bind (current_version_id row)
       (\<lambda>v. map_option (\<lambda>ver. (chunkHashes ver, version_size ver)) (getVersion db v)))"

definition manifest_of :: "sha256 \<Rightarrow> bytes \<Rightarrow> string list \<times> nat" where
  "manifest_of sha b = (map (hashChunk sha) (blocks DEFAULT_CHUNK_SIZE b), length b)"

text \<open>The store that a database represents.\<close>

definition represents :: "sha256 \<Rightarrow> store \<Rightarrow> metadata \<Rightarrow> bool" where
  "represents sha m db \<longleftrightarrow> stored db = (\<lambda>f. map_option (manifest_of sha) (m f))"

lemma represents_update:
  "represents sha m db \<Longrightarrow> stored db' = (stored db)(f \<mapsto> manifest_of sha b) \<Longrightarrow> represents sha (m(f \<mapsto> b)) db'"
  by (auto simp: represents_def fun_eq_iff)

lemma represents_same: "represents sha m db \<Longrightarrow> stored db' = stored db \<Longrightarrow> represents sha m db'"
  by (simp add: represents_def)

lemma representsD: "represents sha m db \<Longrightarrow> stored db f = map_option (manifest_of sha) (m f)"
  by (simp add: represents_def)

lemma stored_cong:
  assumes "getFile db' = getFile db" and "getVersion db' = getVersion db"
  shows "stored db' = stored db"
  by (simp add: stored_def fun_eq_iff assms)

text \<open>A current version is a row, of its file.\<close>

definition pointers_ok :: "metadata \<Rightarrow> bool" where
  "pointers_ok db \<longleftrightarrow>
     (\<forall>f row v. getFile db f = Some row \<longrightarrow> current_version_id row = Some v \<longrightarrow>
        v \<noteq> [] \<and> (\<exists>ver. getVersion db v = Some ver \<and> version_file_id ver = f))"

lemma tight_pointers: "tight db \<Longrightarrow> pointers_ok db"
  by (simp add: tight_def pointers_ok_def)

lemma server_inv_pointers: "server_inv n k P s \<Longrightarrow> pointers_ok (app_db s)"
  by (rule tight_pointers [OF server_invD(6)])

lemma stored_known:
  assumes "pointers_ok db" and "getFile db f = Some row" and "current_version_id row = Some v"
  obtains ver where "getVersion db v = Some ver" "v \<noteq> []" "version_file_id ver = f"
    "stored db f = Some (chunkHashes ver, version_size ver)"
proof -
  obtain ver where "getVersion db v = Some ver" "v \<noteq> []" "version_file_id ver = f"
    using assms unfolding pointers_ok_def by blast
  with assms(2,3) that show thesis by (simp add: stored_def)
qed

lemma stored_None_iff:
  assumes "pointers_ok db"
  shows "stored db f = None \<longleftrightarrow> Option.bind (getFile db f) current_version_id = None"
proof (cases "Option.bind (getFile db f) current_version_id")
  case (Some v)
  then obtain row where "getFile db f = Some row" "current_version_id row = Some v"
    by (auto simp: bind_eq_Some_conv)
  from stored_known [OF assms this] have "stored db f \<noteq> None" by blast
  with Some show ?thesis by simp
qed (auto simp: stored_def split: bind_splits)

text \<open>A commit for a file, and the deletion of a version that is no other file's.\<close>

lemma stored_commit:
  assumes wf: "metadata_wf db" and ptr: "pointers_ok db" and row: "getFile db f = Some r"
    and run: "commitVersion random now f hs n db = (Inr v, db1)" and old: "p \<noteq> Some v"
    and others: "\<And>g q u. g \<noteq> f \<Longrightarrow> getFile db g = Some q \<Longrightarrow> current_version_id q = Some u \<Longrightarrow> p \<noteq> Some u"
  shows "stored (replace_version p db1) = (stored db)(f \<mapsto> (hs, n))" and "pointers_ok (replace_version p db1)"
proof -
  let ?db = "replace_version p db1"
  have db: "?db = db1 \<or> (\<exists>u. p = Some u \<and> ?db = deleteVersion u db1)"
    by (auto simp: replace_version_def split: option.splits)
  have file_of: "getFile ?db g = (if g = f then Some (r\<lparr>current_version_id := Some v\<rparr>) else getFile db g)" for g
    using db commit_reads(2) [OF wf run, of g] row by (auto simp: frame_simps)
  have new: "getVersion ?db v = Some \<lparr>version_id = v, version_file_id = f, version_size = n,
      version_created_at = now, chunkHashes = hs\<rparr>"
    using db old commit_reads(1) [OF wf run, of v] by (auto simp: getVersion_delete split: if_splits)
  have kept: "getVersion ?db u = getVersion db u"
    if g: "g \<noteq> f" "getFile db g = Some q" "current_version_id q = Some u" for g q u
  proof -
    have "getVersion db u \<noteq> None" using ptr g(2,3) unfolding pointers_ok_def by blast
    then have "u \<noteq> v" using commit_ok(2) [OF wf run] by auto
    with db commit_reads(1) [OF wf run, of u] others [OF g] show ?thesis
      by (auto simp: getVersion_delete split: if_splits)
  qed
  show "stored ?db = (stored db)(f \<mapsto> (hs, n))"
  proof
    fix g
    show "stored ?db g = ((stored db)(f \<mapsto> (hs, n))) g"
      using file_of [of g] new kept [of g] by (auto simp: stored_def split: bind_splits)
  qed
  have "v \<noteq> []" by (rule commit_ok(4) [OF wf run])
  with ptr file_of new kept show "pointers_ok ?db" unfolding pointers_ok_def by auto
qed

lemma stored_replace:
  assumes inv: "db_inv db" and row: "getFile db f = Some r"
    and run: "commitVersion random now f hs n db = (Inr v, db1)"
  shows "stored (replace_version (current_version_id r) db1) = (stored db)(f \<mapsto> (hs, n))"
proof -
  have wf: "metadata_wf db" and ptr: "pointers_ok db" using inv by (simp_all add: db_inv_def tight_pointers)
  show ?thesis
  proof (rule stored_commit(1) [OF wf ptr row run])
    show "current_version_id r \<noteq> Some v"
      using commit_ok(2) [OF wf run] stored_known [OF ptr row, of v] by (metis getVersion_in)
    show "current_version_id r \<noteq> Some u" if "g \<noteq> f" "getFile db g = Some q" "current_version_id q = Some u" for g q u
      using stored_known [OF ptr that(2,3)] stored_known [OF ptr row, of u] that(1) by (metis option.inject)
  qed
qed

section \<open>The handlers\<close>

lemma stored_createFile:
  assumes "createFile random now db = (res, db1)"
  shows "stored db1 = stored db"
proof (cases res)
  case (Inl e)
  with createFile_frame(5) [OF assms] show ?thesis by simp
next
  case (Inr f)
  note fr = createFile_frame [OF assms]
  have "stored db1 g = stored db g" for g
    using fr(4) [OF Inr, of g] fr(1) by (cases "g = f") (auto simp: stored_def split: bind_splits)
  then show ?thesis by (simp add: fun_eq_iff)
qed

lemma stored_created:
  assumes db: "createFile random now db = (Inr f, db1)" and inv: "db_inv db"
    and commit: "commitVersion random' now' f hs n db1 = (Inr v, db2)"
  shows "stored db f = None" and "stored db2 = (stored db)(f \<mapsto> (hs, n))"
proof -
  note fr = createFile_frame [OF db]
  let ?row = "\<lparr>file_id = f, file_created_at = now, current_version_id = None\<rparr>"
  have row: "getFile db1 f = Some ?row" using fr(4) [OF refl, of f] by simp
  show "stored db f = None" using fr(4) [OF refl, of f] by (simp add: stored_def)
  show "stored db2 = (stored db)(f \<mapsto> (hs, n))"
    using stored_replace [OF fr(3) [OF inv] row commit] stored_createFile [OF db]
    by (simp add: replace_version_def)
qed

text \<open>A row without a version, which a failed commit can leave, stores nothing.\<close>

lemma stored_failed:
  assumes "db_inv db'" and "db_inv db" and ver: "\<And>v. getVersion db' v = getVersion db v"
    and rows: "\<And>f. getFile db f \<noteq> None \<Longrightarrow> getFile db' f = getFile db f"
  shows "stored db' = stored db"
proof
  fix f
  show "stored db' f = stored db f"
  proof (cases "getFile db f")
    case None
    have "stored db' f = None"
    proof (rule ccontr)
      assume "stored db' f \<noteq> None"
      then obtain row v where row: "getFile db' f = Some row" "current_version_id row = Some v"
        by (auto simp: stored_def split: bind_splits)
      obtain u where "getVersion db' v = Some u" "version_file_id u = f"
        using assms(1) row unfolding db_inv_def tight_def by blast
      then show False using assms(2) ver None unfolding db_inv_def tight_def by (metis option.distinct(1))
    qed
    with None show ?thesis by (simp add: stored_def)
  next
    case (Some row)
    with rows [of f] ver show ?thesis by (simp add: stored_def)
  qed
qed

lemma post_file_simulated:
  assumes inv: "server_inv n k P s" and rep: "represents (sha_of P) m (app_db s)"
    and run: "post_file (node_serve (sha_of P)) P e body s = (r, s')"
  shows "\<exists>m'. store_step (sha_of P) m (Some (PostFile body, r)) m' \<and> represents (sha_of P) m' (app_db s')"
proof (rule post_file_cases [OF inv run])
  assume "s' = s" "r = reply 400 (ErrorMessage ''expected application/octet-stream body'')"
  then show ?thesis using rep by (intro exI [of _ m] conjI store_step.failed) (simp_all add: reply_def)
next
  fix err w1 db' assume c: "r = reply 500 (Thrown err)" "s' = s\<lparr>app_world := w1, app_db := db'\<rparr>" "db_inv db'"
    "\<And>v. getVersion db' v = getVersion (app_db s) v"
    "\<And>f. getFile (app_db s) f \<noteq> None \<Longrightarrow> getFile db' f = getFile (app_db s) f"
  from stored_failed [OF c(3) server_invD(2) [OF inv] c(4,5)] have "represents (sha_of P) m db'"
    by (intro represents_same [OF rep])
  with c(1,2) show ?thesis by (intro exI [of _ m] conjI store_step.failed) (simp_all add: reply_def)
next
  fix buf f v results w1 db1 db2 hashes
  assume c: "body = Buffer buf" "hashes = map (hashChunk (sha_of P)) (blocks DEFAULT_CHUNK_SIZE buf)"
    "createFile (file_random e) (file_now e) (app_db s) = (Inr f, db1)"
    "commitVersion (version_random e) (version_now e) f hashes (length buf) db1 = (Inr v, db2)"
    "r = reply 201 (Created f v (length hashes) (length buf))" "s' = s\<lparr>app_world := w1, app_db := db2\<rparr>"
  note new = stored_created [OF c(3) server_invD(2) [OF inv] c(4)]
  have "m f = None" using new(1) representsD [OF rep, of f] by simp
  moreover have "represents (sha_of P) (m(f \<mapsto> buf)) db2"
    by (rule represents_update [OF rep]) (simp add: new(2) manifest_of_def c(2))
  ultimately show ?thesis
    unfolding c(1,5) by (intro exI [of _ "m(f \<mapsto> buf)"] conjI store_step.create) (simp_all add: c(6))
qed

lemma put_file_simulated:
  assumes inv: "server_inv n k P s" and rep: "represents (sha_of P) m (app_db s)"
    and run: "put_file (node_serve (sha_of P)) P e f body s = (r, s')"
  shows "\<exists>m'. store_step (sha_of P) m (Some (PutFile f body, r)) m' \<and> represents (sha_of P) m' (app_db s')"
proof (rule put_file_cases [OF inv run])
  assume c: "s' = s" "r = reply 404 (ErrorMessage ''file not found'')" "getFile (app_db s) f = None"
  then have "m f = None" using representsD [OF rep, of f] by (simp add: stored_def)
  with c rep show ?thesis by (intro exI [of _ m] conjI store_step.absent [of _ f]) (simp_all add: reply_def)
next
  assume "s' = s" "r = reply 400 (ErrorMessage ''expected application/octet-stream body'')"
  then show ?thesis using rep by (intro exI [of _ m] conjI store_step.failed) (simp_all add: reply_def)
next
  fix err w1 assume "r = reply 500 (Thrown err)" "s' = s\<lparr>app_world := w1\<rparr>"
  then show ?thesis using rep by (intro exI [of _ m] conjI store_step.failed) (simp_all add: reply_def)
next
  fix row buf hashes results w1 v db1
  assume c: "getFile (app_db s) f = Some row" "body = Buffer buf"
    "hashes = map (hashChunk (sha_of P)) (blocks DEFAULT_CHUNK_SIZE buf)"
    "commitVersion (version_random e) (version_now e) f hashes (length buf) (app_db s) = (Inr v, db1)"
    "r = reply 200 (Updated f v (current_version_id row) (length hashes) (length buf))"
    "s' = s\<lparr>app_world := w1, app_db := replace_version (current_version_id row) db1\<rparr>"
  from stored_replace [OF server_invD(2) [OF inv] c(1,4)]
  have "represents (sha_of P) (m(f \<mapsto> buf)) (replace_version (current_version_id row) db1)"
    by (intro represents_update [OF rep]) (simp add: manifest_of_def c(3))
  then show ?thesis
    unfolding c(2,5) by (intro exI [of _ "m(f \<mapsto> buf)"] conjI store_step.replace) (simp add: c(6))
qed

text \<open>What a download answers, whatever the nodes do.\<close>

lemma read_all_verified:
  "read_all serve P envs co i hs w = (map (\<lambda>b. Inr (Some b)) bs, w')
     \<Longrightarrow> list_all2 (\<lambda>b h. sha256_hex (sha_of P) b = h) bs hs"
proof (induction hs arbitrary: i w bs)
  case (Cons h hs)
  then obtain b cs w1 where bs: "bs = b # cs"
    "getChunk serve (sha_of P) (sha1_of P) (envs i) co h w = (Inr (Some b), w1)"
    "read_all serve P envs co (i + 1) hs w1 = (map (\<lambda>b. Inr (Some b)) cs, w')"
    by (cases bs) (auto split: prod.splits)
  with Cons.IH [OF bs(3)] getChunk_hash [OF bs(2)] show ?case by simp
qed simp

lemma assemble_cases:
  assumes "length hs = length rs"
  shows "(\<exists>bs. rs = map (\<lambda>b. Inr (Some b)) bs \<and> assemble hs rs = reply 200 (Bytes (concat bs)))
    \<or> status (assemble hs rs) = 500"
proof (cases "\<exists>r \<in> set rs. \<forall>b. r \<noteq> Inr (Some b)")
  case True
  with assemble_failed [OF _ _ assms] show ?thesis by blast
next
  case False
  then obtain bs where "rs = map (\<lambda>b. Inr (Some b)) bs" by (metis ex_map_conv)
  with assemble_ok [of hs bs] assms show ?thesis by auto
qed

lemma download_answers:
  assumes inv: "server_inv n k P s" and rep: "represents (sha_of P) m (app_db s)"
    and run: "download (node_serve (sha_of P)) P e f s = (r, s')"
  shows "case m f of
      None \<Rightarrow> status r = 404
    | Some b \<Rightarrow> status r = 500 \<or> (\<exists>bs. r = reply 200 (Bytes (concat bs)) \<and> same_content (sha_of P) b bs)"
proof (cases "Option.bind (getFile (app_db s) f) current_version_id")
  case None
  then have "m f = None" using stored_None_iff [OF server_inv_pointers [OF inv], of f] representsD [OF rep, of f] by simp
  with None run show ?thesis by (auto simp: download_def reply_def)
next
  case (Some v)
  then obtain row where row: "getFile (app_db s) f = Some row" "current_version_id row = Some v"
    by (auto simp: bind_eq_Some_conv)
  obtain ver where ver: "getVersion (app_db s) v = Some ver" "v \<noteq> []"
    "stored (app_db s) f = Some (chunkHashes ver, version_size ver)"
    by (rule stored_known [OF server_inv_pointers [OF inv] row])
  then obtain b where b: "m f = Some b" "chunkHashes ver = map (hashChunk (sha_of P)) (blocks DEFAULT_CHUNK_SIZE b)"
    using representsD [OF rep, of f] by (auto simp: manifest_of_def)
  obtain rs w where read: "read_all (node_serve (sha_of P)) P (chunk_env e) (app_co s) 0 (chunkHashes ver) (app_world s)
      = (rs, w)" by fastforce
  then have r: "r = assemble (chunkHashes ver) rs" using run Some ver(1,2) by (simp add: download_def)
  have "length (chunkHashes ver) = length rs"
    using read_all_length [of "node_serve (sha_of P)" P "chunk_env e" "app_co s" 0 "chunkHashes ver" "app_world s"] read
    by simp
  from assemble_cases [OF this] show ?thesis
  proof
    assume "\<exists>bs. rs = map (\<lambda>b. Inr (Some b)) bs \<and> assemble (chunkHashes ver) rs = reply 200 (Bytes (concat bs))"
    then obtain bs where bs: "rs = map (\<lambda>b. Inr (Some b)) bs" "r = reply 200 (Bytes (concat bs))" using r by blast
    have "same_content (sha_of P) b bs"
      using read_all_verified [OF read [unfolded bs(1)]] by (intro same_contentI) (simp add: b(2))
    with bs(2) b(1) show ?thesis by auto
  qed (simp add: b(1) r)
qed

text \<open>The one version of a file has the size of its content.\<close>

lemma listed_sizes:
  assumes inv: "db_inv db"
  shows "map version_size (listVersions db f) = (case stored db f of None \<Rightarrow> [] | Some (hs, n) \<Rightarrow> [n])"
proof -
  have wf: "metadata_wf db" and tight: "tight db" and ptr: "pointers_ok db"
    using inv by (simp_all add: db_inv_def tight_pointers)
  have listed: "set (listVersions db f) = {q \<in> set (versions db). version_file_id q = f}"
    by (auto simp: listVersions_def)
  have row: "\<exists>ver. getVersion db (version_id q) = Some ver \<and> version_file_id ver = version_file_id q
      \<and> version_size ver = version_size q" if "q \<in> set (versions db)" for q
  proof -
    have "distinct (map version_id (versions db))" using metadata_wfD [OF wf] by blast
    then have "find (\<lambda>r. version_id r = version_id q) (versions db) = Some q" using that by (simp add: find_by_key)
    then show ?thesis by (simp add: getVersion_def)
  qed
  show ?thesis
  proof (cases "stored db f")
    case None
    have False if q: "q \<in> set (listVersions db f)" for q
    proof -
      obtain ver where "getVersion db (version_id q) = Some ver" "version_file_id ver = f"
        using row [of q] q listed by auto
      then obtain fr where "getFile db f = Some fr" "current_version_id fr = Some (version_id q)"
        using tight unfolding tight_def by blast
      with None stored_None_iff [OF ptr, of f] show False by simp
    qed
    then have "listVersions db f = []" by (cases "listVersions db f") auto
    with None show ?thesis by simp
  next
    case (Some hn)
    then obtain fr v where fr: "getFile db f = Some fr" "current_version_id fr = Some v"
      by (auto simp: stored_def split: bind_splits)
    obtain ver where ver: "getVersion db v = Some ver" "version_file_id ver = f"
      "stored db f = Some (chunkHashes ver, version_size ver)"
      by (rule stored_known [OF ptr fr])
    obtain q where q: "q \<in> set (versions db)" "version_id q = v" using getVersion_in [OF ver(1)] by auto
    with row [OF q(1)] ver have q': "version_file_id q = f" "version_size q = version_size ver" by auto
    with q listed have "q \<in> set (listVersions db f)" by simp
    with tight_versions [OF wf tight, of f] have "listVersions db f = [q]"
      by (cases "listVersions db f") auto
    with ver(3) q' show ?thesis by simp
  qed
qed

lemma read_simulated:
  assumes "case m f of None \<Rightarrow> status r = 404
      | Some b \<Rightarrow> status r = 500 \<or> (\<exists>bs. r = reply 200 (Bytes (concat bs)) \<and> same_content sha b bs)"
    and "req = Download f \<or> req = DownloadPresigned f query"
  shows "store_step sha m (Some (req, r)) m"
proof (cases "m f")
  case None
  with assms show ?thesis by (intro store_step.absent [of req f]) auto
next
  case (Some b)
  with assms(1) consider "status r = 500" | bs where "r = reply 200 (Bytes (concat bs))" "same_content sha b bs"
    by auto
  then show ?thesis
  proof cases
    case 1
    then show ?thesis by (intro store_step.failed) simp
  next
    case 2
    with Some assms(2) show ?thesis by (auto intro: store_step.read)
  qed
qed

lemma presigned_simulated:
  assumes inv: "server_inv n k P s" and rep: "represents (sha_of P) m (app_db s)"
    and run: "download_presigned (node_serve (sha_of P)) P e f query s = (r, s')"
  shows "store_step (sha_of P) m (Some (DownloadPresigned f query, r)) m"
proof (cases "status r \<in> {403, 429}")
  case True
  then show ?thesis by (intro store_step.failed) auto
next
  case False
  with run have "observed (''GET'', ''/files/:fileId/download'') (inject_elapsed_ms e)
      (limited P (inject_clock e) (inject_ip P) (download (node_serve (sha_of P)) P e f) s) = (r, s')"
    by (auto simp: download_presigned_def reply_def split: sum.splits presign_error.splits)
  then obtain s1 where lim: "limited P (inject_clock e) (inject_ip P) (download (node_serve (sha_of P)) P e f) s
      = (r, s1)" by (rule observed_cases)
  show ?thesis
  proof (rule limited_cases [OF lim])
    fix rl assume down: "download (node_serve (sha_of P)) P e f (s\<lparr>app_limiter := rl\<rparr>) = (r, s1)"
    have "server_inv n k P (s\<lparr>app_limiter := rl\<rparr>)" using inv by simp
    moreover have "represents (sha_of P) m (app_db (s\<lparr>app_limiter := rl\<rparr>))" using rep by simp
    ultimately show ?thesis
      by (intro read_simulated [where f = f and query = query] download_answers [OF _ _ down]) simp_all
  qed (use False in \<open>simp add: reply_def\<close>)
qed

lemma route_simulated:
  assumes inv: "server_inv n k P s" and rep: "represents (sha_of P) m (app_db s)"
    and run: "route (node_serve (sha_of P)) P e req s = (r, s')"
  shows "\<exists>m'. store_step (sha_of P) m (Some (req, r)) m' \<and> represents (sha_of P) m' (app_db s')"
proof (cases req)
  case (PostFile body)
  with post_file_simulated [OF inv rep] run show ?thesis by simp
next
  case (PutFile f body)
  with put_file_simulated [OF inv rep] run show ?thesis by simp
next
  case (GetFileInfo f)
  have "store_step (sha_of P) m (Some (req, r)) m"
  proof (cases "getFile (app_db s) f")
    case None
    then have "m f = None" using representsD [OF rep, of f] by (simp add: stored_def)
    with None run GetFileInfo show ?thesis
      by (intro store_step.absent [of _ f]) (auto simp: file_info_def reply_def)
  next
    case (Some row)
    have "map version_size (listVersions (app_db s) f) = (case m f of None \<Rightarrow> [] | Some b \<Rightarrow> [length b])"
      using listed_sizes [OF server_invD(2) [OF inv], of f] representsD [OF rep, of f]
      by (simp add: manifest_of_def split: option.split)
    from store_step.info [where m = m and f = f, OF this] Some run GetFileInfo show ?thesis
      by (auto simp: file_info_def)
  qed
  with run GetFileInfo rep show ?thesis by auto
next
  case (Download f)
  have "app_db s' = app_db s" using download_inv(2) [OF inv] run Download by simp
  moreover have "store_step (sha_of P) m (Some (req, r)) m"
    by (intro read_simulated [where f = f] download_answers [OF inv rep, of e f r s']) (use run Download in simp_all)
  ultimately show ?thesis using rep by auto
next
  case (PresignDownload f)
  have "store_step (sha_of P) m (Some (req, r)) m"
  proof (cases "getFile (app_db s) f")
    case None
    then have "m f = None" using representsD [OF rep, of f] by (simp add: stored_def)
    with None run PresignDownload show ?thesis
      by (intro store_step.absent [of _ f]) (auto simp: presign_download_def reply_def)
  next
    case (Some row)
    with run PresignDownload show ?thesis
      by (intro store_step.service [of _ f]) (auto simp: presign_download_def reply_def Let_def)
  qed
  with run PresignDownload rep show ?thesis by auto
next
  case (DownloadPresigned f query)
  then have down: "download_presigned (node_serve (sha_of P)) P e f query s = (r, s')" using run by simp
  have "app_db s' = app_db s" by (rule same_dataD(2) [OF presigned_same [OF inv down]])
  with presigned_simulated [OF inv rep down] rep DownloadPresigned show ?thesis by auto
next
  case Health
  with run rep show ?thesis
    by (intro exI [of _ m] conjI store_step.service) (auto simp: reply_def)
next
  case MetricsPage
  with run rep show ?thesis
    by (intro exI [of _ m] conjI store_step.service) (auto simp: reply_def)
qed

text \<open>The server, in a state its invariant holds in, simulates the store.\<close>

definition serves_store :: "nat \<Rightarrow> nat \<Rightarrow> platform \<Rightarrow> store \<Rightarrow> storage_node app \<Rightarrow> bool" where
  "serves_store n k P m s \<longleftrightarrow> server_inv n k P s \<and> represents (sha_of P) m (app_db s)"

lemma server_event_simulated:
  assumes "serves_store n k P m s" and "server_event P s ev s'"
  shows "\<exists>m'. (store_step (sha_of P) m ev m' \<or> ev = None \<and> m' = m) \<and> serves_store n k P m' s'"
  using assms(2)
proof (cases rule: server_event.cases)
  case (request e client req r)
  have inv: "server_inv n k P s" and rep: "represents (sha_of P) m (app_db s)"
    using assms(1) by (simp_all add: serves_store_def)
  have inv': "server_inv n k P s'" by (rule handle_inv [OF inv request(2)])
  have "\<exists>m'. store_step (sha_of P) m (Some (req, r)) m' \<and> represents (sha_of P) m' (app_db s')"
  proof (rule handle_cases [OF request(2)])
    fix rl s1 assume run: "route (node_serve (sha_of P)) P e req (s\<lparr>app_limiter := rl\<rparr>) = (r, s1)"
      and s': "same_data s1 s'"
    have "server_inv n k P (s\<lparr>app_limiter := rl\<rparr>)" using inv by simp
    from route_simulated [OF this _ run] rep same_dataD(2) [OF s'] show ?thesis by simp
  next
    assume "r = reply 429 (ErrorMessage ''rate limit exceeded'')" "same_data s s'"
    with rep same_dataD(2) [OF this(2)] show ?thesis
      by (intro exI [of _ m] conjI store_step.failed) (auto simp: reply_def)
  qed
  with inv' request(1) show ?thesis by (auto simp: serves_store_def)
next
  case (sweep envs hint)
  have inv: "server_inv n k P s" and rep: "represents (sha_of P) m (app_db s)"
    using assms(1) by (simp_all add: serves_store_def)
  note frame = gc_step_frame [OF inv, of envs hint]
  have "getFile (app_db s') = getFile (app_db s)" "getVersion (app_db s') = getVersion (app_db s)"
    using frame by (auto simp: sweep(2) getFile_def fun_eq_iff intro!: getVersion_cong)
  from represents_same [OF rep stored_cong [OF this]] gc_step_inv [OF inv] sweep show ?thesis
    by (auto simp: serves_store_def)
qed

interpretation server_store: forward_simulation "store_step (sha_of P)" "server_event P" "serves_store n k P" for P n k
  by unfold_locales (rule server_event_simulated)

section \<open>Properties\<close>

text \<open>
  C2: the server is an object store. From its start with an empty database and well-formed nodes, whatever requests
  clients send, whatever happens to the calls to the nodes, and whenever the collector sweeps: what clients are
  answered is a run of the abstract store from the empty one. An upload takes a free name, a file reads as the
  content that was last put (up to collisions of the digest), its size is listed, a name without content is
  answered with 404, and a request that fails has no effect.
\<close>

theorem server_refines_store:
  assumes "100 * length (server_nodes env topology) < 2 ^ 31"
    and "env_number (number_of P) (REPLICATION_FACTOR env) 3 = js_nat n"
    and "env_number (number_of P) (WRITE_QUORUM env) 2 = js_nat k"
    and "cluster_ok w" and "cluster_sound (sha_of P) w"
    and "trace (server_event P) (buildServer P env topology w) es s"
  shows "\<exists>m. trace (store_step (sha_of P)) (\<lambda>_. None) es m
    \<and> (\<forall>f. m f = None \<longleftrightarrow> Option.bind (getFile (app_db s) f) current_version_id = None)"
proof -
  let ?k = "min k (length (server_nodes env topology))" and ?n = "min n (length (server_nodes env topology))"
  have "app_db (buildServer P env topology w) = empty_db" by (simp add: buildServer_def Let_def)
  then have "represents (sha_of P) (\<lambda>_. None) (app_db (buildServer P env topology w))"
    by (simp add: represents_def stored_def [abs_def] empty_db_def getFile_def)
  then have "serves_store ?n ?k P (\<lambda>_. None) (buildServer P env topology w)"
    using built_server_inv [OF assms(1-5)] by (simp add: serves_store_def)
  from server_store.traces [OF assms(6) this] obtain m where
    m: "trace (store_step (sha_of P)) (\<lambda>_. None) es m" "serves_store ?n ?k P m s" by blast
  then have "pointers_ok (app_db s)" "represents (sha_of P) m (app_db s)"
    using server_inv_pointers by (auto simp: serves_store_def)
  with stored_None_iff representsD m(1) show ?thesis by (metis option.map_disc_iff)
qed

theorem server_refines_store_witness:
  "\<exists>s r m. trace (server_event demo_platform) (buildServer demo_platform demo_environment None demo_world)
      [(PostFile (Buffer []), r)] s
    \<and> status r = 201 \<and> trace (store_step demo_sha) (\<lambda>_. None) [(PostFile (Buffer []), r)] m"
proof -
  let ?s = "buildServer demo_platform demo_environment None demo_world"
  obtain r s where run: "handle (node_serve (sha_of demo_platform)) demo_platform (demo_request {} [1]) (None, ''10.0.0.1'')
      (PostFile (Buffer [])) ?s = (r, s)" by fastforce
  then have r: "status r = 201"
    by (simp add: handle_def observed_def limited_def client_key_def post_file_def buildServer_def demo_platform_def
        demo_request_def allow_def bucketFor_def new_limiter_def tryConsume_def refill_def new_bucket_def Let_def
        split_beta uploadChunks_def chunkBuffer_blocks createFile_def empty_db_def commitVersion_def
        commit_chunks.simps) fastforce
  have "trace (server_event demo_platform) ?s ([] @ [(PostFile (Buffer []), r)]) s"
    by (rule trace.shown) (rule trace.start, rule server_event.request [OF run])
  then have run: "trace (server_event demo_platform) ?s [(PostFile (Buffer []), r)] s" by simp
  from server_refines_store [OF demo_nodes demo_numbers(2,3) demo_world_ok demo_world_sound run] r run show ?thesis
    by (auto simp: demo_platform_def)
qed

end
