(* ===== verification/Concurrency.thy ===== *)
theory Concurrency
  imports EndToEnd
begin

text \<open>
  Requests that overlap. The handlers of \<^verbatim>\<open>src/server.js\<close> give way at every \<^verbatim>\<open>await\<close>, so several
  uploads can be under way at once, each with calls to several nodes outstanding, and the
  collector, a process of its own, runs beside them. The steps of this theory are the stretches
  of code between two such points.
\<close>

section \<open>The code\<close>

text \<open>What an upload is for; an update remembers the version it found at its start.\<close>

datatype upload_target = NewFile | ExistingFile string "string option"

text \<open>Between two chunks, or waiting for nodes, with the answers so far.\<close>

datatype upload_phase = Ready | Calling "string list" "ack list"

record upload_task =
  task_target :: upload_target
  task_hashes :: "string list"
  task_size :: nat
  task_todo :: "chunk list"
  task_phase :: upload_phase

definition start_upload :: "sha256 \<Rightarrow> upload_target \<Rightarrow> bytes \<Rightarrow> upload_task option" where
  "start_upload sha tgt buf =
     (case chunkBuffer sha (Buffer buf) DEFAULT_CHUNK_SIZE of
        Some (Inr chunks) \<Rightarrow>
          Some \<lparr>task_target = tgt, task_hashes = map chunk_sha chunks, task_size = length buf,
                task_todo = chunks, task_phase = Ready\<rparr>
      | _ \<Rightarrow> None)"

text \<open>The end of a fan-out, once every node has answered.\<close>

definition quorum_failed :: "coordinator \<Rightarrow> ack list \<Rightarrow> bool" where
  "quorum_failed co results \<longleftrightarrow> js_less (js_nat (length (filter ack_ok results))) (write_w co)"

definition settle_counters :: "coordinator \<Rightarrow> ack list \<Rightarrow> bytes \<Rightarrow> 'n world \<Rightarrow> 'n world" where
  "settle_counters co results buf w =
     (if quorum_failed co results then bump inc_quorumWriteFailures w
      else if list_ex (\<lambda>a. \<not> ack_deduped a) (filter ack_ok results) then w
      else bump (inc_dedupBytesSaved (length buf)) w)"

text \<open>The end of a handler, from the last chunk on, which does not give way.\<close>

definition finish_upload ::
  "bytes \<times> int \<Rightarrow> bytes \<times> int \<Rightarrow> upload_task \<Rightarrow> metadata \<Rightarrow> (js_error + string \<times> string) \<times> metadata" where
  "finish_upload file ver t db =
     (case task_target t of
        NewFile \<Rightarrow>
          (case createFile (fst file) (snd file) db of
             (Inl e, db1) \<Rightarrow> (Inl e, db1)
           | (Inr f, db1) \<Rightarrow>
               (case commitVersion (fst ver) (snd ver) f (task_hashes t) (task_size t) db1 of
                  (Inl e, db2) \<Rightarrow> (Inl e, db2)
                | (Inr v, db2) \<Rightarrow> (Inr (f, v), db2)))
      | ExistingFile f previous \<Rightarrow>
          (case commitVersion (fst ver) (snd ver) f (task_hashes t) (task_size t) db of
             (Inl e, db1) \<Rightarrow> (Inl e, db1)
           | (Inr v, db1) \<Rightarrow> (Inr (f, v), replace_version previous db1)))"

text \<open>The process, its uploads under way, and the chunks the collector has yet to sweep.\<close>

type_synonym 'n system = "'n app \<times> upload_task list \<times> string list"

inductive conc_step :: "platform \<Rightarrow> storage_node system \<Rightarrow> storage_node system \<Rightarrow> bool" for P where
  begin_post: "start_upload (sha_of P) NewFile buf = Some t
    \<Longrightarrow> conc_step P (s, ts, hs) (s, t # ts, hs)"
| begin_put: "getFile (app_db s) f = Some row
    \<Longrightarrow> start_upload (sha_of P) (ExistingFile f (current_version_id row)) buf = Some t
    \<Longrightarrow> conc_step P (s, ts, hs) (s, t # ts, hs)"
| fan_out: "task_phase t = Ready \<Longrightarrow> task_todo t = c # cs
    \<Longrightarrow> preferenceList (sha1_of P) (co_ring (app_co s)) (chunk_sha c) (repl_n (app_co s)) = Some pl
    \<Longrightarrow> conc_step P (s, ts @ t # us, hs) (s, ts @ t\<lparr>task_phase := Calling pl []\<rparr> # us, hs)"
| call: "task_phase t = Calling (xs @ x # ys) as \<Longrightarrow> task_todo t = c # cs
    \<Longrightarrow> putToNode (node_serve (sha_of P)) env (nodesById (app_co s) x) x (chunk_sha c) (chunk_data c)
          (app_world s) = (a, w)
    \<Longrightarrow> conc_step P (s, ts @ t # us, hs)
          (s\<lparr>app_world := w\<rparr>, ts @ t\<lparr>task_phase := Calling (xs @ ys) (a # as)\<rparr> # us, hs)"
| settle: "task_phase t = Calling [] as \<Longrightarrow> task_todo t = c # cs \<Longrightarrow> \<not> quorum_failed (app_co s) as
    \<Longrightarrow> conc_step P (s, ts @ t # us, hs)
          (s\<lparr>app_world := settle_counters (app_co s) as (chunk_data c) (app_world s)\<rparr>,
           ts @ t\<lparr>task_todo := cs, task_phase := Ready\<rparr> # us, hs)"
| fail: "task_phase t = Calling [] as \<Longrightarrow> task_todo t = c # cs \<Longrightarrow> quorum_failed (app_co s) as
    \<Longrightarrow> conc_step P (s, ts @ t # us, hs)
          (s\<lparr>app_world := settle_counters (app_co s) as (chunk_data c) (app_world s)\<rparr>, ts @ us, hs)"
| finish: "task_phase t = Ready \<Longrightarrow> task_todo t = []
    \<Longrightarrow> finish_upload file ver t (app_db s) = (res, db)
    \<Longrightarrow> conc_step P (s, ts @ t # us, hs) (s\<lparr>app_db := db\<rparr>, ts @ us, hs)"
| gc_begin: "conc_step P (s, ts, []) (s, ts, listOrphanedChunks (app_db s))"
| gc_chunk: "gc_loop (\<lambda>h. deleteChunk (node_serve (sha_of P)) (sha1_of P) (envs h) (app_co s) h)
        reapOrphanedChunk hint [h] 0 0 (app_db s) (app_world s) = (q, db, w)
    \<Longrightarrow> conc_step P (s, ts, h # hs)
          (s\<lparr>app_db := db, app_world := w\<rparr>, ts, if isl q then [] else hs)"

text \<open>No upload is under way while the collector sweeps.\<close>

definition exclusive :: "'n system \<Rightarrow> bool" where
  "exclusive \<sigma> \<longleftrightarrow> fst (snd \<sigma>) = [] \<or> snd (snd \<sigma>) = []"

lemma exclusive_simps [simp]: "exclusive (s, ts, [])" "exclusive (s, [], hs)"
  by (simp_all add: exclusive_def)

abbreviation exclusive_run :: "platform \<Rightarrow> storage_node system \<Rightarrow> storage_node system \<Rightarrow> bool" where
  "exclusive_run P \<equiv> rtranclp (\<lambda>\<sigma> \<sigma>'. conc_step P \<sigma> \<sigma>' \<and> exclusive \<sigma>')"

section \<open>The invariant of overlapping uploads\<close>

definition task_ok :: "platform \<Rightarrow> nat \<Rightarrow> coordinator \<Rightarrow> storage_node world \<Rightarrow> upload_task \<Rightarrow> bool" where
  "task_ok P k co w t \<longleftrightarrow>
     (\<exists>ready. task_hashes t = ready @ map chunk_sha (task_todo t)
        \<and> (\<forall>h \<in> set ready. k \<le> card (holders (sha1_of P) co w h)))
     \<and> (\<forall>h \<in> set (task_hashes t). valid_hash h)
     \<and> (\<forall>xs as c cs. task_phase t = Calling xs as \<longrightarrow> task_todo t = c # cs \<longrightarrow>
          (\<exists>pl. preferenceList (sha1_of P) (co_ring co) (chunk_sha c) (repl_n co) = Some pl
            \<and> set xs \<union> ack_node ` set as \<subseteq> set pl \<and> distinct (xs @ map ack_node as)
            \<and> (\<forall>a \<in> set as. ack_ok a \<longrightarrow> replica co w (ack_node a) (chunk_sha c) \<noteq> None)))"

definition conc_inv :: "nat \<Rightarrow> nat \<Rightarrow> platform \<Rightarrow> storage_node system \<Rightarrow> bool" where
  "conc_inv n k P \<sigma> \<longleftrightarrow>
     (case \<sigma> of (s, ts, hs) \<Rightarrow>
        config_ok n k (app_co s) \<and> metadata_wf (app_db s) \<and> names_ok (app_db s)
        \<and> cluster_ok (app_world s) \<and> cluster_sound (sha_of P) (app_world s)
        \<and> (\<forall>h. manifest_refs (app_db s) h \<noteq> 0
             \<longrightarrow> k \<le> card (holders (sha1_of P) (app_co s) (app_world s) h))
        \<and> (\<forall>t \<in> set ts. task_ok P k (app_co s) (app_world s) t)
        \<and> (\<forall>h \<in> set hs. manifest_refs (app_db s) h = 0 \<and> valid_hash h))"

lemma conc_inv_start: "server_inv n k P s \<Longrightarrow> conc_inv n k P (s, [], [])"
  by (simp add: conc_inv_def server_inv_def db_inv_def)

lemma conc_invD:
  assumes "conc_inv n k P (s, ts, hs)"
  shows "config_ok n k (app_co s)" "metadata_wf (app_db s)" "names_ok (app_db s)"
    "cluster_ok (app_world s)" "cluster_sound (sha_of P) (app_world s)"
    "manifest_refs (app_db s) h \<noteq> 0 \<Longrightarrow> k \<le> card (holders (sha1_of P) (app_co s) (app_world s) h)"
    "t \<in> set ts \<Longrightarrow> task_ok P k (app_co s) (app_world s) t"
    "h \<in> set hs \<Longrightarrow> manifest_refs (app_db s) h = 0 \<and> valid_hash h"
    "write_w (app_co s) = js_nat k"
  using assms by (auto simp: conc_inv_def config_ok_def)

lemma task_ok_calling:
  assumes "task_ok P k co w t" and "task_phase t = Calling xs as" and "task_todo t = c # cs"
  shows "\<exists>pl. preferenceList (sha1_of P) (co_ring co) (chunk_sha c) (repl_n co) = Some pl
    \<and> set xs \<union> ack_node ` set as \<subseteq> set pl \<and> distinct (xs @ map ack_node as)
    \<and> (\<forall>a \<in> set as. ack_ok a \<longrightarrow> replica co w (ack_node a) (chunk_sha c) \<noteq> None)"
  using assms by (simp add: task_ok_def)

lemma task_ok_keeps:
  assumes "keeps co w w'" and "task_ok P k co w t"
  shows "task_ok P k co w' t"
proof -
  have "k \<le> card (holders (sha1_of P) co w' h)" if "k \<le> card (holders (sha1_of P) co w h)" for h
    using that keeps_holders [OF assms(1), of "sha1_of P" h] by simp
  moreover have "replica co w' x h \<noteq> None" if "replica co w x h \<noteq> None" for x h
    using that assms(1) by (auto simp: keeps_def)
  ultimately show ?thesis using assms(2) unfolding task_ok_def by meson
qed

text \<open>A change of the cluster that only adds copies, and new tasks.\<close>

lemma conc_inv_world:
  assumes inv: "conc_inv n k P (s, ts, hs)" and w: "cluster_ok w" "cluster_sound (sha_of P) w"
    and keeps: "keeps (app_co s) (app_world s) w"
    and new: "\<And>t. t \<in> set ts' \<Longrightarrow> t \<in> set ts \<or> task_ok P k (app_co s) w t"
  shows "conc_inv n k P (s\<lparr>app_world := w\<rparr>, ts', hs)"
proof -
  have "k \<le> card (holders (sha1_of P) (app_co s) w h)" if "manifest_refs (app_db s) h \<noteq> 0" for h
    using conc_invD(6) [OF inv that] keeps_holders [OF keeps, of "sha1_of P" h] by simp
  moreover have "task_ok P k (app_co s) w t" if "t \<in> set ts'" for t
    using new [OF that] task_ok_keeps [OF keeps] conc_invD(7) [OF inv] by blast
  ultimately show ?thesis using inv w by (simp add: conc_inv_def)
qed

lemma start_upload_ok:
  assumes "start_upload (sha_of P) tgt buf = Some t"
  shows "task_ok P k co w t"
proof -
  let ?cs = "numbered (sha_of P) 0 (blocks DEFAULT_CHUNK_SIZE buf)"
  have t: "t = \<lparr>task_target = tgt, task_hashes = map chunk_sha ?cs, task_size = length buf,
      task_todo = ?cs, task_phase = Ready\<rparr>"
    using assms by (simp add: start_upload_def chunkBuffer_blocks)
  have "\<forall>h \<in> set (map chunk_sha ?cs). valid_hash h"
    using hashChunk_valid by (simp only: map_numbered) blast
  then show ?thesis by (simp add: task_ok_def t)
qed

lemma replace_version_frame:
  assumes "metadata_wf db" and "names_ok db"
  shows "metadata_wf (replace_version p db)" and "names_ok (replace_version p db)"
    and "manifest_refs (replace_version p db) h \<le> manifest_refs db h"
  using assms metadata_wf_delete names_ok_delete deleteVersion_refs
  by (auto simp: replace_version_def split: option.split)

lemma commit_frame:
  assumes wf: "metadata_wf db" and names: "names_ok db" and hs: "\<forall>h \<in> set hs. valid_hash h"
    and run: "commitVersion random now f hs m db = (r, db1)"
  shows "metadata_wf db1 \<and> names_ok db1
    \<and> (manifest_refs db1 h \<noteq> 0 \<longrightarrow> manifest_refs db h \<noteq> 0 \<or> h \<in> set hs)"
proof (cases r)
  case (Inl e)
  then have "db1 = db" using commit_fails run wf by auto
  with wf names show ?thesis by simp
next
  case (Inr v)
  note run = run [unfolded Inr]
  have "metadata_wf db1" using metadata_wf_commit [OF wf, of random now f hs m] run by simp
  with names_ok_commit [OF wf run names hs] manifest_refs_commit [OF wf run, of h] count_notin [of h hs]
  show ?thesis by auto
qed

lemma finish_frame:
  assumes wf: "metadata_wf db" and names: "names_ok db"
    and hs: "\<forall>h \<in> set (task_hashes t). valid_hash h"
    and run: "finish_upload file ver t db = (res, db')"
  shows "metadata_wf db' \<and> names_ok db'
    \<and> (manifest_refs db' h \<noteq> 0 \<longrightarrow> manifest_refs db h \<noteq> 0 \<or> h \<in> set (task_hashes t))"
proof (cases "task_target t")
  case NewFile
  obtain r db1 where c: "createFile (fst file) (snd file) db = (r, db1)" by fastforce
  have db1: "metadata_wf db1" "names_ok db1" "manifest_refs db1 = manifest_refs db"
    using metadata_wf_create [OF wf, of "fst file" "snd file"] createFile_frame(2,6) [OF c] c names
    by (simp_all add: names_ok_def)
  show ?thesis
  proof (cases r)
    case (Inl e)
    with run c NewFile db1 show ?thesis by (simp add: finish_upload_def)
  next
    case (Inr f)
    obtain r2 db2 where d: "commitVersion (fst ver) (snd ver) f (task_hashes t) (task_size t) db1 = (r2, db2)"
      by fastforce
    with run c NewFile Inr have "db' = db2" by (auto simp: finish_upload_def split: sum.splits)
    with commit_frame [OF db1(1,2) hs d, of h] db1(3) show ?thesis by simp
  qed
next
  case (ExistingFile f previous)
  obtain r db1 where d: "commitVersion (fst ver) (snd ver) f (task_hashes t) (task_size t) db = (r, db1)"
    by fastforce
  note db1 = commit_frame [OF wf names hs d]
  have "db' = db1 \<or> db' = replace_version previous db1"
    using run d ExistingFile by (auto simp: finish_upload_def split: sum.splits)
  then show ?thesis
  proof
    assume db': "db' = replace_version previous db1"
    then have "manifest_refs db' h \<le> manifest_refs db1 h"
      using replace_version_frame(3) db1 by blast
    then show ?thesis
      using replace_version_frame(1,2) [of db1 previous] db1 [of h] by (simp add: db')
  qed (use db1 [of h] in simp)
qed

lemma quorum_holders:
  assumes t: "task_ok P k co w t" and W: "write_w co = js_nat k"
    and "task_phase t = Calling [] as" "task_todo t = c # cs" "\<not> quorum_failed co as"
  shows "k \<le> card (holders (sha1_of P) co w (chunk_sha c))"
proof -
  let ?h = "chunk_sha c" and ?acked = "map ack_node (filter ack_ok as)"
  from task_ok_calling [OF t assms(3,4)] obtain pl where
    pl: "preferenceList (sha1_of P) (co_ring co) ?h (repl_n co) = Some pl"
    and nodes: "set [] \<union> ack_node ` set as \<subseteq> set pl" and dist: "distinct ([] @ map ack_node as)"
    and acks: "\<forall>a \<in> set as. ack_ok a \<longrightarrow> replica co w (ack_node a) ?h \<noteq> None"
    by (elim exE conjE)
  have "distinct ?acked" using dist distinct_map_filter by (simp only: append_Nil)
  then have "card (set ?acked) = length ?acked" by (rule distinct_card)
  moreover have "set ?acked \<subseteq> {x \<in> set pl. replica co w x ?h \<noteq> None}"
    using nodes acks by (simp only: set_map set_filter) blast
  then have "card (set ?acked) \<le> card (holders (sha1_of P) co w ?h)"
    by (intro card_mono) (simp_all only: finite_holders, simp only: holders_def pl option.case)
  moreover have "k \<le> length ?acked" using assms(5) by (simp add: quorum_failed_def W)
  ultimately show ?thesis by linarith
qed

lemma settle_counters_servers [simp]: "servers (settle_counters co as buf w) = servers w"
  by (simp add: settle_counters_def)

lemma conc_inv_settle:
  assumes inv: "conc_inv n k P (s, ts, hs)"
    and new: "\<And>t. t \<in> set ts' \<Longrightarrow> t \<in> set ts \<or> task_ok P k (app_co s) (app_world s) t"
  shows "conc_inv n k P (s\<lparr>app_world := settle_counters (app_co s) as buf (app_world s)\<rparr>, ts', hs)"
proof (rule conc_inv_world [OF inv])
  let ?w = "settle_counters (app_co s) as buf (app_world s)"
  have same: "servers ?w = servers (app_world s)" by simp
  show keeps: "keeps (app_co s) (app_world s) ?w" by (rule same_servers_keeps(1) [OF same])
  show "cluster_ok ?w" "cluster_sound (sha_of P) ?w"
    using conc_invD(4,5) [OF inv] by (simp_all only: same_servers(2) [OF same] same_servers_keeps(2) [OF same])
  show "t \<in> set ts \<or> task_ok P k (app_co s) ?w t" if "t \<in> set ts'" for t
    using new [OF that] task_ok_keeps [OF keeps] by blast
qed

lemma conc_inv_call:
  assumes inv: "conc_inv n k P (s, ts @ t # us, hs)"
    and t: "task_phase t = Calling (xs @ x # ys) as" "task_todo t = c # cs"
    and put: "putToNode (node_serve (sha_of P)) env (nodesById (app_co s) x) x (chunk_sha c)
      (chunk_data c) (app_world s) = (a, w)"
  shows "conc_inv n k P (s\<lparr>app_world := w\<rparr>,
    ts @ t\<lparr>task_phase := Calling (xs @ ys) (a # as)\<rparr> # us, hs)"
proof (rule conc_inv_world [OF inv])
  note step = node.put_node_step [OF conc_invD(4) [OF inv] put]
  show "cluster_ok w" by (rule step(1))
  show "cluster_sound (sha_of P) w" by (rule put_rel_sound [OF conc_invD(5) [OF inv] step(2)])
  show keeps: "keeps (app_co s) (app_world s) w" by (rule put_keeps [OF step(2)])
  have new: "replica (app_co s) w (ack_node a) (chunk_sha c) \<noteq> None" if "ack_ok a"
    using step(5) [OF that] by (auto simp: held_def step(3))
  have "task_ok P k (app_co s) w t"
    using task_ok_keeps [OF keeps] conc_invD(7) [OF inv] by simp
  with t new have "task_ok P k (app_co s) w (t\<lparr>task_phase := Calling (xs @ ys) (a # as)\<rparr>)"
    unfolding task_ok_def by (auto simp: step(3))
  then show "u \<in> set (ts @ t # us) \<or> task_ok P k (app_co s) w u"
    if "u \<in> set (ts @ t\<lparr>task_phase := Calling (xs @ ys) (a # as)\<rparr> # us)" for u
    using that by auto
qed

lemma conc_inv_chunk:
  assumes inv: "conc_inv n k P (s, [], h # hs)"
    and loop: "gc_loop (\<lambda>h. deleteChunk (node_serve (sha_of P)) (sha1_of P) (envs h) (app_co s) h)
      reapOrphanedChunk hint [h] 0 0 (app_db s) (app_world s) = (q, db, w)"
  shows "conc_inv n k P (s\<lparr>app_db := db, app_world := w\<rparr>, [], if isl q then [] else hs)"
proof -
  have h: "\<forall>g \<in> set [h]. manifest_refs (app_db s) g = 0 \<and> valid_hash g"
    using conc_invD(8) [OF inv, of h] by simp
  note frame = sweeper.gc_loop_frame [OF conc_invD(2,4) [OF inv] h loop]
  have refs: "manifest_refs db = manifest_refs (app_db s)"
    and copies: "\<And>g x. g \<noteq> h \<Longrightarrow> replica (app_co s) w x g = replica (app_co s) (app_world s) x g"
    using frame by auto
  have "db = app_db s \<or> db = reapOrphanedChunk h (app_db s)"
    using loop by (auto split: prod.splits sum.splits if_splits)
  then have names: "names_ok db" using conc_invD(3) [OF inv] by (auto simp: names_ok_def reapOrphanedChunk_def)
  have sound: "cluster_ok w \<and> cluster_sound (sha_of P) w"
    using gc_loop_sound [OF _ conc_invD(4,5) [OF inv] loop] h by simp
  have "k \<le> card (holders (sha1_of P) (app_co s) w g)" if ref: "manifest_refs (app_db s) g \<noteq> 0" for g
  proof -
    have "g \<noteq> h" using ref h by auto
    then have "holders (sha1_of P) (app_co s) w g = holders (sha1_of P) (app_co s) (app_world s) g"
      by (intro holders_cong copies)
    with conc_invD(6) [OF inv ref] show ?thesis by simp
  qed
  then show ?thesis
    using conc_invD(1) [OF inv] conc_invD(8) [OF inv] frame names sound by (simp add: conc_inv_def refs)
qed

text \<open>A chunk with its quorum is one that is ready.\<close>

lemma conc_inv_settled:
  assumes inv: "conc_inv n k P (s, ts @ t # us, hs)"
    and settle: "task_phase t = Calling [] as" "task_todo t = c # cs" "\<not> quorum_failed (app_co s) as"
  shows "conc_inv n k P (s\<lparr>app_world := settle_counters (app_co s) as (chunk_data c) (app_world s)\<rparr>,
    ts @ t\<lparr>task_todo := cs, task_phase := Ready\<rparr> # us, hs)"
proof (rule conc_inv_settle [OF inv])
  have t: "task_ok P k (app_co s) (app_world s) t" using conc_invD(7) [OF inv] by simp
  note enough = quorum_holders [OF t conc_invD(9) [OF inv] settle]
  from t settle(2) obtain ready where
    "task_hashes t = (ready @ [chunk_sha c]) @ map chunk_sha cs"
    "\<forall>h \<in> set ready. k \<le> card (holders (sha1_of P) (app_co s) (app_world s) h)"
    unfolding task_ok_def by auto
  with enough t have "task_ok P k (app_co s) (app_world s) (t\<lparr>task_todo := cs, task_phase := Ready\<rparr>)"
    unfolding task_ok_def by (auto intro!: exI [of _ "ready @ [chunk_sha c]"])
  then show "u \<in> set (ts @ t # us) \<or> task_ok P k (app_co s) (app_world s) u"
    if "u \<in> set (ts @ t\<lparr>task_todo := cs, task_phase := Ready\<rparr> # us)" for u
    using that by auto
qed

lemma conc_inv_finish:
  assumes inv: "conc_inv n k P (s, ts @ t # us, [])" and "task_todo t = []"
    and fin: "finish_upload z1 z2 t (app_db s) = (res, db)"
  shows "conc_inv n k P (s\<lparr>app_db := db\<rparr>, ts @ us, [])"
proof -
  have "task_ok P k (app_co s) (app_world s) t" using conc_invD(7) [OF inv] by simp
  with assms(2) have hashes: "\<forall>h \<in> set (task_hashes t). valid_hash h"
    "\<forall>h \<in> set (task_hashes t). k \<le> card (holders (sha1_of P) (app_co s) (app_world s) h)"
    unfolding task_ok_def by auto
  with finish_frame [OF conc_invD(2,3) [OF inv] hashes(1) fin] inv show ?thesis by (auto simp: conc_inv_def)
qed

lemma conc_step_inv:
  assumes "conc_step P \<sigma> \<sigma>'" and "exclusive \<sigma>" "exclusive \<sigma>'" and "conc_inv n k P \<sigma>"
  shows "conc_inv n k P \<sigma>'"
  using assms
proof (induction rule: conc_step.induct)
  case (begin_post buf t s ts hs)
  with start_upload_ok [OF begin_post(1)] show ?case by (simp add: conc_inv_def)
next
  case (begin_put s f row buf t ts hs)
  with start_upload_ok [OF begin_put(2)] show ?case by (simp add: conc_inv_def)
next
  case (fan_out t c cs s pl ts us hs)
  have "task_ok P k (app_co s) (app_world s) t"
    using fan_out.prems(3) by (simp add: conc_inv_def)
  then have "task_ok P k (app_co s) (app_world s) (t\<lparr>task_phase := Calling pl []\<rparr>)"
    using fan_out.hyps preferenceList_distinct [OF fan_out.hyps(3)] by (simp add: task_ok_def)
  with fan_out.prems(3) show ?case by (simp add: conc_inv_def)
next
  case (call t xs x ys as c cs env s a w ts us hs)
  then show ?case using conc_inv_call by blast
next
  case (settle t as c cs s ts us hs)
  then show ?case using conc_inv_settled by blast
next
  case (fail t as c cs s ts us hs)
  show ?case by (rule conc_inv_settle [OF fail.prems(3)]) auto
next
  case (finish t z1 z2 s res db ts us hs)
  then have "hs = []" by (simp add: exclusive_def)
  with finish conc_inv_finish show ?case by blast
next
  case (gc_begin s ts)
  have "\<forall>h \<in> set (listOrphanedChunks (app_db s)). manifest_refs (app_db s) h = 0 \<and> valid_hash h"
    using orphans_ready [OF conc_invD(2) [OF gc_begin.prems(3)]] names_ok_orphans
      conc_invD(3) [OF gc_begin.prems(3)] by blast
  with gc_begin.prems(3) show ?case by (simp add: conc_inv_def)
next
  case (gc_chunk envs s hint h q db w ts hs)
  have "ts = []" using gc_chunk.prems(1) by (simp add: exclusive_def)
  with conc_inv_chunk [OF _ gc_chunk.hyps] gc_chunk.prems(3) show ?case by simp
qed

lemma conc_run_inv:
  assumes "exclusive_run P \<sigma> \<sigma>'" and "exclusive \<sigma>" and "conc_inv n k P \<sigma>"
  shows "exclusive \<sigma>' \<and> conc_inv n k P \<sigma>'"
  using assms by (induction rule: rtranclp_induct) (auto intro: conc_step_inv)

section \<open>A request alone\<close>

text \<open>What the handlers do without interruption is one of the runs.\<close>

lemma lone_calls:
  assumes "put_all (node_serve (sha_of P)) env (nodesById (app_co s)) (chunk_sha c) (chunk_data c) xs
      (app_world s) = (as, w)" and "task_todo t = c # cs"
  shows "exclusive_run P (s, [t\<lparr>task_phase := Calling xs acc\<rparr>], [])
    (s\<lparr>app_world := w\<rparr>, [t\<lparr>task_phase := Calling [] (rev as @ acc)\<rparr>], [])"
  using assms(1)
proof (induction xs arbitrary: s as acc)
  case (Cons x xs)
  obtain a w1 where a: "putToNode (node_serve (sha_of P)) env (nodesById (app_co s) x) x (chunk_sha c)
      (chunk_data c) (app_world s) = (a, w1)" by fastforce
  obtain as2 where rest: "put_all (node_serve (sha_of P)) env (nodesById (app_co s)) (chunk_sha c)
      (chunk_data c) xs w1 = (as2, w)" "as = a # as2"
    using Cons.prems a by (auto split: prod.splits)
  have "conc_step P (s, [] @ t\<lparr>task_phase := Calling (x # xs) acc\<rparr> # [], [])
      (s\<lparr>app_world := w1\<rparr>,
       [] @ (t\<lparr>task_phase := Calling (x # xs) acc\<rparr>)\<lparr>task_phase := Calling ([] @ xs) (a # acc)\<rparr> # [], [])"
    by (rule conc_step.call [where x = x]) (use a assms(2) in simp_all)
  moreover have "exclusive_run P (s\<lparr>app_world := w1\<rparr>, [t\<lparr>task_phase := Calling xs (a # acc)\<rparr>], [])
      (s\<lparr>app_world := w1\<rparr>\<lparr>app_world := w\<rparr>, [t\<lparr>task_phase := Calling [] (rev as2 @ a # acc)\<rparr>], [])"
    by (rule Cons.IH) (use rest in simp)
  ultimately have "conc_step P (s, [t\<lparr>task_phase := Calling (x # xs) acc\<rparr>], [])
      (s\<lparr>app_world := w1\<rparr>, [t\<lparr>task_phase := Calling xs (a # acc)\<rparr>], [])"
    and run: "exclusive_run P (s\<lparr>app_world := w1\<rparr>, [t\<lparr>task_phase := Calling xs (a # acc)\<rparr>], [])
      (s\<lparr>app_world := w\<rparr>, [t\<lparr>task_phase := Calling [] (rev as @ acc)\<rparr>], [])"
    by (simp_all add: rest(2))
  then have "conc_step P (s, [t\<lparr>task_phase := Calling (x # xs) acc\<rparr>], [])
      (s\<lparr>app_world := w1\<rparr>, [t\<lparr>task_phase := Calling xs (a # acc)\<rparr>], [])
    \<and> exclusive (s\<lparr>app_world := w1\<rparr>, [t\<lparr>task_phase := Calling xs (a # acc)\<rparr>], [])"
    by (intro conjI exclusive_simps)
  then show ?case using run by (rule converse_rtranclp_into_rtranclp)
next
  case Nil
  then have "s\<lparr>app_world := w\<rparr> = s" "as = []" by auto
  then show ?case by simp
qed


lemma quorum_rev [simp]: "quorum_failed co (rev as) = quorum_failed co as"
  by (simp add: quorum_failed_def flip: rev_filter)

lemma settle_rev [simp]: "settle_counters co (rev as) buf w = settle_counters co as buf w"
  by (simp add: settle_counters_def list_ex_iff flip: rev_filter)

lemma lone_chunk:
  assumes put: "putChunk (node_serve (sha_of P)) (sha1_of P) env (app_co s) (chunk_sha c) (chunk_data c)
      (app_world s) = (r, w)" and t: "task_todo t = c # cs" "task_phase t = Ready"
    and pl: "preferenceList (sha1_of P) (co_ring (app_co s)) (chunk_sha c) (repl_n (app_co s)) = Some pl"
  shows "exclusive_run P (s, [t], []) (s\<lparr>app_world := w\<rparr>,
    if isl r then [] else [t\<lparr>task_todo := cs\<rparr>], [])"
proof -
  obtain as w1 where as: "put_all (node_serve (sha_of P)) env (nodesById (app_co s)) (chunk_sha c)
      (chunk_data c) pl (app_world s) = (as, w1)" by fastforce
  let ?s1 = "s\<lparr>app_world := w1\<rparr>" and ?t1 = "t\<lparr>task_phase := Calling [] (rev as @ [])\<rparr>"
  have w: "w = settle_counters (app_co s) as (chunk_data c) w1" and r: "isl r \<longleftrightarrow> quorum_failed (app_co s) as"
    using put by (auto simp: putChunk_def pl as settle_counters_def quorum_failed_def Let_def split: if_splits)
  have "conc_step P (s, [] @ t # [], []) (s, [] @ t\<lparr>task_phase := Calling pl []\<rparr> # [], [])"
    using t pl by (intro conc_step.fan_out) simp_all
  then have "exclusive_run P (s, [t], []) (s, [t\<lparr>task_phase := Calling pl []\<rparr>], [])"
    by (intro r_into_rtranclp) simp
  also have "exclusive_run P (s, [t\<lparr>task_phase := Calling pl []\<rparr>], []) (?s1, [?t1], [])"
    by (rule lone_calls [OF as t(1)])
  also have "exclusive_run P (?s1, [?t1], []) (s\<lparr>app_world := w\<rparr>, if isl r then [] else [t\<lparr>task_todo := cs\<rparr>], [])"
  proof (cases "isl r")
    case True
    have "conc_step P (?s1, [] @ ?t1 # [], [])
        (?s1\<lparr>app_world := settle_counters (app_co ?s1) (rev as @ []) (chunk_data c) (app_world ?s1)\<rparr>, [] @ [], [])"
      using t r True by (intro conc_step.fail) simp_all
    with True show ?thesis by (intro r_into_rtranclp) (simp add: w)
  next
    case False
    have "conc_step P (?s1, [] @ ?t1 # [], [])
        (?s1\<lparr>app_world := settle_counters (app_co ?s1) (rev as @ []) (chunk_data c) (app_world ?s1)\<rparr>,
         [] @ ?t1\<lparr>task_todo := cs, task_phase := Ready\<rparr> # [], [])"
      using t r False by (intro conc_step.settle) simp_all
    moreover have "?t1\<lparr>task_todo := cs, task_phase := Ready\<rparr> = t\<lparr>task_todo := cs\<rparr>"
      using t(2) by (cases t) simp
    ultimately show ?thesis using False by (intro r_into_rtranclp) (simp add: w)
  qed
  finally show ?thesis .
qed

lemma lone_chunks:
  assumes "upload_loop (node_serve (sha_of P)) (sha1_of P) envs (app_co s) i cs (app_world s) = (r, w)"
    and "task_todo t = cs" "task_phase t = Ready"
    and "\<And>h. preferenceList (sha1_of P) (co_ring (app_co s)) h (repl_n (app_co s)) \<noteq> None"
  shows "exclusive_run P (s, [t], []) (s\<lparr>app_world := w\<rparr>, if isl r then [] else [t\<lparr>task_todo := []\<rparr>], [])"
  using assms
proof (induction cs arbitrary: i s r t)
  case Nil
  then have "s\<lparr>app_world := w\<rparr> = s" "t\<lparr>task_todo := []\<rparr> = t" "\<not> isl r" by auto
  then show ?case by simp
next
  case (Cons c cs)
  obtain r1 w1 where put: "putChunk (node_serve (sha_of P)) (sha1_of P) (envs i) (app_co s) (chunk_sha c)
      (chunk_data c) (app_world s) = (r1, w1)" by fastforce
  obtain pl where "preferenceList (sha1_of P) (co_ring (app_co s)) (chunk_sha c) (repl_n (app_co s)) = Some pl"
    using Cons.prems(4) by blast
  note one = lone_chunk [OF put Cons.prems(2,3) this]
  show ?case
  proof (cases "isl r1")
    case True
    with Cons.prems(1) put one show ?thesis by (cases r1) auto
  next
    case False
    let ?s1 = "s\<lparr>app_world := w1\<rparr>" and ?t1 = "t\<lparr>task_todo := cs\<rparr>"
    obtain r2 where rest: "upload_loop (node_serve (sha_of P)) (sha1_of P) envs (app_co ?s1) (i + 1) cs
        (app_world ?s1) = (r2, w)" and r: "isl r \<longleftrightarrow> isl r2"
      using Cons.prems(1) put False by (cases r1) (auto split: prod.splits sum.splits)
    have "exclusive_run P (?s1, [?t1], []) (?s1\<lparr>app_world := w\<rparr>, if isl r2 then [] else [?t1\<lparr>task_todo := []\<rparr>], [])"
      by (rule Cons.IH [OF rest]) (use Cons.prems(3,4) in simp_all)
    then have "exclusive_run P (?s1, [?t1], []) (s\<lparr>app_world := w\<rparr>, if isl r then [] else [t\<lparr>task_todo := []\<rparr>], [])"
      by (simp add: r split: if_splits)
    with one False show ?thesis by (simp only: if_False)
  qed
qed

lemma lone_upload:
  assumes up: "uploadChunks (node_serve (sha_of P)) P envs (app_co s) buf (app_world s) = (q, w)"
    and pl: "\<And>h. preferenceList (sha1_of P) (co_ring (app_co s)) h (repl_n (app_co s)) \<noteq> None"
  obtains t where "start_upload (sha_of P) tgt buf = Some t"
    "exclusive_run P (s, [t], []) (s\<lparr>app_world := w\<rparr>, if isl q then [] else [t\<lparr>task_todo := []\<rparr>], [])"
    "task_phase t = Ready" "task_target t = tgt"
    "\<forall>hashes results m. q = Inr (hashes, results, m) \<longrightarrow> task_hashes t = hashes \<and> task_size t = m"
proof -
  let ?cs = "numbered (sha_of P) 0 (blocks DEFAULT_CHUNK_SIZE buf)"
  let ?t = "\<lparr>task_target = tgt, task_hashes = map chunk_sha ?cs, task_size = length buf,
      task_todo = ?cs, task_phase = Ready\<rparr>"
  obtain r w1 where loop: "upload_loop (node_serve (sha_of P)) (sha1_of P) envs (app_co s) 0 ?cs (app_world s)
      = (r, w1)" by fastforce
  have q: "w = w1" "isl q \<longleftrightarrow> isl r"
    "\<And>hashes results m. q = Inr (hashes, results, m) \<Longrightarrow> hashes = map chunk_sha ?cs \<and> m = length buf"
    using up loop by (auto simp: uploadChunks_def chunkBuffer_blocks split: sum.splits)
  show thesis
  proof (rule that [of ?t])
    show "exclusive_run P (s, [?t], []) (s\<lparr>app_world := w\<rparr>, if isl q then [] else [?t\<lparr>task_todo := []\<rparr>], [])"
      unfolding q(1,2) by (rule lone_chunks [OF loop]) (use pl in simp_all)
  qed (use q(3) in \<open>simp_all add: start_upload_def chunkBuffer_blocks\<close>)
qed

section \<open>Properties\<close>

text \<open>The last step of an upload, and the whole of it.\<close>

lemma finish_upload_todo [simp]: "finish_upload z1 z2 (t\<lparr>task_todo := cs\<rparr>) db = finish_upload z1 z2 t db"
proof -
  have "task_target (t\<lparr>task_todo := cs\<rparr>) = task_target t" "task_hashes (t\<lparr>task_todo := cs\<rparr>) = task_hashes t"
    "task_size (t\<lparr>task_todo := cs\<rparr>) = task_size t" by simp_all
  then show ?thesis unfolding finish_upload_def by metis
qed

lemma lone_finish:
  assumes "start_upload (sha_of P) tgt buf = Some t"
    and "tgt = NewFile \<or> (\<exists>f row. tgt = ExistingFile f (current_version_id row) \<and> getFile (app_db s) f = Some row)"
    and "exclusive_run P (s, [t], []) (s1, if isl q then [] else [t\<lparr>task_todo := []\<rparr>], [])"
    and "task_phase t = Ready"
    and fin: "if isl q then s' = s1
      else \<exists>z1 z2 res db. finish_upload z1 z2 t (app_db s1) = (res, db) \<and> s' = s1\<lparr>app_db := db\<rparr>"
  shows "exclusive_run P (s, [], []) (s', [], [])"
proof -
  have "conc_step P (s, [], []) (s, [t], [])"
    using assms(1,2) conc_step.begin_post conc_step.begin_put by blast
  then have "exclusive_run P (s, [], []) (s, [t], [])" by (intro r_into_rtranclp conjI exclusive_simps)
  from rtranclp_trans [OF this assms(3)]
  have run: "exclusive_run P (s, [], []) (s1, if isl q then [] else [t\<lparr>task_todo := []\<rparr>], [])" .
  show ?thesis
  proof (cases "isl q")
    case True
    with run fin show ?thesis by simp
  next
    case False
    with fin obtain z1 z2 res db where "finish_upload z1 z2 t (app_db s1) = (res, db)"
      and s': "s' = s1\<lparr>app_db := db\<rparr>" by auto
    then have "finish_upload z1 z2 (t\<lparr>task_todo := []\<rparr>) (app_db s1) = (res, db)" by simp
    with assms(4) have "conc_step P (s1, [] @ t\<lparr>task_todo := []\<rparr> # [], []) (s1\<lparr>app_db := db\<rparr>, [] @ [], [])"
      by (intro conc_step.finish) simp_all
    then have "conc_step P (s1, [t\<lparr>task_todo := []\<rparr>], []) (s', [], []) \<and> exclusive (s', [], [])"
      by (simp add: s')
    with run False show ?thesis by (simp only: if_False) (rule rtranclp.rtrancl_into_rtrancl)
  qed
qed

lemma lone_post:
  assumes pl: "\<And>h. preferenceList (sha1_of P) (co_ring (app_co s)) h (repl_n (app_co s)) \<noteq> None"
    and run: "post_file (node_serve (sha_of P)) P e body s = (r, s')"
  shows "exclusive_run P (s, [], []) (s', [], [])"
proof (cases body)
  case (Buffer buf)
  obtain q w where up: "uploadChunks (node_serve (sha_of P)) P (chunk_env e) (app_co s) buf (app_world s)
      = (q, w)" by fastforce
  from up pl obtain t where t: "start_upload (sha_of P) NewFile buf = Some t"
    "exclusive_run P (s, [t], []) (s\<lparr>app_world := w\<rparr>, if isl q then [] else [t\<lparr>task_todo := []\<rparr>], [])"
    "task_phase t = Ready" "task_target t = NewFile"
    "\<forall>hashes results m. q = Inr (hashes, results, m) \<longrightarrow> task_hashes t = hashes \<and> task_size t = m"
    by (rule lone_upload [where tgt = NewFile])
  show ?thesis
  proof (rule lone_finish [OF t(1) _ t(2,3)])
    show "if isl q then s' = s\<lparr>app_world := w\<rparr> else \<exists>z1 z2 res db.
      finish_upload z1 z2 t (app_db (s\<lparr>app_world := w\<rparr>)) = (res, db) \<and> s' = s\<lparr>app_world := w\<rparr>\<lparr>app_db := db\<rparr>"
    proof (cases q)
      case (Inl err)
      with run up Buffer show ?thesis by (simp add: post_file_def)
    next
      case (Inr res)
      obtain hashes results m where res: "res = (hashes, results, m)" by (cases res)
      obtain fr db where fin: "finish_upload (file_random e, file_now e) (version_random e, version_now e) t (app_db s)
          = (fr, db)" by fastforce
      have "s' = s\<lparr>app_world := w, app_db := db\<rparr>"
        using run up Buffer Inr t(4,5) fin
        by (auto simp: post_file_def finish_upload_def res split: prod.splits sum.splits)
      with Inr fin show ?thesis by (auto simp del: split_paired_Ex)
    qed
  qed simp
qed (use run in \<open>auto simp: post_file_def\<close>)

lemma lone_put:
  assumes pl: "\<And>h. preferenceList (sha1_of P) (co_ring (app_co s)) h (repl_n (app_co s)) \<noteq> None"
    and run: "put_file (node_serve (sha_of P)) P e f body s = (r, s')"
  shows "exclusive_run P (s, [], []) (s', [], [])"
proof (cases "getFile (app_db s) f")
  case None
  with run show ?thesis by (auto simp: put_file_def)
next
  case (Some row)
  note row = Some
  show ?thesis
  proof (cases body)
    case (Buffer buf)
    let ?tgt = "ExistingFile f (current_version_id row)"
    obtain q w where up: "uploadChunks (node_serve (sha_of P)) P (chunk_env e) (app_co s) buf (app_world s)
        = (q, w)" by fastforce
    from up pl obtain t where t: "start_upload (sha_of P) ?tgt buf = Some t"
      "exclusive_run P (s, [t], []) (s\<lparr>app_world := w\<rparr>, if isl q then [] else [t\<lparr>task_todo := []\<rparr>], [])"
      "task_phase t = Ready" "task_target t = ?tgt"
      "\<forall>hashes results m. q = Inr (hashes, results, m) \<longrightarrow> task_hashes t = hashes \<and> task_size t = m"
      by (rule lone_upload [where tgt = ?tgt])
    show ?thesis
    proof (rule lone_finish [OF t(1) _ t(2,3)])
      show "if isl q then s' = s\<lparr>app_world := w\<rparr> else \<exists>z1 z2 res db.
        finish_upload z1 z2 t (app_db (s\<lparr>app_world := w\<rparr>)) = (res, db) \<and> s' = s\<lparr>app_world := w\<rparr>\<lparr>app_db := db\<rparr>"
      proof (cases q)
        case (Inl err)
        with run up Buffer row show ?thesis by (simp add: put_file_def)
      next
        case (Inr res)
        obtain hashes results m where res: "res = (hashes, results, m)" by (cases res)
        obtain fr db where fin: "finish_upload (file_random e, file_now e) (version_random e, version_now e) t
            (app_db s) = (fr, db)" by fastforce
        have "s' = s\<lparr>app_world := w, app_db := db\<rparr>"
          using run up Buffer Inr t(4,5) fin row
          by (auto simp: put_file_def finish_upload_def res replace_version_def Let_def
              split: prod.splits sum.splits)
        with Inr fin show ?thesis by (auto simp del: split_paired_Ex)
      qed
    qed (use row in simp)
  qed (use run row in \<open>auto simp: put_file_def\<close>)
qed

section \<open>Properties\<close>



text \<open>
  C8: overlapping uploads do not disturb one another. From a state the server can be in, with any
  number of uploads and updates under way at once, their calls to the nodes interleaved in any
  order and with any outcome, and sweeps at times when no upload is under way: the tables stay
  consistent, every chunk of every version has W copies on the nodes of its preference list,
  and every copy is good.
\<close>

theorem concurrent_uploads_safe:
  assumes "server_inv n k P s" and "exclusive_run P (s, [], []) (s', ts, hs)"
  shows "metadata_wf (app_db s')
    \<and> (\<forall>v ver h. getVersion (app_db s') v = Some ver \<longrightarrow> h \<in> set (chunkHashes ver) \<longrightarrow>
         k \<le> card (holders (sha1_of P) (app_co s') (app_world s') h))
    \<and> (\<forall>x h b. replica (app_co s') (app_world s') x h = Some b \<longrightarrow> sha256_hex (sha_of P) b = h)"
proof -
  have inv: "conc_inv n k P (s', ts, hs)"
    using conc_run_inv [OF assms(2) _ conc_inv_start [OF assms(1)]] by simp
  have "manifest_refs (app_db s') h \<noteq> 0"
    if "getVersion (app_db s') v = Some ver" "h \<in> set (chunkHashes ver)" for v ver h
    using manifest_refs_zero [OF conc_invD(2) [OF inv], of h] that by blast
  then show ?thesis
    using conc_invD(2,6) [OF inv] replica_sound [OF conc_invD(5) [OF inv]] by blast
qed

theorem concurrent_uploads_safe_witness:
  "\<exists>t. start_upload demo_sha NewFile [9] = Some t
    \<and> conc_step demo_platform (demo_app, [t], []) (demo_app, [t, t], [])
    \<and> metadata_wf (app_db demo_app)"
proof -
  obtain t where t: "start_upload (sha_of demo_platform) NewFile [9] = Some t"
    by (simp add: start_upload_def chunkBuffer_blocks)
  note one = conc_step.begin_post [OF t, where s = demo_app and hs = "[]"]
  have "exclusive_run demo_platform (demo_app, [], []) (demo_app, [t], [])"
    using one [of "[]"] by (intro r_into_rtranclp) simp
  moreover have "exclusive_run demo_platform (demo_app, [t], []) (demo_app, [t, t], [])"
    using one [of "[t]"] by (intro r_into_rtranclp) simp
  ultimately have "exclusive_run demo_platform (demo_app, [], []) (demo_app, [t, t], [])"
    by (rule rtranclp_trans)
  from concurrent_uploads_safe [OF demo_app_inv this] t one [of "[t]"] show ?thesis
    by (simp add: demo_platform_def)
qed

text \<open>
  C37: an upload during a sweep can lose its data. If a chunk is orphaned when the collector makes
  its list, and an upload that contains it is completed before the collector comes to it, then
  the collector deletes the copies the upload counted on, and the count too: the client was
  told 201, the new version has the chunk in its manifest, no node of its preference list
  holds it, and the table of counts says that nothing refers to it. (The upload saved no bytes,
  because the chunk was still there; the collector does not look again at the count.)
\<close>

theorem gc_upload_race:
  assumes inv: "server_inv n k P s" and "h \<in> set (listOrphanedChunks (app_db s))"
    and up: "route (node_serve (sha_of P)) P e (PostFile (Buffer buf)) s = (r, s1)" "status r = 201"
    and h: "h \<in> set (map (hashChunk (sha_of P)) (blocks DEFAULT_CHUNK_SIZE buf))"
    and loop: "gc_loop (\<lambda>h. deleteChunk (node_serve (sha_of P)) (sha1_of P) (envs h) (app_co s1) h)
      reapOrphanedChunk hint [h] 0 0 (app_db s1) (app_world s1) = (q, db, w)"
    and "\<forall>x. fate_of (envs h) x = Deliver"
  shows "\<exists>f v m ver. r = reply 201 (Created f v m (length buf))
    \<and> getVersion db v = Some ver \<and> h \<in> set (chunkHashes ver)
    \<and> holders (sha1_of P) (app_co s1) w h = {} \<and> getRefcount db h = 0"
proof -
  have run: "post_file (node_serve (sha_of P)) P e (Buffer buf) s = (r, s1)" using up(1) by simp
  have inv1: "server_inv n k P s1" by (rule post_file_inv [OF inv run])
  obtain f v where v: "r = reply 201 (Created f v (length (blocks DEFAULT_CHUNK_SIZE buf)) (length buf))"
    "stored_version s1 f v (map (hashChunk (sha_of P)) (blocks DEFAULT_CHUNK_SIZE buf))"
    by (rule post_created [OF inv run up(2)]) auto
  then obtain ver where ver: "getVersion (app_db s1) v = Some ver" "h \<in> set (chunkHashes ver)"
    using h by (auto simp: stored_version_def)
  obtain pl where pl: "preferenceList (sha1_of P) (co_ring (app_co s1)) h (repl_n (app_co s1)) = Some pl"
    using server_invD(1) [OF inv1] by (simp add: config_ok_def preferenceList_Some)
  obtain q1 w1 where del: "deleteChunk (node_serve (sha_of P)) (sha1_of P) (envs h) (app_co s1) h
      (app_world s1) = (q1, w1)" by fastforce
  note res = deleteChunk_result [OF server_invD(3) [OF inv1] hashChunk_valid [OF h] del]
  then obtain d where q1: "q1 = Inr d" using pl by simp
  with loop del have fin: "db = reapOrphanedChunk h (app_db s1)" "w = w1"
    by (auto split: if_splits)
  have "holders (sha1_of P) (app_co s1) w h = {}"
    using res assms(7) by (simp add: holders_def pl fin)
  moreover have "getRefcount db h = 0"
    by (simp add: fin getRefcount_count_of reapOrphanedChunk_def count_of_reap)
  ultimately show ?thesis
    using v(1) ver
    by (intro exI [of _ f] exI [of _ v] exI [of _ "length (blocks DEFAULT_CHUNK_SIZE buf)"] exI [of _ ver])
      (simp add: fin frame_simps)
qed

text \<open>A server whose only chunk so far is orphaned.\<close>

definition demo_orphan_app :: "storage_node app" where
  "demo_orphan_app = demo_app\<lparr>app_db := empty_db\<lparr>chunk_refcounts :=
     [\<lparr>refcount_hash = sha256_hex demo_sha [9], refcount = 0\<rparr>]\<rparr>\<rparr>"

lemma demo_orphan_inv: "server_inv 3 2 demo_platform demo_orphan_app"
  unfolding demo_orphan_app_def
proof (rule server_inv_update [OF demo_app_inv])
  let ?db = "empty_db\<lparr>chunk_refcounts := [\<lparr>refcount_hash = sha256_hex demo_sha [9], refcount = 0\<rparr>]\<rparr>"
  have "metadata_wf ?db"
    by (simp add: metadata_wf_def empty_db_def getRefcount_def manifest_refs_def)
  moreover have "tight ?db" by (simp add: tight_def empty_db_def getFile_def getVersion_def)
  ultimately show "db_inv (app_db (demo_app\<lparr>app_db := ?db\<rparr>))"
    by (simp add: db_inv_def names_ok_def)
  show "manifest_refs (app_db demo_app) h \<noteq> 0
      \<or> 2 \<le> card (holders (sha1_of demo_platform) (app_co demo_app) (app_world (demo_app\<lparr>app_db := ?db\<rparr>)) h)"
    if "manifest_refs (app_db (demo_app\<lparr>app_db := ?db\<rparr>)) h \<noteq> 0" for h
    using that by (simp add: manifest_refs_def empty_db_def)
qed (use server_invD(3,4) [OF demo_app_inv] in \<open>simp_all add: demo_app_def\<close>)

lemma demo_orphan_upload:
  "\<exists>r s1. route (node_serve demo_sha) demo_platform (demo_request {''b''} [1])
     (PostFile (Buffer [9])) demo_orphan_app = (r, s1) \<and> status r = 201"
proof (rule demo_upload_chunks)
  fix rep w1
  assume "uploadChunks (node_serve demo_sha) demo_platform (\<lambda>_. demo_env {''b''}) demo
      [9] demo_world = (Inr ([sha256_hex demo_sha [9]], [rep], 1), w1)"
  then show ?thesis
    by (simp add: post_file_def demo_request_def demo_orphan_app_def demo_app_def createFile_def
        empty_db_def Let_def commitVersion_def commit_chunks.simps)
qed

theorem gc_upload_race_witness:
  "\<exists>(s1 :: storage_node app) q db w v ver. gc_loop (\<lambda>h. deleteChunk (node_serve demo_sha) (\<lambda>_. 0) (demo_env {}) (app_co s1) h)
      reapOrphanedChunk None [sha256_hex demo_sha [9]] 0 0 (app_db s1) (app_world s1) = (q, db, w)
    \<and> getVersion db v = Some ver \<and> sha256_hex demo_sha [9] \<in> set (chunkHashes ver)
    \<and> holders (\<lambda>_. 0) (app_co s1) w (sha256_hex demo_sha [9]) = {}"
proof -
  let ?h = "sha256_hex demo_sha [9]"
  obtain r s1 where run: "route (node_serve demo_sha) demo_platform (demo_request {''b''} [1])
     (PostFile (Buffer [9])) demo_orphan_app = (r, s1)" "status r = 201"
    using demo_orphan_upload by blast
  then have run': "route (node_serve (sha_of demo_platform)) demo_platform (demo_request {''b''} [1])
     (PostFile (Buffer [9])) demo_orphan_app = (r, s1)"
    by (simp add: demo_platform_def)
  obtain q db w where loop: "gc_loop (\<lambda>h. deleteChunk (node_serve demo_sha) (\<lambda>_. 0) (demo_env {}) (app_co s1) h)
      reapOrphanedChunk None [?h] 0 0 (app_db s1) (app_world s1) = (q, db, w)"
    by (cases rule: prod_cases3)
  have "?h \<in> set (listOrphanedChunks (app_db demo_orphan_app))"
    by (simp add: listOrphanedChunks_def demo_orphan_app_def)
  moreover have "?h \<in> set (map (hashChunk (sha_of demo_platform)) (blocks DEFAULT_CHUNK_SIZE [9]))"
    by (simp add: demo_chunks hashChunk_def demo_platform_def)
  moreover have "gc_loop (\<lambda>h. deleteChunk (node_serve (sha_of demo_platform)) (sha1_of demo_platform)
      ((\<lambda>_. demo_env {}) h) (app_co s1) h) reapOrphanedChunk None [?h] 0 0 (app_db s1) (app_world s1) = (q, db, w)"
    using loop by (simp add: demo_platform_def)
  moreover have "\<forall>x. fate_of ((\<lambda>_. demo_env {}) ?h) x = Deliver" by (simp add: demo_env_def)
  ultimately have "\<exists>f v m ver. r = reply 201 (Created f v m (length [9 :: 8 word]))
    \<and> getVersion db v = Some ver \<and> ?h \<in> set (chunkHashes ver)
    \<and> holders (sha1_of demo_platform) (app_co s1) w ?h = {} \<and> getRefcount db ?h = 0"
    by (rule gc_upload_race [OF demo_orphan_inv _ run' run(2)])
  with loop show ?thesis unfolding demo_platform_def platform.simps by blast
qed

text \<open>A commit that replaces another version than the current one, \<open>v1\<close>, leaves it to nobody.\<close>

lemma late_commit:
  assumes inv: "db_inv db1" and row: "getFile db1 f = Some row1"
    and ver1: "getVersion db1 v1 = Some ver1" "version_file_id ver1 = f"
    and c2: "commitVersion random now f hs len db1 = (Inr v2, db2')" and hs: "\<forall>h \<in> set hs. valid_hash h"
    and db2: "db2 = replace_version p db2'" and old: "p \<noteq> Some v1"
  shows "getVersion db2 v1 = Some ver1" and "metadata_wf db2"
    and "getFile db2 g = Some r \<Longrightarrow> current_version_id r \<noteq> Some v1"
proof -
  have wf1: "metadata_wf db1" "tight db1" "names_ok db1" using inv by (simp_all add: db_inv_def)
  note c = commit_ok [OF wf1(1) c2] and reads = commit_reads [OF wf1(1) c2]
  have new: "v2 \<noteq> v1" using c(2) getVersion_in [OF ver1(1)] by auto
  have ver2: "getVersion db2' v1 = getVersion db1 v1" using reads(1) [of v1] new by simp
  have file2: "getFile db2' g = (if g = f then Some (row1\<lparr>current_version_id := Some v2\<rparr>) else getFile db1 g)" for g
    using reads(2) [of g] row by simp
  have db2_cases: "db2 = db2' \<or> (\<exists>q. p = Some q \<and> db2 = deleteVersion q db2')"
    by (auto simp: db2 replace_version_def split: option.splits)
  show "getVersion db2 v1 = Some ver1"
    using db2_cases old ver2 ver1(1) by (auto simp: getVersion_delete split: if_splits)
  have files: "getFile db2 g = getFile db2' g" for g using db2_cases by (auto simp: frame_simps)
  show "current_version_id r \<noteq> Some v1" if g: "getFile db2 g = Some r"
  proof
    assume cur: "current_version_id r = Some v1"
    with g have "g \<noteq> f" "getFile db1 g = Some r" using new by (auto simp: files file2 split: if_splits)
    with cur wf1(2) obtain ver where "getVersion db1 v1 = Some ver" "version_file_id ver = g"
      unfolding tight_def by blast
    with ver1 \<open>g \<noteq> f\<close> show False by simp
  qed
  show "metadata_wf db2"
    using commit_frame [OF wf1(1,3) hs c2] replace_version_frame(1) [of db2' p] by (auto simp: db2)
qed



end
