(* ===== verification/Downloads.thy ===== *)
theory Downloads
  imports Concurrency
begin

text \<open>
  A download while other requests and the collector run. The handler of
  \<^verbatim>\<open>GET /files/:fileId/download\<close> takes the manifest at once and then reads all chunks in parallel, one
  node after the other for each chunk, giving way at every call. The steps of this theory are these
  calls and the steps of the rest of the system (\<open>conc_step\<close>) between them.
\<close>

section \<open>The code\<close>

text \<open>One \<^verbatim>\<open>getChunk\<close>: before the next node of its preference list, or settled.\<close>

datatype chunk_read =
    Asking nat nat "string list" string
  | Settled "js_error + bytes option"

record download_task =
  dl_hashes :: "string list"
  dl_reads :: "chunk_read list"

definition start_read :: "sha1 \<Rightarrow> coordinator \<Rightarrow> string \<Rightarrow> chunk_read" where
  "start_read sha1 co h =
     (case preferenceList sha1 (co_ring co) h (repl_n co) of
        None \<Rightarrow> Settled (Inl Diverges)
      | Some pl \<Rightarrow> Asking (length pl) 0 pl ''no_replicas_configured'')"

text \<open>The handler up to \<^verbatim>\<open>Promise.all\<close>: an answer at once, or the reads under way.\<close>

definition start_download :: "platform \<Rightarrow> string \<Rightarrow> 'n app \<Rightarrow> app_payload response + download_task" where
  "start_download P f s =
     (case Option.bind (getFile (app_db s) f) current_version_id of
        None \<Rightarrow> Inl (reply 404 (ErrorMessage ''file not found''))
      | Some v \<Rightarrow>
          if v = [] then Inl (reply 404 (ErrorMessage ''file not found''))
          else (case getVersion (app_db s) v of
             None \<Rightarrow> Inl (reply 500 (Thrown TypeError))
           | Some version \<Rightarrow>
               Inr \<lparr>dl_hashes = chunkHashes version,
                    dl_reads = map (start_read (sha1_of P) (app_co s)) (chunkHashes version)\<rparr>))"

text \<open>One iteration of the loop of \<^verbatim>\<open>getChunk\<close>, or its end.\<close>

fun read_step ::
  "'n server \<Rightarrow> sha256 \<Rightarrow> call_env \<Rightarrow> (string \<Rightarrow> string option) \<Rightarrow> string \<Rightarrow> chunk_read \<Rightarrow> 'n world
     \<Rightarrow> chunk_read \<times> 'n world" where
  "read_step serve sha env urls h (Asking tries i [] lastReason) w =
     (Settled (if lastReason = ''not_found'' then Inr None else Inl (ChunkUnavailableError h tries)), w)"
| "read_step serve sha env urls h (Asking tries i (x # xs) lastReason) w =
     (let (got, w1) = getFromNode serve env (urls x) x h w;
          res = (case got of None \<Rightarrow> NotOk ''network_error'' | Some r \<Rightarrow> r)
      in case res of
        GotBytes buf \<Rightarrow>
          if sha256_hex sha buf = h then
            (Settled (Inr (Some buf)),
             if 0 < i then bump (inc_quorumReadFailovers ''failover_success'') w1 else w1)
          else
            (Asking tries (i + 1) xs ''integrity_mismatch'',
             bump (inc_quorumReadFailovers ''integrity_mismatch'') (bump inc_chunkIntegrityFailures w1))
      | NotOk reason \<Rightarrow>
          (Asking tries (i + 1) xs reason,
           if 0 < i \<or> reason \<noteq> ''not_found'' then bump (inc_quorumReadFailovers reason) w1 else w1))"
| "read_step serve sha env urls h (Settled r) w = (Settled r, w)"

fun settled :: "chunk_read \<Rightarrow> bool" where
  "settled (Settled r) = True"
| "settled (Asking tries i xs reason) = False"

fun outcome_of :: "chunk_read \<Rightarrow> js_error + bytes option" where
  "outcome_of (Settled r) = r"
| "outcome_of (Asking tries i xs reason) = Inl Diverges"

text \<open>The rest of the handler, when every read has settled.\<close>

definition download_answer :: "download_task \<Rightarrow> app_payload response option" where
  "download_answer t =
     (if list_all settled (dl_reads t) then Some (assemble (dl_hashes t) (map outcome_of (dl_reads t)))
      else None)"

text \<open>
  A call of the download to one node, which is good unless the node is in \<open>bad\<close>; a step of the rest of the
  system; any request that changes no data, such as another download.
\<close>

inductive download_step ::
  "platform \<Rightarrow> string set \<Rightarrow> storage_node system \<times> download_task \<Rightarrow> storage_node system \<times> download_task \<Rightarrow> bool"
  for P bad where
  ask: "dl_reads t = as @ q # bs \<Longrightarrow> dl_hashes t = gs @ h # hs \<Longrightarrow> length gs = length as
    \<Longrightarrow> \<forall>x. x \<notin> bad \<longrightarrow> fate_of env x = Deliver
    \<Longrightarrow> read_step (node_serve (sha_of P)) (sha_of P) env (nodesById (app_co s)) h q (app_world s) = (q', w)
    \<Longrightarrow> download_step P bad ((s, ts, os), t) ((s\<lparr>app_world := w\<rparr>, ts, os), t\<lparr>dl_reads := as @ q' # bs\<rparr>)"
| system: "conc_step P \<sigma> \<sigma>' \<Longrightarrow> download_step P bad (\<sigma>, t) (\<sigma>', t)"
| others: "same_data s s' \<Longrightarrow> download_step P bad ((s, ts, os), t) ((s', ts, os), t)"

text \<open>A stretch of the system without a sweep under way.\<close>

abbreviation unswept_run ::
  "platform \<Rightarrow> string set \<Rightarrow> storage_node system \<times> download_task \<Rightarrow> storage_node system \<times> download_task \<Rightarrow> bool"
  where
  "unswept_run P bad \<equiv> rtranclp (\<lambda>a b. download_step P bad a b \<and> snd (snd (fst b)) = [])"

section \<open>A read alone\<close>

text \<open>Iterated on one world, the steps of a read are the loop of \<^verbatim>\<open>getChunk\<close>.\<close>

fun read_steps ::
  "nat \<Rightarrow> 'n server \<Rightarrow> sha256 \<Rightarrow> call_env \<Rightarrow> (string \<Rightarrow> string option) \<Rightarrow> string \<Rightarrow> chunk_read \<times> 'n world
     \<Rightarrow> chunk_read \<times> 'n world" where
  "read_steps 0 serve sha env urls h qw = qw"
| "read_steps (Suc n) serve sha env urls h qw =
     read_steps n serve sha env urls h (read_step serve sha env urls h (fst qw) (snd qw))"

lemma read_steps_settled: "read_steps n serve sha env urls h (Settled r, w) = (Settled r, w)"
  by (induction n) simp_all

lemma read_steps_loop:
  "read_steps (Suc (length xs)) serve sha env urls h (Asking tries i xs reason, w)
     = (let (r, w') = get_loop serve sha env urls h tries i xs reason w in (Settled r, w'))"
proof (induction xs arbitrary: i reason w)
  case (Cons x xs)
  obtain got w1 where g: "getFromNode serve env (urls x) x h w = (got, w1)" by fastforce
  show ?case
    using Cons.IH
    by (simp add: g Let_def read_steps_settled split: option.split get_result.split)
qed simp

text \<open>The work that is left.\<close>

fun calls_left :: "chunk_read \<Rightarrow> nat" where
  "calls_left (Settled r) = 0"
| "calls_left (Asking tries i xs reason) = Suc (length xs)"

definition work_left :: "download_task \<Rightarrow> nat" where
  "work_left t = sum_list (map calls_left (dl_reads t))"

lemma read_step_left:
  "read_step serve sha env urls h q w = (q', w')
     \<Longrightarrow> calls_left q' \<le> calls_left q \<and> (\<not> settled q \<longrightarrow> calls_left q' < calls_left q)"
  by (cases "(serve, sha, env, urls, h, q, w)" rule: read_step.cases)
    (auto simp: Let_def split: prod.splits option.splits get_result.splits if_splits)

section \<open>The invariant of a download\<close>

definition read_good ::
  "platform \<Rightarrow> string set \<Rightarrow> coordinator \<Rightarrow> storage_node world \<Rightarrow> string \<Rightarrow> chunk_read \<Rightarrow> bool" where
  "read_good P bad co w h q \<longleftrightarrow>
     (case q of
        Settled r \<Rightarrow> \<exists>b. r = Inr (Some b) \<and> sha256_hex (sha_of P) b = h
      | Asking tries i xs reason \<Rightarrow> \<exists>x \<in> set xs. x \<notin> bad \<and> replica co w x h \<noteq> None)"

lemma read_good_keeps: "keeps co w w' \<Longrightarrow> read_good P bad co w h q \<Longrightarrow> read_good P bad co w' h q"
  by (fastforce simp: read_good_def keeps_def split: chunk_read.splits)

text \<open>A call keeps a good replica ahead, or settles with good bytes.\<close>

lemma read_step_good:
  assumes ok: "cluster_ok w" and sound: "cluster_sound (sha_of P) w" and h: "valid_hash h"
    and env: "\<forall>x. x \<notin> bad \<longrightarrow> fate_of env x = Deliver"
    and good: "read_good P bad co w h q"
    and step: "read_step (node_serve (sha_of P)) (sha_of P) env (nodesById co) h q w = (q', w')"
  shows "read_good P bad co w h q' \<and> servers w' = servers w"
proof (cases q)
  case (Settled r)
  with good step show ?thesis by auto
next
  case (Asking tries i xs reason)
  with good obtain x where x: "x \<in> set xs" "x \<notin> bad" "replica co w x h \<noteq> None"
    by (auto simp: read_good_def)
  then obtain y ys where xs: "xs = y # ys" by (cases xs) auto
  obtain got w1 where g: "getFromNode (node_serve (sha_of P)) env (nodesById co y) y h w = (got, w1)"
    by fastforce
  have w1: "w1 = w" using node.get_node_step(1) [OF ok h, of "sha_of P" env "nodesById co y" y] g by simp
  show ?thesis
  proof (cases "y = x")
    case True
    from x(3) obtain u n b where at: "nodesById co x = Some u" "servers w u = Some n" "node_copy n h = Some b"
      by (auto simp: held_def bind_eq_Some_conv split: option.splits)
    have b: "sha256_hex (sha_of P) b = h" using sound at(2,3) by (simp add: cluster_sound_def)
    have "got = Some (GotBytes b)"
      using node.get_node_step(2) [OF ok h _ at(1,2,3) b, of env x] env x(2) g True at(1) by simp
    with step Asking xs g w1 b show ?thesis by (auto simp: read_good_def Let_def split: if_splits)
  next
    case False
    with x xs have "x \<in> set ys" by simp
    with x(2,3) have ahead: "\<exists>z \<in> set ys. z \<notin> bad \<and> replica co w z h \<noteq> None" by blast
    have "((\<exists>reason'. q' = Asking tries (i + 1) ys reason')
        \<or> (\<exists>b. q' = Settled (Inr (Some b)) \<and> sha256_hex (sha_of P) b = h)) \<and> servers w' = servers w"
      using step Asking xs g w1
      by (auto simp: Let_def split: option.splits get_result.splits if_splits)
    then show ?thesis
      by (elim conjE disjE exE) (simp_all only: read_good_def chunk_read.case ahead, blast)
  qed
qed

lemma start_read_good:
  assumes "k \<le> card (holders (sha1_of P) co w h)" and "finite bad" and "card bad < k"
  shows "read_good P bad co w h (start_read (sha1_of P) co h)"
proof -
  let ?H = "holders (sha1_of P) co w h"
  have "\<not> ?H \<subseteq> bad" using card_mono [OF assms(2), of ?H] assms(1,3) by linarith
  then show ?thesis by (auto simp: holders_def read_good_def start_read_def split: option.splits)
qed

text \<open>Without a sweep, a step of the system only adds copies.\<close>

lemma conc_step_keeps:
  assumes "conc_step P (s, ts, []) (s', ts', [])" and inv: "conc_inv n k P (s, ts, [])"
  shows "app_co s' = app_co s \<and> keeps (app_co s) (app_world s) (app_world s')"
  using assms(1)
proof (cases rule: conc_step.cases)
  case (call t xs x ys as c cs env a w us ts0)
  with put_keeps node.put_node_step(2) [OF conc_invD(4) [OF inv] call(6)] show ?thesis by auto
qed (auto simp: same_servers_keeps(1))

lemma conc_inv_same_data:
  assumes "same_data s s'" and inv: "conc_inv n k P (s, ts, hs)"
  shows "conc_inv n k P (s', ts, hs)"
proof -
  note same = same_dataD(3) [OF assms(1)]
  have "conc_inv n k P (s\<lparr>app_world := app_world s'\<rparr>, ts, hs)"
  proof (rule conc_inv_world [OF inv])
    show "cluster_ok (app_world s')" "cluster_sound (sha_of P) (app_world s')"
      using conc_invD(4,5) [OF inv]
      by (simp_all only: same_servers(2) [OF same] same_servers_keeps(2) [OF same])
  qed (use same_servers_keeps(1) [OF same] in blast)+
  with same_dataD(1,2) [OF assms(1)] show ?thesis by (simp add: conc_inv_def)
qed

definition download_inv ::
  "nat \<Rightarrow> nat \<Rightarrow> platform \<Rightarrow> string set \<Rightarrow> string list \<Rightarrow> storage_node system \<times> download_task \<Rightarrow> bool" where
  "download_inv n k P bad hs st \<longleftrightarrow>
     (case st of ((s, ts, os), t) \<Rightarrow> conc_inv n k P (s, ts, os) \<and> dl_hashes t = hs
        \<and> list_all2 (read_good P bad (app_co s) (app_world s)) hs (dl_reads t))"

lemma list_all2_replace:
  assumes "list_all2 R (gs @ h # hs) (as @ q # bs)" and "length gs = length as"
    and "R h q \<Longrightarrow> R h q'"
  shows "list_all2 R (gs @ h # hs) (as @ q' # bs)"
  using assms by (simp add: list_all2_append)

lemma download_step_inv:
  assumes "download_step P bad st st'" and "snd (snd (fst st)) = []" "snd (snd (fst st')) = []"
    and "download_inv n k P bad hs st" and hs: "\<forall>h \<in> set hs. valid_hash h"
  shows "download_inv n k P bad hs st'"
  using assms(1-4)
proof (induction rule: download_step.induct)
  case (ask t as q bs gs h hs' env s q' w ts os)
  then have inv: "conc_inv n k P (s, ts, os)" and t: "dl_hashes t = hs"
    and good: "list_all2 (read_good P bad (app_co s) (app_world s)) (gs @ h # hs') (as @ q # bs)"
    by (simp_all add: download_inv_def)
  have "valid_hash h" using hs ask(2) t by auto
  note step = read_step_good [OF conc_invD(4,5) [OF inv] this ask(4) _ ask(5)]
  have "read_good P bad (app_co s) (app_world s) h q"
    using good ask(3) by (simp add: list_all2_append)
  note step = step [OF this]
  then have same: "same_data s (s\<lparr>app_world := w\<rparr>)" by (simp add: same_data_def)
  have "list_all2 (read_good P bad (app_co s) (app_world s)) (gs @ h # hs') (as @ q' # bs)"
    by (rule list_all2_replace [OF good ask(3)]) (use step in blast)
  then have "list_all2 (read_good P bad (app_co s) w) (gs @ h # hs') (as @ q' # bs)"
    by (rule list_all2_mono) (use read_good_keeps same_servers_keeps(1) step in blast)
  with conc_inv_same_data [OF same inv] ask(2) t show ?case by (simp add: download_inv_def)
next
  case (system \<sigma> \<sigma>' t)
  obtain s ts os s' ts' os' where \<sigma>: "\<sigma> = (s, ts, os)" "\<sigma>' = (s', ts', os')" by (cases \<sigma>, cases \<sigma>')
  with system have os: "os = []" "os' = []" and inv: "conc_inv n k P (s, ts, [])"
    and step: "conc_step P (s, ts, []) (s', ts', [])"
    by (auto simp: download_inv_def)
  note keeps = conc_step_keeps [OF step inv]
  have "conc_inv n k P (s', ts', [])" by (rule conc_step_inv [OF step _ _ inv]) simp_all
  moreover have "list_all2 (read_good P bad (app_co s) (app_world s')) hs (dl_reads t)"
    using system(4) by (intro list_all2_mono [OF _ read_good_keeps]) (use keeps in \<open>auto simp: download_inv_def \<sigma>\<close>)
  ultimately show ?case using system keeps by (simp add: download_inv_def \<sigma> os)
next
  case (others s s' ts os t)
  then have inv: "conc_inv n k P (s, ts, os)" by (simp add: download_inv_def)
  have "list_all2 (read_good P bad (app_co s) (app_world s')) hs (dl_reads t)"
    using others(4) same_servers_keeps(1) [OF same_dataD(3) [OF others(1)]]
    by (intro list_all2_mono [OF _ read_good_keeps]) (auto simp: download_inv_def)
  with conc_inv_same_data [OF others(1) inv] others same_dataD(1) [OF others(1)] show ?case
    by (simp add: download_inv_def)
qed

lemma download_run_inv:
  assumes "unswept_run P bad st st'" and "snd (snd (fst st)) = []" and "download_inv n k P bad hs st"
    and "\<forall>h \<in> set hs. valid_hash h"
  shows "download_inv n k P bad hs st' \<and> snd (snd (fst st')) = []"
  using assms(1)
proof (induction rule: rtranclp_induct)
  case (step y z)
  with download_step_inv [OF conjunct1 [OF step.hyps(2)] _ _ _ assms(4)] show ?case by blast
qed (use assms in simp)

lemma start_download_stored:
  assumes inv: "server_inv n k P s" and f: "stored_version s f v hs"
  shows "\<exists>t. start_download P f s = Inr t \<and> dl_hashes t = hs"
proof -
  have "v \<noteq> []"
    using f server_invD(6) [OF inv] unfolding stored_version_def tight_def by blast
  with f show ?thesis by (auto simp: start_download_def stored_version_def)
qed

lemma start_download_inv:
  assumes inv: "conc_inv n k P (s, ts, [])" and f: "stored_version s f v hs"
    and start: "start_download P f s = Inr t" and bad: "finite bad" "card bad < k"
  shows "download_inv n k P bad hs ((s, ts, []), t)"
proof -
  obtain ver where ver: "getVersion (app_db s) v = Some ver" "chunkHashes ver = hs"
    and t: "t = \<lparr>dl_hashes = hs, dl_reads = map (start_read (sha1_of P) (app_co s)) hs\<rparr>"
    using f start by (auto simp: stored_version_def start_download_def split: if_splits option.splits)
  have "read_good P bad (app_co s) (app_world s) h (start_read (sha1_of P) (app_co s) h)" if "h \<in> set hs" for h
  proof -
    have "manifest_refs (app_db s) h \<noteq> 0"
      using manifest_refs_zero [OF conc_invD(2) [OF inv], of h] ver that by blast
    from start_read_good [OF conc_invD(6) [OF inv this] bad] show ?thesis .
  qed
  then have "list_all2 (read_good P bad (app_co s) (app_world s)) hs (map (start_read (sha1_of P) (app_co s)) hs)"
    by (simp add: list_all2_map2 list.rel_refl_strong)
  with inv show ?thesis by (simp add: download_inv_def t)
qed

text \<open>What the reads settled with, put together.\<close>

lemma good_answer:
  assumes "list_all2 (read_good P bad co w) hs qs" and "list_all settled qs"
  shows "\<exists>bs. assemble hs (map outcome_of qs) = reply 200 (Bytes (concat bs))
    \<and> list_all2 (\<lambda>b h. sha256_hex (sha_of P) b = h) bs hs"
proof -
  have "\<exists>bs. map outcome_of qs = map (\<lambda>b. Inr (Some b)) bs
      \<and> list_all2 (\<lambda>b h. sha256_hex (sha_of P) b = h) bs hs"
    using assms
  proof (induction rule: list_all2_induct)
    case (Cons h hs q qs)
    then obtain bs b where "map outcome_of qs = map (\<lambda>b. Inr (Some b)) bs"
      "list_all2 (\<lambda>b h. sha256_hex (sha_of P) b = h) bs hs"
      "q = Settled (Inr (Some b))" "sha256_hex (sha_of P) b = h"
      by (cases q) (auto simp: read_good_def)
    then show ?case by (intro exI [of _ "b # bs"]) simp
  qed simp
  then obtain bs where bs: "map outcome_of qs = map (\<lambda>b. Inr (Some b)) bs"
    "list_all2 (\<lambda>b h. sha256_hex (sha_of P) b = h) bs hs" by blast
  with assemble_ok [of hs bs] list_all2_lengthD [OF bs(2)] show ?thesis by auto
qed

section \<open>The handlers as runs\<close>

lemma read_steps_run:
  assumes "read_steps n (node_serve (sha_of P)) (sha_of P) env (nodesById (app_co s)) h (q, app_world s) = (q', w')"
    and "dl_reads t = as @ q # bs" and "dl_hashes t = gs @ h # hs" and "length gs = length as"
    and "\<forall>x. x \<notin> bad \<longrightarrow> fate_of env x = Deliver"
  shows "unswept_run P bad ((s, ts, []), t) ((s\<lparr>app_world := w'\<rparr>, ts, []), t\<lparr>dl_reads := as @ q' # bs\<rparr>)"
  using assms(1-3)
proof (induction n arbitrary: s t q)
  case 0
  then have "s\<lparr>app_world := w'\<rparr> = s" "t\<lparr>dl_reads := as @ q' # bs\<rparr> = t" by auto
  then show ?case by simp
next
  case (Suc n)
  obtain q1 w1 where step: "read_step (node_serve (sha_of P)) (sha_of P) env (nodesById (app_co s)) h q (app_world s)
      = (q1, w1)" by fastforce
  let ?s = "s\<lparr>app_world := w1\<rparr>" and ?t = "t\<lparr>dl_reads := as @ q1 # bs\<rparr>"
  have "download_step P bad ((s, ts, []), t) ((?s, ts, []), ?t) \<and> snd (snd (fst ((?s, ts, []), ?t))) = []"
    by (intro conjI download_step.ask [OF Suc.prems(2,3) assms(4,5) step]) simp
  moreover have "unswept_run P bad ((?s, ts, []), ?t)
      ((?s\<lparr>app_world := w'\<rparr>, ts, []), ?t\<lparr>dl_reads := as @ q' # bs\<rparr>)"
    by (rule Suc.IH) (use Suc.prems step in simp_all)
  then have "unswept_run P bad ((?s, ts, []), ?t)
      ((s\<lparr>app_world := w'\<rparr>, ts, []), t\<lparr>dl_reads := as @ q' # bs\<rparr>)"
    by simp
  ultimately show ?case by (rule converse_rtranclp_into_rtranclp)
qed

lemma start_read_run:
  assumes "getChunk (node_serve (sha_of P)) (sha_of P) (sha1_of P) env (app_co s) h (app_world s) = (r, w')"
    and "dl_reads t = as @ start_read (sha1_of P) (app_co s) h # bs" and "dl_hashes t = gs @ h # hs"
    and "length gs = length as" and "\<forall>x. x \<notin> bad \<longrightarrow> fate_of env x = Deliver"
  shows "unswept_run P bad ((s, ts, []), t)
    ((s\<lparr>app_world := w'\<rparr>, ts, []), t\<lparr>dl_reads := as @ Settled r # bs\<rparr>)"
proof -
  have "\<exists>n. read_steps n (node_serve (sha_of P)) (sha_of P) env (nodesById (app_co s)) h
      (start_read (sha1_of P) (app_co s) h, app_world s) = (Settled r, w')"
  proof (cases "preferenceList (sha1_of P) (co_ring (app_co s)) h (repl_n (app_co s))")
    case None
    with assms(1) show ?thesis by (intro exI [of _ 0]) (simp add: getChunk_def start_read_def)
  next
    case (Some pl)
    then have loop: "get_loop (node_serve (sha_of P)) (sha_of P) env (nodesById (app_co s)) h (length pl) 0 pl
        ''no_replicas_configured'' (app_world s) = (r, w')"
      using assms(1) by (simp only: getChunk_def option.case)
    show ?thesis
      using read_steps_loop [of pl "node_serve (sha_of P)" "sha_of P" env "nodesById (app_co s)" h "length pl" 0
          "''no_replicas_configured''" "app_world s"]
      unfolding start_read_def Some loop option.case prod.case Let_def by blast
  qed
  then obtain m where m: "read_steps m (node_serve (sha_of P)) (sha_of P) env (nodesById (app_co s)) h
      (start_read (sha1_of P) (app_co s) h, app_world s) = (Settled r, w')" by blast
  show ?thesis by (rule read_steps_run [OF m assms(2-5)])
qed

lemma reads_run:
  assumes "read_all (node_serve (sha_of P)) P envs (app_co s) i hs (app_world s) = (rs, w')"
    and "dl_hashes t = gs @ hs" and "dl_reads t = qs @ map (start_read (sha1_of P) (app_co s)) hs"
    and "length gs = length qs" and env: "\<forall>j x. x \<notin> bad \<longrightarrow> fate_of (envs j) x = Deliver"
  shows "unswept_run P bad ((s, ts, []), t)
    ((s\<lparr>app_world := w'\<rparr>, ts, []), t\<lparr>dl_reads := qs @ map Settled rs\<rparr>)"
  using assms(1-4)
proof (induction hs arbitrary: i s t gs qs rs)
  case Nil
  then have "s\<lparr>app_world := w'\<rparr> = s" "t\<lparr>dl_reads := qs @ map Settled rs\<rparr> = t" by auto
  then show ?case by simp
next
  case (Cons h hs)
  obtain r w1 where read: "getChunk (node_serve (sha_of P)) (sha_of P) (sha1_of P) (envs i) (app_co s) h (app_world s)
      = (r, w1)" by fastforce
  obtain rs1 where rs1: "read_all (node_serve (sha_of P)) P envs (app_co s) (i + 1) hs w1 = (rs1, w')"
    and rs: "rs = r # rs1"
    using Cons.prems(1) read by (auto split: prod.splits)
  let ?s = "s\<lparr>app_world := w1\<rparr>"
    and ?t = "t\<lparr>dl_reads := qs @ Settled r # map (start_read (sha1_of P) (app_co s)) hs\<rparr>"
  have "unswept_run P bad ((s, ts, []), t) ((?s, ts, []), ?t)"
    by (rule start_read_run [OF read _ Cons.prems(2,4)]) (use Cons.prems(3) env in simp_all)
  moreover have "unswept_run P bad ((?s, ts, []), ?t)
      ((?s\<lparr>app_world := w'\<rparr>, ts, []), ?t\<lparr>dl_reads := (qs @ [Settled r]) @ map Settled rs1\<rparr>)"
    by (rule Cons.IH [where gs = "gs @ [h]" and i = "i + 1"]) (use Cons.prems rs1 in simp_all)
  then have "unswept_run P bad ((?s, ts, []), ?t)
      ((s\<lparr>app_world := w'\<rparr>, ts, []), t\<lparr>dl_reads := qs @ map Settled rs\<rparr>)"
    by (simp add: rs)
  ultimately show ?case by (rule rtranclp_trans)
qed

text \<open>The handler of a download, taken as one step, is one of the interleavings.\<close>

lemma lone_download:
  assumes "download (node_serve (sha_of P)) P e f s = (r, s')" and "start_download P f s = Inr t"
    and "\<forall>i x. x \<notin> bad \<longrightarrow> fate_of (chunk_env e i) x = Deliver"
  shows "\<exists>t'. unswept_run P bad ((s, [], []), t) ((s', [], []), t') \<and> download_answer t' = Some r"
proof -
  obtain rs w' where read: "read_all (node_serve (sha_of P)) P (chunk_env e) (app_co s) 0 (dl_hashes t) (app_world s)
      = (rs, w')" by fastforce
  with assms(1,2) have s': "r = assemble (dl_hashes t) rs" "s' = s\<lparr>app_world := w'\<rparr>"
    by (auto simp: download_def start_download_def split: option.splits if_splits)
  have "dl_reads t = map (start_read (sha1_of P) (app_co s)) (dl_hashes t)"
    using assms(2) by (auto simp: start_download_def split: option.splits if_splits)
  with reads_run [OF read, of t "[]" "[]" bad "[]"] assms(3)
  have "unswept_run P bad ((s, [], []), t) ((s', [], []), t\<lparr>dl_reads := map Settled rs\<rparr>)"
    by (simp add: s')
  moreover have "download_answer (t\<lparr>dl_reads := map Settled rs\<rparr>) = Some r"
    by (simp add: download_answer_def s' list_all_iff comp_def)
  ultimately show ?thesis by blast
qed

lemma system_run:
  "rtranclp (conc_step P) \<sigma> \<sigma>' \<Longrightarrow> rtranclp (download_step P bad) (\<sigma>, t) (\<sigma>', t)"
  by (induction rule: rtranclp_induct) (auto intro: download_step.system rtranclp.rtrancl_into_rtrancl)

text \<open>A sweep, chunk by chunk.\<close>

lemma sweep_run:
  assumes "gc_loop (\<lambda>h. deleteChunk (node_serve (sha_of P)) (sha1_of P) (envs h) (app_co s) h) reapOrphanedChunk
      hint hs k b (app_db s) (app_world s) = (q, db, w)"
  shows "rtranclp (conc_step P) (s, ts, hs) (s\<lparr>app_db := db, app_world := w\<rparr>, ts, [])"
  using assms
proof (induction hs arbitrary: k b s)
  case Nil
  then have "s\<lparr>app_db := db, app_world := w\<rparr> = s" by auto
  then show ?case by simp
next
  case (Cons h hs)
  obtain d w1 where d: "deleteChunk (node_serve (sha_of P)) (sha1_of P) (envs h) (app_co s) h (app_world s) = (d, w1)"
    by fastforce
  show ?case
  proof (cases d)
    case (Inl err)
    with Cons.prems d have "q = Inl err" "db = app_db s" "w = w1" by auto
    moreover have "gc_loop (\<lambda>h. deleteChunk (node_serve (sha_of P)) (sha1_of P) (envs h) (app_co s) h)
        reapOrphanedChunk hint [h] 0 0 (app_db s) (app_world s) = (Inl err, app_db s, w1)"
      by (simp add: d Inl)
    note conc_step.gc_chunk [OF this, of ts hs]
    ultimately show ?thesis by auto
  next
    case (Inr m)
    let ?s = "s\<lparr>app_db := reapOrphanedChunk h (app_db s), app_world := w1\<rparr>"
    obtain k' b' where "gc_loop (\<lambda>h. deleteChunk (node_serve (sha_of P)) (sha1_of P) (envs h) (app_co ?s) h)
        reapOrphanedChunk hint hs k' b' (app_db ?s) (app_world ?s) = (q, db, w)"
      using Cons.prems d Inr by (auto split: if_splits)
    from Cons.IH [OF this] have rest: "rtranclp (conc_step P) (?s, ts, hs) (?s\<lparr>app_db := db, app_world := w\<rparr>, ts, [])" .
    obtain q1 where q1: "gc_loop (\<lambda>h. deleteChunk (node_serve (sha_of P)) (sha1_of P) (envs h) (app_co s) h)
        reapOrphanedChunk hint [h] 0 0 (app_db s) (app_world s) = (Inr q1, reapOrphanedChunk h (app_db s), w1)"
      by (cases "0 < m") (simp_all add: d Inr)
    from conc_step.gc_chunk [OF q1, of ts hs] rest show ?thesis
      by (simp add: converse_rtranclp_into_rtranclp)
  qed
qed

text \<open>An update and a sweep, as runs.\<close>

lemma put_run:
  assumes "config_ok n k (app_co s)" and "put_file (node_serve (sha_of P)) P e f body s = (r, s')"
  shows "rtranclp (conc_step P) (s, [], []) (s', [], [])"
proof -
  have "exclusive_run P (s, [], []) (s', [], [])"
    using lone_put [OF _ assms(2)] assms(1) by (simp add: config_ok_def preferenceList_Some)
  then show ?thesis by (rule mono_rtranclp [rule_format, rotated]) simp
qed

lemma gc_step_run: "rtranclp (download_step P bad) ((s, [], []), t) ((gc_step P envs hint s, [], []), t)"
proof -
  obtain r db w where run: "gc_sweep (sha_of P) (sha1_of P) envs (app_co s) hint (app_db s) (app_world s)
      = (r, db, w)" by (cases rule: prod_cases3)
  obtain q w1 where loop: "gc_loop (\<lambda>h. deleteChunk (node_serve (sha_of P)) (sha1_of P) (envs h) (app_co s) h)
      reapOrphanedChunk hint (listOrphanedChunks (app_db s)) 0 0 (app_db s) (app_world s) = (q, db, w1)"
    and same: "servers w = servers w1"
    by (rule gc_sweep_loop [OF run])
  let ?s = "s\<lparr>app_db := db, app_world := w1\<rparr>"
  have "rtranclp (conc_step P) (s, [], []) (?s, [], [])"
    by (rule converse_rtranclp_into_rtranclp [OF conc_step.gc_begin sweep_run [OF loop]])
  then have "rtranclp (download_step P bad) ((s, [], []), t) ((?s, [], []), t)" by (rule system_run)
  moreover have "same_data ?s (gc_step P envs hint s)" by (simp add: gc_step_def run same_data_def same)
  then have "download_step P bad ((?s, [], []), t) ((gc_step P envs hint s, [], []), t)"
    by (rule download_step.others)
  ultimately show ?thesis by (rule rtranclp.rtrancl_into_rtrancl)
qed

lemma gc_step_clears:
  assumes inv: "server_inv n k P s" and "h \<in> set (listOrphanedChunks (app_db s))"
    and "\<forall>g x. fate_of (envs g) x = Deliver"
    and "preferenceList (sha1_of P) (co_ring (app_co s)) h (repl_n (app_co s)) = Some pl"
  shows "\<forall>x \<in> set pl. replica (app_co s) (app_world (gc_step P envs hint s)) x h = None"
proof -
  obtain r db w where run: "gc_sweep (sha_of P) (sha1_of P) envs (app_co s) hint (app_db s) (app_world s)
      = (r, db, w)" by (cases rule: prod_cases3)
  have "orphans_valid (app_db s)" using server_invD(2) [OF inv] by (simp add: db_inv_def names_ok_orphans)
  note swept = gc_sweep_complete [OF server_invD(5,3) [OF inv] this _ _ _ run]
  have "set pl \<subseteq> delete_reached (sha1_of P) envs (app_co s) h" using assms(3,4) by (simp add: delete_reached_def)
  moreover have "\<forall>x \<in> delete_reached (sha1_of P) envs (app_co s) h. replica (app_co s) w x h = None"
    using swept server_invD(1) [OF inv] assms(2) by (auto simp: config_ok_def)
  ultimately show ?thesis by (auto simp: gc_step_def run)
qed

text \<open>A chunk without copies makes the download fail.\<close>

lemma getChunk_missing:
  assumes ok: "cluster_ok w" and h: "valid_hash h" and env: "\<forall>x. fate_of env x = Deliver"
    and pl: "preferenceList sha1 (co_ring co) h (repl_n co) = Some pl"
    and none: "\<forall>x \<in> set pl. replica co w x h = None"
  shows "fst (getChunk (node_serve sha) sha sha1 env co h w) \<noteq> Inr (Some b)"
proof (cases "pl = []")
  case False
  have "fst (getChunk (node_serve sha) sha sha1 env co h w)
    = (if says_absent node_copy env (nodesById co) w h (last pl) then Inr None
       else Inl (ChunkUnavailableError h (length pl)))"
    using node.get_loop_exhausted [OF ok h _ _ False, of "nodesById co" sha env] env none
    by (simp add: getChunk_def pl)
  then show ?thesis by simp
qed (simp add: getChunk_def pl)

lemma read_all_missing:
  assumes "cluster_ok w" and "\<forall>g \<in> set hs. valid_hash g" and env: "\<forall>j x. fate_of (envs j) x = Deliver"
    and pl: "preferenceList (sha1_of P) (co_ring co) h (repl_n co) = Some pl"
    and "\<forall>x \<in> set pl. replica co w x h = None" and "h \<in> set hs"
  shows "\<exists>r \<in> set (fst (read_all (node_serve (sha_of P)) P envs co i hs w)). \<forall>b. r \<noteq> Inr (Some b)"
  using assms(1,2,5,6)
proof (induction hs arbitrary: i w)
  case (Cons g hs)
  obtain r w1 where read: "getChunk (node_serve (sha_of P)) (sha_of P) (sha1_of P) (envs i) co g w = (r, w1)"
    by fastforce
  have w1: "servers w1 = servers w"
    using getChunk_servers [of w g "sha_of P" "sha1_of P" "envs i" co] Cons.prems(1,2) read by simp
  show ?case
  proof (cases "g = h")
    case True
    have "\<forall>b. r \<noteq> Inr (Some b)"
      using getChunk_missing [OF Cons.prems(1) _ _ pl Cons.prems(3), of "envs i" "sha_of P"] Cons.prems(2) env read True
      by simp
    then show ?thesis by (simp add: read split_beta Let_def)
  next
    case False
    have "cluster_ok w1" "\<forall>x \<in> set pl. replica co w1 x h = None"
      using Cons.prems(1,3) by (simp_all only: same_servers [OF w1])
    from Cons.IH [OF this(1) _ this(2)] Cons.prems(2,4) False show ?thesis by (simp add: read split_beta Let_def)
  qed
qed simp

text \<open>The environment in which every call arrives.\<close>

definition all_deliver :: call_env where
  "all_deliver = \<lparr>fate_of = (\<lambda>_. Deliver), nonce_of = (\<lambda>_. (0, [])), settled_ms = (\<lambda>_. 0), failed_ms = (\<lambda>_. 0)\<rparr>"

lemma fate_all_deliver [simp]: "fate_of all_deliver x = Deliver"
  by (simp add: all_deliver_def)

lemma download_fails:
  assumes ok: "cluster_ok (app_world s)" and valid: "\<forall>g \<in> set hs. valid_hash g" and h: "h \<in> set hs"
    and pl: "preferenceList (sha1_of P) (co_ring (app_co s)) h (repl_n (app_co s)) = Some pl"
    and none: "\<forall>x \<in> set pl. replica (app_co s) (app_world s) x h = None"
    and t: "dl_hashes t = hs" "dl_reads t = map (start_read (sha1_of P) (app_co s)) hs"
  shows "\<exists>s' t' r. unswept_run P bad ((s, [], []), t) ((s', [], []), t') \<and> same_data s s'
    \<and> download_answer t' = Some r \<and> status r = 500"
proof -
  obtain rs w where read: "read_all (node_serve (sha_of P)) P (\<lambda>_. all_deliver) (app_co s) 0 hs (app_world s)
      = (rs, w)" by fastforce
  obtain q where q: "q \<in> set rs" "\<forall>b. q \<noteq> Inr (Some b)"
    using read_all_missing [OF ok valid _ pl none h, of "\<lambda>_. all_deliver" 0] by (auto simp: read)
  let ?t = "t\<lparr>dl_reads := map Settled rs\<rparr>"
  have "unswept_run P bad ((s, [], []), t) ((s\<lparr>app_world := w\<rparr>, [], []), ?t)"
    using reads_run [OF read, of t "[]" "[]" bad "[]"] t by simp
  moreover have "same_data s (s\<lparr>app_world := w\<rparr>)"
    using read_all_servers [OF ok valid, of P "\<lambda>_. all_deliver" "app_co s" 0] by (simp add: same_data_def read)
  moreover have "download_answer ?t = Some (assemble hs rs)"
    by (simp add: download_answer_def t list_all_iff comp_def)
  moreover have "status (assemble hs rs) = 500"
    using assemble_failed [OF q]
      read_all_length [of "node_serve (sha_of P)" P "\<lambda>_. all_deliver" "app_co s" 0 hs "app_world s"]
    by (simp add: read)
  ultimately show ?thesis by blast
qed

text \<open>A file whose chunk is orphaned by an update to nothing.\<close>

lemma demo_replaced:
  obtains s r s1 where "server_inv 3 2 demo_platform s"
    and "stored_version s ''file_01'' ''ver_01'' [sha256_hex demo_sha [9]]"
    and "put_file (node_serve demo_sha) demo_platform (demo_request {''b''} [2]) ''file_01'' (Buffer []) s = (r, s1)"
    and "status r = 200" and "sha256_hex demo_sha [9] \<in> set (listOrphanedChunks (app_db s1))"
proof (rule demo_upload_chunks)
  fix rep w1
  let ?h = "sha256_hex demo_sha [9]"
  assume up: "uploadChunks (node_serve demo_sha) demo_platform (\<lambda>_. demo_env {''b''}) demo
      [9] demo_world = (Inr ([?h], [rep], 1), w1)"
  define db where "db = \<lparr>files = [\<lparr>file_id = ''file_01'', file_created_at = 1, current_version_id = Some ''ver_01''\<rparr>],
    versions = [\<lparr>version_id = ''ver_01'', version_file_id = ''file_01'', version_size = 1, version_created_at = 1\<rparr>],
    manifest_chunks = [\<lparr>manifest_version_id = ''ver_01'', seq = 0, chunk_hash = ?h\<rparr>],
    chunk_refcounts = [\<lparr>refcount_hash = ?h, refcount = 1\<rparr>]\<rparr>"
  let ?s = "demo_app\<lparr>app_world := w1, app_db := db\<rparr>"
  have ids: "newId ''ver'' [1] = ''ver_01''" "newId ''ver'' [2] = ''ver_02''"
    by code_simp+
  have "post_file (node_serve demo_sha) demo_platform (demo_request {''b''} [1]) (Buffer [9]) demo_app
      = (reply 201 (Created ''file_01'' ''ver_01'' 1 1), ?s)"
    using up
    by (simp add: post_file_def demo_request_def demo_app_def createFile_def empty_db_def Let_def
        commitVersion_def commit_chunks.simps demo_file_id ids db_def set_current_def)
  then have "server_inv 3 2 demo_platform ?s"
    by (intro post_file_inv [OF demo_app_inv]) (simp add: demo_platform_def)
  moreover have "stored_version ?s ''file_01'' ''ver_01'' [?h]"
    by (simp add: stored_version_def db_def getFile_def getVersion_def)
  moreover obtain s1 where "put_file (node_serve demo_sha) demo_platform (demo_request {''b''} [2]) ''file_01'' (Buffer []) ?s
      = (reply 200 (Updated ''file_01'' ''ver_02'' (Some ''ver_01'') 0 0), s1)"
    "listOrphanedChunks (app_db s1) = [?h]"
    by (simp add: put_file_def demo_request_def demo_app_def uploadChunks_def chunkBuffer_blocks db_def getFile_def ids
        commitVersion_def commit_chunks.simps set_current_def replace_version_def deleteVersion_def getVersion_def
        decrementRefcounts_def dec_refcount_def listOrphanedChunks_def Let_def)
  ultimately show thesis by (intro that) (auto simp: reply_def)
qed

section \<open>Properties\<close>



text \<open>
  C36: without that condition a download can fail for a file that was there all the time. If, between its manifest and
  its first read, an update replaces the file and a sweep takes a chunk that only the old
  version had, the download is answered with 500, although the file can be read before and after: the collector does
  not know of the reads under way.
\<close>

theorem download_sweep_race:
  assumes inv: "server_inv n k P s" and f: "stored_version s f v hs" and h: "h \<in> set hs"
    and up: "route (node_serve (sha_of P)) P e (PutFile f (Buffer buf)) s = (r, s1)" "status r = 200"
    and orphan: "h \<in> set (listOrphanedChunks (app_db s1))"
  shows "\<exists>t s2 t' r'. start_download P f s = Inr t
    \<and> rtranclp (download_step P {}) ((s, [], []), t) ((s2, [], []), t')
    \<and> download_answer t' = Some r' \<and> status r' = 500 \<and> readable P k s2 f buf"
proof -
  have run: "put_file (node_serve (sha_of P)) P e f (Buffer buf) s = (r, s1)" using up(1) by simp
  have inv1: "server_inv n k P s1" by (rule put_file_inv [OF inv run])
  obtain t where t: "start_download P f s = Inr t" "dl_hashes t = hs" using start_download_stored [OF inv f] by blast
  define s2 where "s2 = gc_step P (\<lambda>_. all_deliver) None s1"
  have inv2: "server_inv n k P s2" unfolding s2_def by (rule gc_step_inv [OF inv1])
  have "rtranclp (download_step P {}) ((s, [], []), t) ((s1, [], []), t)"
    by (rule system_run [OF put_run [OF server_invD(1) [OF inv] run]])
  also have "rtranclp (download_step P {}) \<dots> ((s2, [], []), t)" unfolding s2_def by (rule gc_step_run)
  finally have swept: "rtranclp (download_step P {}) ((s, [], []), t) ((s2, [], []), t)" .
  have co: "app_co s1 = app_co s" "app_co s2 = app_co s1"
    using app_co_frame(2) [of "node_serve (sha_of P)" P e f "Buffer buf" s]
      gc_step_frame [OF inv1, of "\<lambda>_. all_deliver" None]
    by (simp_all add: run s2_def)
  obtain pl where pl: "preferenceList (sha1_of P) (co_ring (app_co s1)) h (repl_n (app_co s1)) = Some pl"
    using server_invD(1) [OF inv1] by (simp add: config_ok_def preferenceList_Some)
  have none: "\<forall>x \<in> set pl. replica (app_co s2) (app_world s2) x h = None"
    using gc_step_clears [OF inv1 orphan _ pl, of "\<lambda>_. all_deliver" None] unfolding co s2_def [symmetric] by simp
  have valid: "\<forall>h \<in> set hs. valid_hash h"
    using f refs_valid(2) [OF server_invD(2) [OF inv]] by (auto simp: stored_version_def)
  have "dl_reads t = map (start_read (sha1_of P) (app_co s2)) hs"
    using t by (auto simp: start_download_def co split: option.splits if_splits)
  from download_fails [OF server_invD(3) [OF inv2] valid h _ none t(2) this, of "{}"] pl obtain s3 t' r' where
    fail: "unswept_run P {} ((s2, [], []), t) ((s3, [], []), t')" "same_data s2 s3"
    "download_answer t' = Some r'" "status r' = 500"
    unfolding co by blast
  have "rtranclp (download_step P {}) ((s2, [], []), t) ((s3, [], []), t')"
    by (rule mono_rtranclp [rule_format, OF _ fail(1)]) simp
  with swept have "rtranclp (download_step P {}) ((s, [], []), t) ((s3, [], []), t')" by (rule rtranclp_trans)
  moreover obtain v' where "stored_version s1 f v' (map (hashChunk (sha_of P)) (blocks DEFAULT_CHUNK_SIZE buf))"
    by (rule put_updated [OF inv run up(2)]) auto
  then have "stored_version s2 f v' (map (hashChunk (sha_of P)) (blocks DEFAULT_CHUNK_SIZE buf))"
    unfolding s2_def by (rule stored_version_step [OF server_step.sweep inv1])
  from stored_readable [OF same_data_inv [OF fail(2) inv2] stored_version_same [OF this same_dataD(2) [OF fail(2)]]]
  have "readable P k s3 f buf" .
  ultimately show ?thesis using t(1) fail(3,4) by blast
qed

theorem download_sweep_race_witness:
  "\<exists>s t s2 t' r. rtranclp (download_step demo_platform {}) ((s, [], []), t) ((s2, [], []), t')
    \<and> download_answer t' = Some r \<and> status r = 500 \<and> readable demo_platform 2 s2 ''file_01'' []"
proof (rule demo_replaced)
  fix s r s1
  assume demo: "server_inv 3 2 demo_platform s" "stored_version s ''file_01'' ''ver_01'' [sha256_hex demo_sha [9]]"
    "put_file (node_serve demo_sha) demo_platform (demo_request {''b''} [2]) ''file_01'' (Buffer []) s = (r, s1)"
    "status r = 200" "sha256_hex demo_sha [9] \<in> set (listOrphanedChunks (app_db s1))"
  have "route (node_serve (sha_of demo_platform)) demo_platform (demo_request {''b''} [2])
      (PutFile ''file_01'' (Buffer [])) s = (r, s1)"
    using demo(3) by (simp add: demo_platform_def)
  from download_sweep_race [OF demo(1,2) _ this demo(4,5)] show ?thesis by (simp del: split_paired_Ex) blast
qed



end
