(* ===== verification/Linearization.thy ===== *)
theory Linearization
  imports ObjectStore Downloads
begin

text \<open>
  Uploads that overlap, seen as an object store. Of all the steps of an upload, only its last changes what is
  stored, and it does so at once: this is the point at which the upload happens, whatever else is under way.
\<close>

section \<open>Runs\<close>

text \<open>The versions that updates under way will delete.\<close>

definition remembered :: "upload_task list \<Rightarrow> string set" where
  "remembered ts = {p. \<exists>t \<in> set ts. \<exists>f. task_target t = ExistingFile f (Some p)}"

text \<open>A step that draws none of their ids again.\<close>

definition redrawn :: "metadata \<Rightarrow> metadata \<Rightarrow> string \<Rightarrow> bool" where
  "redrawn db db' p \<longleftrightarrow> getVersion db p = None
     \<and> (\<exists>f row. getFile db' f = Some row \<and> current_version_id row = Some p)"

definition fresh_step :: "platform \<Rightarrow> storage_node system \<Rightarrow> storage_node system \<Rightarrow> bool" where
  "fresh_step P \<sigma> \<sigma>' \<longleftrightarrow> conc_step P \<sigma> \<sigma>' \<and> exclusive \<sigma>'
     \<and> (\<forall>p \<in> remembered (fst (snd \<sigma>)). \<not> redrawn (app_db (fst \<sigma>)) (app_db (fst \<sigma>')) p)"

section \<open>The invariant\<close>

text \<open>An upload carries the manifest of some content; an update, a file that exists and a version of no other file.\<close>

definition carries :: "sha256 \<Rightarrow> upload_task \<Rightarrow> bytes \<Rightarrow> bool" where
  "carries sha t b \<longleftrightarrow> (task_hashes t, task_size t) = manifest_of sha b"

definition target_ok :: "metadata \<Rightarrow> upload_target \<Rightarrow> bool" where
  "target_ok db tgt \<longleftrightarrow>
     (case tgt of
        NewFile \<Rightarrow> True
      | ExistingFile f p \<Rightarrow> getFile db f \<noteq> None
          \<and> (\<forall>g q u. g \<noteq> f \<longrightarrow> getFile db g = Some q \<longrightarrow> current_version_id q = Some u \<longrightarrow> p \<noteq> Some u))"

definition lin_inv :: "nat \<Rightarrow> nat \<Rightarrow> platform \<Rightarrow> storage_node system \<Rightarrow> bool" where
  "lin_inv n k P \<sigma> \<longleftrightarrow> exclusive \<sigma> \<and> conc_inv n k P \<sigma> \<and> pointers_ok (app_db (fst \<sigma>))
     \<and> (\<forall>t \<in> set (fst (snd \<sigma>)). (\<exists>b. carries (sha_of P) t b) \<and> target_ok (app_db (fst \<sigma>)) (task_target t))"

lemma start_upload_carries:
  assumes "start_upload sha tgt b = Some t"
  shows "carries sha t b" and "task_target t = tgt"
proof -
  have "map chunk_sha (numbered sha j bs) = map (hashChunk sha) bs" for j bs
    by (induction bs arbitrary: j) simp_all
  with assms show "carries sha t b" "task_target t = tgt"
    by (auto simp: start_upload_def chunkBuffer_blocks carries_def manifest_of_def)
qed

lemma target_ok_existing:
  assumes "pointers_ok db" and "getFile db f = Some row"
  shows "target_ok db (ExistingFile f (current_version_id row))"
proof -
  have "current_version_id row \<noteq> Some u"
    if g: "g \<noteq> f" "getFile db g = Some q" "current_version_id q = Some u" for g q u
    using stored_known [OF assms(1) g(2,3)] stored_known [OF assms, of u] g(1) by (metis option.inject)
  with assms(2) show ?thesis by (simp add: target_ok_def)
qed

text \<open>The last step of an upload.\<close>

lemma pointers_createFile:
  assumes "createFile random now db = (res, db1)" and "pointers_ok db"
  shows "pointers_ok db1"
proof (cases res)
  case (Inl e)
  with createFile_frame(5) [OF assms(1)] assms(2) show ?thesis by simp
next
  case (Inr f)
  note fr = createFile_frame [OF assms(1)]
  with fr(4) [OF Inr] assms(2) show ?thesis by (auto simp: pointers_ok_def split: if_splits)
qed

lemma finish_new:
  assumes wf: "metadata_wf db" and ptr: "pointers_ok db" and tgt: "task_target t = NewFile"
    and run: "finish_upload z1 z2 t db = (res, db')"
  shows "pointers_ok db'
    \<and> (case res of
        Inl err \<Rightarrow> stored db' = stored db
      | Inr (f, v) \<Rightarrow> stored db' = (stored db)(f \<mapsto> (task_hashes t, task_size t)) \<and> stored db f = None)"
proof -
  obtain r db1 where c: "createFile (fst z1) (snd z1) db = (r, db1)" by fastforce
  have db1: "metadata_wf db1" "pointers_ok db1" "stored db1 = stored db"
    using metadata_wf_create [OF wf, of "fst z1" "snd z1"] pointers_createFile [OF c ptr] stored_createFile [OF c] c
    by simp_all
  show ?thesis
  proof (cases r)
    case (Inl e)
    with run c tgt db1 show ?thesis by (auto simp: finish_upload_def)
  next
    case (Inr f)
    have row: "getFile db1 f = Some \<lparr>file_id = f, file_created_at = snd z1, current_version_id = None\<rparr>"
      and none: "stored db f = None"
      using createFile_frame(4) [OF c Inr, of f] by (simp_all add: stored_def)
    obtain r2 db2 where d: "commitVersion (fst z2) (snd z2) f (task_hashes t) (task_size t) db1 = (r2, db2)"
      by fastforce
    show ?thesis
    proof (cases r2)
      case (Inl e)
      with commit_fails [OF db1(1)] d have "db2 = db1" by simp
      with Inl run c Inr tgt d db1 show ?thesis by (auto simp: finish_upload_def)
    next
      case v: (Inr v)
      note commit = stored_commit [OF db1(1,2) row d [unfolded v], of None]
      from run c Inr tgt d v have "res = Inr (f, v)" "db' = db2" by (simp_all add: finish_upload_def)
      with commit db1(3) none show ?thesis by (simp add: replace_version_def)
    qed
  qed
qed

lemma finish_existing:
  assumes wf: "metadata_wf db" and ptr: "pointers_ok db" and tgt: "task_target t = ExistingFile f p"
    and ok: "target_ok db (ExistingFile f p)" and run: "finish_upload z1 z2 t db = (res, db')"
    and fresh: "\<And>u. p = Some u \<Longrightarrow> \<not> redrawn db db' u"
  shows "pointers_ok db'
    \<and> (case res of
        Inl err \<Rightarrow> stored db' = stored db
      | Inr (g, v) \<Rightarrow> g = f \<and> stored db' = (stored db)(f \<mapsto> (task_hashes t, task_size t)))"
proof -
  obtain row where row: "getFile db f = Some row" using ok by (auto simp: target_ok_def)
  obtain r db1 where c: "commitVersion (fst z2) (snd z2) f (task_hashes t) (task_size t) db = (r, db1)" by fastforce
  show ?thesis
  proof (cases r)
    case (Inl e)
    with commit_fails [OF wf] c have "db1 = db" by simp
    with Inl run c tgt ptr show ?thesis by (auto simp: finish_upload_def)
  next
    case (Inr v)
    with run c tgt have res: "res = Inr (f, v)" "db' = replace_version p db1" by (simp_all add: finish_upload_def)
    have "p \<noteq> Some v"
    proof
      assume p: "p = Some v"
      have "getFile db' f = Some (row\<lparr>current_version_id := Some v\<rparr>)"
        using commit_reads(2) [OF wf c [unfolded Inr], of f] row
        by (auto simp: res(2) replace_version_def frame_simps split: option.split)
      moreover have "getVersion db v = None" using commit_ok(2) [OF wf c [unfolded Inr]] by simp
      ultimately have "redrawn db db' v" by (force simp: redrawn_def)
      with fresh [OF p] show False by simp
    qed
    moreover have "p \<noteq> Some u" if "g \<noteq> f" "getFile db g = Some q" "current_version_id q = Some u" for g q u
      using ok that by (simp add: target_ok_def)
    ultimately show ?thesis using stored_commit [OF wf ptr row c [unfolded Inr], of p] res by simp
  qed
qed

text \<open>No file goes, and a file that names another version than before names one that was not there.\<close>

definition rows_kept :: "metadata \<Rightarrow> metadata \<Rightarrow> bool" where
  "rows_kept db db' \<longleftrightarrow> (\<forall>g. (getFile db g \<noteq> None \<longrightarrow> getFile db' g \<noteq> None)
     \<and> (\<forall>row u. getFile db' g = Some row \<longrightarrow> current_version_id row = Some u
          \<longrightarrow> getFile db g = Some row \<or> getVersion db u = None))"

lemma rows_kept_same: "getFile db' = getFile db \<Longrightarrow> rows_kept db db'"
  by (simp add: rows_kept_def)

lemma rows_keptD:
  assumes "rows_kept db db'"
  shows "getFile db g \<noteq> None \<Longrightarrow> getFile db' g \<noteq> None"
    and "getFile db' g = Some row \<Longrightarrow> current_version_id row = Some u \<Longrightarrow> getVersion db u \<noteq> None
      \<Longrightarrow> getFile db g = Some row"
  using assms unfolding rows_kept_def by meson+

lemma rows_kept_trans:
  assumes "rows_kept db db1" and "\<And>u. getVersion db1 u = getVersion db u" and "rows_kept db1 db2"
  shows "rows_kept db db2"
  unfolding rows_kept_def using rows_keptD [OF assms(1)] rows_keptD [OF assms(3)] assms(2) by metis

lemma rows_kept_create:
  assumes c: "createFile random now db = (res, db1)"
  shows "rows_kept db db1"
proof (cases res)
  case (Inl e)
  then show ?thesis using createFile_frame(5) [OF c] by (simp add: rows_kept_def)
next
  case (Inr f)
  from createFile_frame(4) [OF c this] show ?thesis by (auto simp: rows_kept_def split: if_splits)
qed

lemma rows_kept_commit:
  assumes wf: "metadata_wf db" and run: "commitVersion random now f hs n db = (res, db1)"
  shows "rows_kept db db1"
proof (cases res)
  case (Inl e)
  then have "db1 = db" using commit_fails [OF wf] run by simp
  then show ?thesis by (simp add: rows_kept_def)
next
  case (Inr v)
  note reads = commit_reads(2) [OF wf run [unfolded Inr]] and new = commit_ok(2) [OF wf run [unfolded Inr]]
  show ?thesis unfolding rows_kept_def
  proof (intro allI conjI impI)
    fix g row u
    show "getFile db1 g \<noteq> None" if "getFile db g \<noteq> None" using that reads [of g] by auto
    show "getFile db g = Some row \<or> getVersion db u = None"
      if "getFile db1 g = Some row" "current_version_id row = Some u"
    proof (cases "g = f")
      case True
      with that reads [of g] have "u = v" by (cases "getFile db f") auto
      with new show ?thesis by simp
    qed (use that reads [of g] in simp)
  qed
qed

lemma getFile_replace_version: "getFile (replace_version p db) = getFile db"
  by (rule ext) (simp add: replace_version_def frame_simps split: option.split)

lemma finish_rows:
  assumes wf: "metadata_wf db" and run: "finish_upload z1 z2 t db = (res, db')"
  shows "rows_kept db db'"
proof (cases "task_target t")
  case NewFile
  obtain r db1 where c: "createFile (fst z1) (snd z1) db = (r, db1)" by fastforce
  have ver: "getVersion db1 u = getVersion db u" for u using createFile_frame(1) [OF c] .
  have wf1: "metadata_wf db1" using metadata_wf_create [OF wf, of "fst z1" "snd z1"] c by simp
  show ?thesis
  proof (cases r)
    case (Inl e)
    with run c NewFile rows_kept_create [OF c] show ?thesis by (simp add: finish_upload_def)
  next
    case (Inr f)
    obtain r2 db2 where d: "commitVersion (fst z2) (snd z2) f (task_hashes t) (task_size t) db1 = (r2, db2)"
      by fastforce
    with run c NewFile Inr have "db' = db2" by (auto simp: finish_upload_def split: sum.splits)
    with rows_kept_trans [OF rows_kept_create [OF c] ver rows_kept_commit [OF wf1 d]] show ?thesis by simp
  qed
next
  case (ExistingFile f p)
  obtain r db1 where c: "commitVersion (fst z2) (snd z2) f (task_hashes t) (task_size t) db = (r, db1)" by fastforce
  have "getFile db' = getFile db1"
    using run c ExistingFile getFile_replace_version by (auto simp: finish_upload_def split: sum.splits)
  with rows_kept_commit [OF wf c] show ?thesis by (simp only: rows_kept_def)
qed

lemma target_ok_kept:
  assumes ok: "target_ok db tgt" and rows: "rows_kept db db'"
    and fresh: "\<And>f p. tgt = ExistingFile f (Some p) \<Longrightarrow> \<not> redrawn db db' p"
  shows "target_ok db' tgt"
proof (cases tgt)
  case (ExistingFile f p)
  have "p \<noteq> Some u" if g: "g \<noteq> f" "getFile db' g = Some q" "current_version_id q = Some u" for g q u
  proof
    assume p: "p = Some u"
    with fresh ExistingFile g(2,3) have "getVersion db u \<noteq> None" by (auto simp: redrawn_def)
    with rows_keptD(2) [OF rows g(2,3)] have "getFile db g = Some q" by blast
    with ok g(1,3) p ExistingFile show False by (auto simp: target_ok_def)
  qed
  with ok rows_keptD(1) [OF rows, of f] ExistingFile show ?thesis by (simp add: target_ok_def)
qed (simp add: target_ok_def)

section \<open>The steps\<close>

lemma lin_inv_start: "server_inv n k P s \<Longrightarrow> lin_inv n k P (s, [], [])"
  by (simp add: lin_inv_def conc_inv_start server_inv_pointers)

text \<open>What \<open>finish\<close> does to the store.\<close>

definition takes_effect :: "sha256 \<Rightarrow> upload_task \<Rightarrow> string \<Rightarrow> metadata \<Rightarrow> metadata \<Rightarrow> bool" where
  "takes_effect sha t f db db' \<longleftrightarrow>
     (\<exists>b. carries sha t b \<and> stored db' = (stored db)(f \<mapsto> manifest_of sha b))
     \<and> (case task_target t of NewFile \<Rightarrow> stored db f = None | ExistingFile g p \<Rightarrow> g = f)"

lemma finish_effect:
  assumes inv: "lin_inv n k P (s, ts, hs)" and t: "t \<in> set ts"
    and run: "finish_upload z1 z2 t (app_db s) = (res, db')"
    and fresh: "\<forall>p \<in> remembered ts. \<not> redrawn (app_db s) db' p"
  shows "pointers_ok db'" and "res = Inl err \<Longrightarrow> stored db' = stored (app_db s)"
    and "res = Inr (f, v) \<Longrightarrow> takes_effect (sha_of P) t f (app_db s) db'"
proof -
  have wf: "metadata_wf (app_db s)" and ptr: "pointers_ok (app_db s)" and ok: "target_ok (app_db s) (task_target t)"
    using inv t conc_invD(2) by (auto simp: lin_inv_def)
  obtain b where b: "carries (sha_of P) t b" using inv t by (auto simp: lin_inv_def)
  have "pointers_ok db' \<and> (res = Inl err \<longrightarrow> stored db' = stored (app_db s))
      \<and> (res = Inr (f, v) \<longrightarrow> takes_effect (sha_of P) t f (app_db s) db')"
  proof (cases "task_target t")
    case NewFile
    from finish_new [OF wf ptr NewFile run] b show ?thesis
      by (auto simp: takes_effect_def NewFile carries_def)
  next
    case (ExistingFile g p)
    have "\<not> redrawn (app_db s) db' u" if "p = Some u" for u
      using fresh t ExistingFile that by (fastforce simp: remembered_def)
    from finish_existing [OF wf ptr ExistingFile ok [unfolded ExistingFile] run this] b show ?thesis
      by (auto simp: takes_effect_def ExistingFile carries_def)
  qed
  then show "pointers_ok db'" "res = Inl err \<Longrightarrow> stored db' = stored (app_db s)"
    "res = Inr (f, v) \<Longrightarrow> takes_effect (sha_of P) t f (app_db s) db'"
    by blast+
qed

text \<open>Every other step leaves the files and their versions alone.\<close>

definition same_files :: "metadata \<Rightarrow> metadata \<Rightarrow> bool" where
  "same_files db db' \<longleftrightarrow> getFile db' = getFile db \<and> getVersion db' = getVersion db"

lemma same_filesD:
  assumes "same_files db db'"
  shows "stored db' = stored db" "pointers_ok db' \<longleftrightarrow> pointers_ok db" "target_ok db' tgt \<longleftrightarrow> target_ok db tgt"
proof -
  have eq: "getFile db' = getFile db" "getVersion db' = getVersion db" using assms by (simp_all add: same_files_def)
  show "stored db' = stored db" by (rule stored_cong) (simp_all add: eq)
  show "pointers_ok db' \<longleftrightarrow> pointers_ok db" by (simp add: pointers_ok_def eq)
  show "target_ok db' tgt \<longleftrightarrow> target_ok db tgt" by (simp only: target_ok_def eq)
qed

lemma same_files_reap: "same_files db (reapOrphanedChunk h db)"
  by (simp add: same_files_def fun_eq_iff frame_simps)

definition kept_tasks :: "metadata \<Rightarrow> sha256 \<Rightarrow> upload_task list \<Rightarrow> bool" where
  "kept_tasks db sha ts \<longleftrightarrow> (\<forall>t \<in> set ts. (\<exists>b. carries sha t b) \<and> target_ok db (task_target t))"

lemma kept_tasks_update:
  "kept_tasks db sha (ts @ t # us) \<Longrightarrow> kept_tasks db sha (ts @ t\<lparr>task_phase := ph\<rparr> # us)"
  "kept_tasks db sha (ts @ t # us) \<Longrightarrow> kept_tasks db sha (ts @ t\<lparr>task_todo := cs, task_phase := ph\<rparr> # us)"
  "kept_tasks db sha (ts @ t # us) \<Longrightarrow> kept_tasks db sha (ts @ us)"
  by (auto simp: kept_tasks_def carries_def)

lemma lin_inv_iff:
  "lin_inv n k P (s, ts, hs) \<longleftrightarrow> exclusive (s, ts, hs) \<and> conc_inv n k P (s, ts, hs) \<and> pointers_ok (app_db s)
     \<and> kept_tasks (app_db s) (sha_of P) ts"
  by (simp add: lin_inv_def kept_tasks_def)

text \<open>What a step can be, for the store.\<close>

lemma conc_step_kinds:
  assumes "conc_step P (s, ts, hs) (s', ts', hs')" and "pointers_ok (app_db s)" and "kept_tasks (app_db s) (sha_of P) ts"
  obtains (finish) us t vs z1 z2 res where "ts = us @ t # vs" "ts' = us @ vs" "task_phase t = Ready" "task_todo t = []"
      "finish_upload z1 z2 t (app_db s) = (res, app_db s')"
  | (other) "same_files (app_db s) (app_db s')" "kept_tasks (app_db s) (sha_of P) ts'"
  using assms(1)
proof (cases rule: conc_step.cases)
  case (begin_post buf t)
  have "start_upload (sha_of P) NewFile buf = Some t" using begin_post by simp
  from start_upload_carries [OF this] assms(3) begin_post show thesis
    by (intro other) (auto simp: same_files_def kept_tasks_def target_ok_def)
next
  case (begin_put f row buf t)
  have "getFile (app_db s) f = Some row"
    and "start_upload (sha_of P) (ExistingFile f (current_version_id row)) buf = Some t" using begin_put by simp_all
  from start_upload_carries [OF this(2)] target_ok_existing [OF assms(2) this(1)] assms(3) begin_put show thesis
    by (intro other) (auto simp: same_files_def kept_tasks_def)
next
  case (gc_chunk envs hint h q db w)
  have "db = app_db s \<or> db = reapOrphanedChunk h (app_db s)"
    using gc_chunk by (auto split: prod.splits sum.splits if_splits)
  with gc_chunk assms(3) same_files_reap show thesis by (intro other) (auto simp: same_files_def)
qed (use assms(3) kept_tasks_update finish other in \<open>auto simp: same_files_def\<close>)

text \<open>The other uploads keep their targets when one of them is finished.\<close>

lemma finish_kept_tasks:
  assumes wf: "metadata_wf db" and kept: "kept_tasks db sha ts" and run: "finish_upload z1 z2 t db = (res, db')"
    and fresh: "\<forall>p \<in> remembered ts. \<not> redrawn db db' p"
  shows "kept_tasks db' sha ts"
proof -
  have "target_ok db' (task_target u)" if u: "u \<in> set ts" for u
  proof (rule target_ok_kept [OF _ finish_rows [OF wf run]])
    show "target_ok db (task_target u)" using kept u by (simp add: kept_tasks_def)
    show "\<not> redrawn db db' p" if "task_target u = ExistingFile f (Some p)" for f p
      using fresh u that by (auto simp: remembered_def)
  qed
  with kept show ?thesis by (simp add: kept_tasks_def)
qed

lemma fresh_step_inv:
  assumes step: "fresh_step P (s, ts, hs) (s', ts', hs')" and inv: "lin_inv n k P (s, ts, hs)"
  shows "lin_inv n k P (s', ts', hs')"
proof -
  have c: "conc_step P (s, ts, hs) (s', ts', hs')" and e: "exclusive (s', ts', hs')"
    and fresh: "\<forall>p \<in> remembered ts. \<not> redrawn (app_db s) (app_db s') p"
    using step by (simp_all add: fresh_step_def)
  have ptr: "pointers_ok (app_db s)" and kept: "kept_tasks (app_db s) (sha_of P) ts"
    and cinv: "conc_inv n k P (s', ts', hs')" and wf: "metadata_wf (app_db s)"
    using inv conc_step_inv [OF c] e conc_invD(2) by (auto simp: lin_inv_iff)
  from c ptr kept have "pointers_ok (app_db s') \<and> kept_tasks (app_db s') (sha_of P) ts'"
  proof (cases rule: conc_step_kinds)
    case (finish us t vs z1 z2 res)
    have "kept_tasks (app_db s') (sha_of P) (us @ t # vs)"
      using finish_kept_tasks [OF wf kept finish(5) fresh] finish(1) by simp
    with finish_effect(1) [OF inv _ finish(5) fresh] finish(1,2) kept_tasks_update(3) show ?thesis by simp
  next
    case other
    with ptr same_filesD(2) [OF other(1)] same_filesD(3) [OF other(1)] show ?thesis by (simp add: kept_tasks_def)
  qed
  with cinv e show ?thesis by (simp add: lin_inv_iff)
qed

lemma fresh_run_inv:
  assumes "rtranclp (fresh_step P) \<sigma> \<sigma>'" and "lin_inv n k P \<sigma>"
  shows "lin_inv n k P \<sigma>'"
  using assms
proof (induction rule: rtranclp_induct)
  case (step \<sigma>1 \<sigma>2)
  then show ?case using fresh_step_inv by (metis prod_cases3)
qed



end
