(* ===== verification/Workers.thy ===== *)
theory Workers
  imports Cluster Downloads
begin

text \<open>
  Overlapping uploads at many workers. The worker processes share the database file and the storage nodes, so the
  steps of their handlers interleave as those of one process do (\<open>conc_step\<close>); and a worker can exit in the
  middle of its uploads.
\<close>

section \<open>The steps\<close>

text \<open>The processes, the uploads under way at each worker, and the chunks the collector has yet to sweep.\<close>

type_synonym 'n pool = "'n deployment \<times> (nat \<Rightarrow> upload_task list) \<times> string list"

text \<open>The deployment after a worker has done something.\<close>

definition worked ::
  "(nat \<times> rate_limiter \<times> metrics) list \<Rightarrow> nat \<Rightarrow> (nat \<times> rate_limiter \<times> metrics) list \<Rightarrow> 'n app
     \<Rightarrow> 'n deployment \<Rightarrow> 'n deployment" where
  "worked us i ws s d =
     (share s d)\<lparr>d_workers := us @ (i, app_limiter s, counters (app_world s)) # ws\<rparr>"

text \<open>
  One worker takes a step of an upload, or answers a request that changes no data; the collector, a process of its
  own, takes a step; a worker exits, and its uploads with it; the primary is told to stop.
\<close>

inductive workers_step :: "platform \<Rightarrow> storage_node pool \<Rightarrow> storage_node pool \<Rightarrow> bool" for P where
  upload: "d_workers d = us @ (i, own) # ws
    \<Longrightarrow> conc_step P (worker_app d own, T i, []) (s', ts', [])
    \<Longrightarrow> workers_step P (d, T, hs) (worked us i ws s' d, T(i := ts'), hs)"
| answer: "d_workers d = us @ (i, own) # ws \<Longrightarrow> same_data (worker_app d own) s'
    \<Longrightarrow> workers_step P (d, T, hs) (worked us i ws s' d, T, hs)"
| collect: "conc_step P (worker_app d own, [], hs) (s', [], hs')
    \<Longrightarrow> workers_step P (d, T, hs) (share s' d, T, hs')"
| worker_exit: "d_primary d \<Longrightarrow> d_workers d = us @ (i, own) # ws
    \<Longrightarrow> workers_step P (d, T, hs) (fork (d\<lparr>d_workers := us @ ws\<rparr>), T(i := []), hs)"
| sigterm: "d_primary d
    \<Longrightarrow> workers_step P (d, T, hs) (d\<lparr>d_primary := False, d_workers := []\<rparr>, \<lambda>_. [], hs)"

text \<open>No upload is under way at any worker while the collector sweeps.\<close>

definition sweeps_alone :: "'n pool \<Rightarrow> bool" where
  "sweeps_alone p \<longleftrightarrow> (\<forall>i. fst (snd p) i = []) \<or> snd (snd p) = []"

abbreviation workers_run :: "platform \<Rightarrow> storage_node pool \<Rightarrow> storage_node pool \<Rightarrow> bool" where
  "workers_run P \<equiv> rtranclp (\<lambda>p p'. workers_step P p p' \<and> sweeps_alone p')"

section \<open>The invariant\<close>

definition workers_inv :: "nat \<Rightarrow> nat \<Rightarrow> platform \<Rightarrow> storage_node pool \<Rightarrow> bool" where
  "workers_inv n k P p \<longleftrightarrow> (case p of (d, T, hs) \<Rightarrow> \<forall>own i. conc_inv n k P (worker_app d own, T i, hs))"

lemma conc_step_co: "conc_step P (s, ts, hs) (s', ts', hs') \<Longrightarrow> app_co s' = app_co s"
  by (cases rule: conc_step.cases) auto

lemma conc_inv_tasks:
  "conc_inv n k P (s, ts, hs) \<Longrightarrow> (\<And>t. t \<in> set us \<Longrightarrow> task_ok P k (app_co s) (app_world s) t)
     \<Longrightarrow> conc_inv n k P (s, us, hs)"
  by (simp add: conc_inv_def)

text \<open>What a process left behind is what every other process finds.\<close>

lemma same_worker:
  assumes "app_co s = d_co d"
  shows "same_data s (worker_app (share s d) own)"
  using assms by (simp add: same_data_def worker_app_def share_def)

lemma worker_app_worked [simp]: "worker_app (worked us i ws s d) own = worker_app (share s d) own"
  by (simp add: worked_def)

lemma conc_inv_shared:
  "conc_inv n k P (s, ts, hs) \<Longrightarrow> app_co s = d_co d \<Longrightarrow> conc_inv n k P (worker_app (share s d) own, ts, hs)"
  by (rule conc_inv_same_data [OF same_worker])

lemma worker_app_co [simp]: "app_co (worker_app d own) = d_co d"
  by (simp add: worker_app_def)

text \<open>A step of one process leaves the uploads of the others as good as they were.\<close>

lemma others_keep:
  assumes step: "conc_step P (s, ts, []) (s', ts', [])" and inv: "conc_inv n k P (s, ts, [])"
    and us: "conc_inv n k P (s, us, [])"
  shows "conc_inv n k P (s', us, [])"
proof (rule conc_inv_tasks [OF conc_step_inv [OF step _ _ inv]])
  note keeps = conc_step_keeps [OF step inv]
  show "task_ok P k (app_co s') (app_world s') t" if "t \<in> set us" for t
    using task_ok_keeps [of "app_co s" "app_world s" "app_world s'"] keeps conc_invD(7) [OF us that] by simp
qed simp_all

lemma idle_step: "conc_step P (s, [], []) (s', [], []) \<Longrightarrow> s' = s"
  by (cases rule: conc_step.cases) auto

lemma workers_step_inv:
  assumes "workers_step P p p'" and "sweeps_alone p" "sweeps_alone p'" and "workers_inv n k P p"
  shows "workers_inv n k P p'"
  using assms
proof (induction rule: workers_step.induct)
  case (upload d us i own ws T s' ts' hs)
  have co: "app_co s' = d_co d" using conc_step_co [OF upload(2)] by simp
  have inv: "conc_inv n k P (worker_app d own, T j, hs)" for j
    using upload.prems(3) unfolding workers_inv_def prod.case by blast
  have "conc_inv n k P (s', (T(i := ts')) j, hs)" for j
  proof (cases "hs = []")
    case True
    with inv have inv: "conc_inv n k P (worker_app d own, T j, [])" for j by simp
    show ?thesis
      using others_keep [OF upload(2) inv inv] conc_step_inv [OF upload(2) _ _ inv] True by simp
  next
    case False
    with upload.prems(1,2) have none: "T j = []" "ts' = []" for j
      by (auto simp: sweeps_alone_def split: if_splits)
    with upload(2) idle_step have "s' = worker_app d own" by simp
    with inv [of j] none show ?thesis by simp
  qed
  from conc_inv_shared [OF this co] show ?case by (simp add: workers_inv_def)
next
  case (answer d us i own ws s' T hs)
  then have co: "app_co s' = d_co d" by (simp add: same_data_def)
  have "conc_inv n k P (worker_app d own, T j, hs)" for j
    using answer.prems(3) unfolding workers_inv_def prod.case by blast
  then have "conc_inv n k P (s', T j, hs)" for j by (rule conc_inv_same_data [OF answer(2)])
  from conc_inv_shared [OF this co] show ?case by (simp add: workers_inv_def)
next
  case (collect d own hs s' hs' T)
  have co: "app_co s' = d_co d" using conc_step_co [OF collect(1)] by simp
  have inv: "conc_inv n k P (worker_app d own, T j, hs)" for j
    using collect.prems(3) unfolding workers_inv_def prod.case by blast
  have "conc_inv n k P (s', T j, hs')" for j
  proof (cases "\<forall>i. T i = []")
    case True
    with inv [of j] conc_step_inv [OF collect(1)] show ?thesis by simp
  next
    case False
    with collect.prems(1,2) have "hs = []" "hs' = []" by (simp_all add: sweeps_alone_def)
    with collect(1) idle_step inv [of j] show ?thesis by fastforce
  qed
  from conc_inv_shared [OF this co] show ?case by (simp add: workers_inv_def)
next
  case (worker_exit d us i own ws T hs)
  then have inv: "conc_inv n k P (worker_app d own, T j, hs)" for own j
    unfolding workers_inv_def prod.case by blast
  with conc_inv_tasks [OF inv, of "[]"] show ?case by (simp add: workers_inv_def)
next
  case (sigterm d T hs)
  then have inv: "conc_inv n k P (worker_app d own, T j, hs)" for own j
    unfolding workers_inv_def prod.case by blast
  with conc_inv_tasks [OF inv, of "[]"] show ?case by (simp add: workers_inv_def)
qed

lemma workers_run_inv:
  assumes "workers_run P p p'" and "sweeps_alone p" and "workers_inv n k P p"
  shows "sweeps_alone p' \<and> workers_inv n k P p'"
  using assms by (induction rule: rtranclp_induct) (auto intro: workers_step_inv)

section \<open>Properties\<close>



end
