(* ===== verification/SharedStore.thy ===== *)
theory SharedStore
  imports Linearization Workers
begin

text \<open>
  Many workers, one object store. Uploads overlap at any number of worker processes, which share the database and
  the nodes and may exit half-way; what is stored is that of an abstract store in which each upload that ends
  well happens at once.
\<close>

section \<open>What is seen\<close>

text \<open>The target of an upload, the manifest of what it stores, and the file id it is answered with.\<close>

type_synonym upload_event = "upload_target \<times> (string list \<times> nat) \<times> string"

text \<open>The abstract store.\<close>

inductive store_upload :: "sha256 \<Rightarrow> store \<Rightarrow> upload_event option \<Rightarrow> store \<Rightarrow> bool" for sha where
  created: "m f = None \<Longrightarrow> store_upload sha m (Some (NewFile, manifest_of sha b, f)) (m(f \<mapsto> b))"
| updated: "store_upload sha m (Some (ExistingFile f p, manifest_of sha b, f)) (m(f \<mapsto> b))"

text \<open>A step of the workers that is the good end of an upload.\<close>

definition ends :: "'n pool \<Rightarrow> 'n pool \<Rightarrow> upload_task \<Rightarrow> string \<Rightarrow> bool" where
  "ends p p' t f \<longleftrightarrow>
     (\<exists>i us vs z1 z2 v. fst (snd p) i = us @ t # vs \<and> fst (snd p') i = us @ vs \<and> task_todo t = []
        \<and> finish_upload z1 z2 t (d_db (fst p)) = (Inr (f, v), d_db (fst p')))"

lemma endsI:
  assumes "fst (snd p) i = us @ t # vs" and "fst (snd p') i = us @ vs" and "task_todo t = []"
    and "finish_upload z1 z2 t (d_db (fst p)) = (Inr (f, v), d_db (fst p'))"
  shows "ends p p' t f"
  unfolding ends_def using assms by blast

text \<open>Steps that draw no version id again which an update somewhere holds, and no sweep beside an upload.\<close>

definition fresh_workers_step :: "platform \<Rightarrow> storage_node pool \<Rightarrow> storage_node pool \<Rightarrow> bool" where
  "fresh_workers_step P p p' \<longleftrightarrow> workers_step P p p' \<and> sweeps_alone p'
     \<and> (\<forall>i. \<forall>v \<in> remembered (fst (snd p) i). \<not> redrawn (d_db (fst p)) (d_db (fst p')) v)"

inductive workers_event ::
  "platform \<Rightarrow> storage_node pool \<Rightarrow> upload_event option \<Rightarrow> storage_node pool \<Rightarrow> bool" for P where
  ended: "fresh_workers_step P p p' \<Longrightarrow> ends p p' t f
    \<Longrightarrow> workers_event P p (Some (task_target t, (task_hashes t, task_size t), f)) p'"
| silent: "fresh_workers_step P p p' \<Longrightarrow> (\<And>t f. \<not> ends p p' t f) \<Longrightarrow> workers_event P p None p'"

section \<open>The simulation\<close>

lemma kept_tasks_Nil [simp]: "kept_tasks db sha []"
  by (simp add: kept_tasks_def)

lemma db_worker [simp]: "app_db (worker_app d own) = d_db d" "d_db (share s d) = app_db s"
    "d_db (worked us i ws s d) = app_db s" "d_db (fork d) = d_db d"
  by (simp_all add: worker_app_def share_def worked_def fork_def)

text \<open>What a step of the workers can be, for the store.\<close>

lemma workers_step_kinds:
  assumes "workers_step P (d, T, hs) (d', T', hs')" and "pointers_ok (d_db d)"
    and kept: "\<And>j. kept_tasks (d_db d) (sha_of P) (T j)"
  obtains (finish) i us t vs z1 z2 res where "T i = us @ t # vs" "T' = T(i := us @ vs)" "task_todo t = []"
      "finish_upload z1 z2 t (d_db d) = (res, d_db d')"
  | (other) "same_files (d_db d) (d_db d')" "\<And>j. kept_tasks (d_db d) (sha_of P) (T' j)"
  using assms(1)
proof (cases rule: workers_step.cases)
  case (upload us i own ws s' ts')
  have step: "conc_step P (worker_app d own, T i, []) (s', ts', [])" using upload by simp
  have "pointers_ok (app_db (worker_app d own))" "kept_tasks (app_db (worker_app d own)) (sha_of P) (T i)"
    using assms(2) kept by simp_all
  with step show thesis
  proof (cases rule: conc_step_kinds)
    case fin: (finish us' t vs' z1 z2 res)
    show thesis by (rule finish [of i us' t vs' z1 z2 res]) (use fin upload in simp_all)
  next
    case oth: other
    show thesis by (rule other) (use oth upload kept in simp_all)
  qed
next
  case (answer us i own ws s')
  then have "app_db s' = d_db d" by (simp add: same_data_def)
  with answer kept show thesis by (intro other) (simp_all add: same_files_def)
next
  case (collect own s')
  have step: "conc_step P (worker_app d own, [], hs) (s', [], hs')" using collect by simp
  have "pointers_ok (app_db (worker_app d own))" using assms(2) by simp
  with step have "same_files (d_db d) (app_db s')" by (cases rule: conc_step_kinds) simp_all
  with collect kept show thesis by (intro other) simp_all
qed (use kept in \<open>auto intro!: other simp: same_files_def\<close>)

definition pool_lin :: "nat \<Rightarrow> nat \<Rightarrow> platform \<Rightarrow> storage_node pool \<Rightarrow> bool" where
  "pool_lin n k P p \<longleftrightarrow> workers_inv n k P p \<and> sweeps_alone p \<and> pointers_ok (d_db (fst p))
     \<and> (\<forall>j. kept_tasks (d_db (fst p)) (sha_of P) (fst (snd p) j))"

text \<open>The last step of an upload at a worker.\<close>

lemma worker_finish:
  assumes inv: "pool_lin n k P (d, T, hs)" and t: "t \<in> set (T i)"
    and run: "finish_upload z1 z2 t (d_db d) = (res, db')"
    and fresh: "\<And>j. \<forall>v \<in> remembered (T j). \<not> redrawn (d_db d) db' v"
  shows "pointers_ok db'" and "kept_tasks db' (sha_of P) (T j)"
    and "res = Inl err \<Longrightarrow> stored db' = stored (d_db d)"
    and "res = Inr (f, v) \<Longrightarrow> takes_effect (sha_of P) t f (d_db d) db'"
proof -
  let ?s = "worker_app d (new_limiter 500 300, no_metrics)"
  have c: "conc_inv n k P (?s, T i, hs)" and kept: "kept_tasks (d_db d) (sha_of P) (T j)" for j
    using inv by (simp_all add: pool_lin_def workers_inv_def)
  then have "lin_inv n k P (?s, T i, [])"
    using inv by (simp add: pool_lin_def lin_inv_iff conc_inv_def)
  note eff = finish_effect [OF this t, unfolded db_worker, OF run fresh]
  show "pointers_ok db'" by (rule eff(1))
  show "stored db' = stored (d_db d)" if "res = Inl err" using eff(2) that .
  show "takes_effect (sha_of P) t f (d_db d) db'" if "res = Inr (f, v)" using eff(3) that .
  show "kept_tasks db' (sha_of P) (T j)"
    using finish_kept_tasks [OF _ kept run fresh] conc_invD(2) [OF c] by simp
qed

definition shares_store :: "nat \<Rightarrow> nat \<Rightarrow> platform \<Rightarrow> store \<Rightarrow> storage_node pool \<Rightarrow> bool" where
  "shares_store n k P m p \<longleftrightarrow> pool_lin n k P p \<and> represents (sha_of P) m (d_db (fst p))"

text \<open>Every step keeps the invariant; it ends an upload, or stores nothing.\<close>

lemma fresh_workers_step_inv:
  assumes step: "fresh_workers_step P p p'" and inv: "pool_lin n k P p"
  shows "pool_lin n k P p'"
    and "(\<exists>t f. ends p p' t f) \<or> stored (d_db (fst p')) = stored (d_db (fst p))"
proof -
  obtain d T hs d' T' hs' where p: "p = (d, T, hs)" "p' = (d', T', hs')" by (metis prod_cases3)
  have w: "workers_step P (d, T, hs) (d', T', hs')" and alone: "sweeps_alone (d', T', hs')"
    and fresh: "\<And>j. \<forall>v \<in> remembered (T j). \<not> redrawn (d_db d) (d_db d') v"
    using step by (auto simp: fresh_workers_step_def p)
  have ptr: "pointers_ok (d_db d)" and kept: "\<And>j. kept_tasks (d_db d) (sha_of P) (T j)"
    and winv: "workers_inv n k P (d', T', hs')"
    using inv workers_step_inv [OF w] alone by (simp_all add: pool_lin_def p)
  from w ptr kept have "pointers_ok (d_db d') \<and> (\<forall>j. kept_tasks (d_db d') (sha_of P) (T' j))
      \<and> ((\<exists>t f. ends p p' t f) \<or> stored (d_db d') = stored (d_db d))"
  proof (cases rule: workers_step_kinds)
    case (finish i us t vs z1 z2 res)
    have t: "t \<in> set (T i)" using finish(1) by simp
    note fin = worker_finish [OF inv [unfolded p] t finish(4) fresh]
    have "kept_tasks (d_db d') (sha_of P) (us @ vs)" using fin(2) [of i] finish(1) kept_tasks_update(3) by simp
    with fin(2) finish(2) have tasks: "kept_tasks (d_db d') (sha_of P) (T' j)" for j by simp
    have "(\<exists>t f. ends p p' t f) \<or> stored (d_db d') = stored (d_db d)"
    proof (cases res)
      case (Inl err)
      with fin(3) show ?thesis by blast
    next
      case (Inr q)
      then obtain f v where "res = Inr (f, v)" by (cases q) simp
      with finish show ?thesis by (intro disjI1 exI [of _ t] exI [of _ f] endsI [of p i us t vs p' z1 z2 f v])
          (simp_all add: p)
    qed
    with fin(1) tasks show ?thesis by blast
  next
    case other
    note same = same_filesD [OF other(1)]
    have "kept_tasks (d_db d') (sha_of P) (T' j)" for j using other(2) [of j] same(3) by (simp add: kept_tasks_def)
    with ptr same(1,2) show ?thesis by simp
  qed
  with winv alone show "pool_lin n k P p'"
    and "(\<exists>t f. ends p p' t f) \<or> stored (d_db (fst p')) = stored (d_db (fst p))"
    by (auto simp: pool_lin_def p)
qed

lemma ends_effect:
  assumes "fresh_workers_step P p p'" and "pool_lin n k P p" and "ends p p' t f"
  shows "takes_effect (sha_of P) t f (d_db (fst p)) (d_db (fst p'))"
proof -
  obtain d T hs where p: "p = (d, T, hs)" by (metis prod_cases3)
  obtain i us vs z1 z2 v where e: "T i = us @ t # vs"
    "finish_upload z1 z2 t (d_db d) = (Inr (f, v), d_db (fst p'))"
    using assms(3) by (auto simp: ends_def p)
  have fresh: "\<And>j. \<forall>v \<in> remembered (T j). \<not> redrawn (d_db d) (d_db (fst p')) v"
    using assms(1) by (simp add: fresh_workers_step_def p)
  have "t \<in> set (T i)" by (simp add: e(1))
  from worker_finish(4) [OF assms(2) [unfolded p] this e(2) fresh refl] show ?thesis by (simp add: p)
qed

text \<open>An upload that takes effect is a step of the abstract store.\<close>

lemma effect_simulated:
  assumes rep: "represents sha m db" and eff: "takes_effect sha t f db db'"
  shows "\<exists>m'. store_upload sha m (Some (task_target t, (task_hashes t, task_size t), f)) m' \<and> represents sha m' db'"
proof -
  obtain b where b: "(task_hashes t, task_size t) = manifest_of sha b"
    and db': "stored db' = (stored db)(f \<mapsto> manifest_of sha b)"
    using eff by (auto simp: takes_effect_def carries_def)
  have "store_upload sha m (Some (task_target t, manifest_of sha b, f)) (m(f \<mapsto> b))"
  proof (cases "task_target t")
    case NewFile
    with eff representsD [OF rep, of f] have "m f = None" by (simp add: takes_effect_def)
    with NewFile store_upload.created show ?thesis by simp
  next
    case (ExistingFile g p)
    with eff have "g = f" by (simp add: takes_effect_def)
    with ExistingFile store_upload.updated show ?thesis by simp
  qed
  with represents_update [OF rep db'] b show ?thesis by auto
qed

lemma workers_event_simulated:
  assumes "shares_store n k P m p" and "workers_event P p e p'"
  shows "\<exists>m'. (store_upload (sha_of P) m e m' \<or> e = None \<and> m' = m) \<and> shares_store n k P m' p'"
proof -
  have inv: "pool_lin n k P p" and rep: "represents (sha_of P) m (d_db (fst p))"
    using assms(1) by (simp_all add: shares_store_def)
  from assms(2) show ?thesis
  proof cases
    case (ended t f)
    from effect_simulated [OF rep ends_effect [OF ended(2) inv ended(3)]]
      fresh_workers_step_inv(1) [OF ended(2) inv] ended(1)
    show ?thesis by (auto simp: shares_store_def)
  next
    case silent
    then have "stored (d_db (fst p')) = stored (d_db (fst p))"
      using fresh_workers_step_inv(2) [OF silent(2) inv] by blast
    from represents_same [OF rep this] fresh_workers_step_inv(1) [OF silent(2) inv] silent(1) show ?thesis
      by (auto simp: shares_store_def)
  qed
qed

interpretation workers_store: forward_simulation "store_upload (sha_of P)" "workers_event P" "shares_store n k P"
  for P n k
  by unfold_locales (rule workers_event_simulated)

section \<open>Properties\<close>


text \<open>Two uploads of an empty file at one of four workers; one of them ends.\<close>

lemma worked_same: "d_workers d = us @ (i, own) # ws \<Longrightarrow> worked us i ws (worker_app d own) d = d"
  by (simp add: worked_def share_def worker_app_def)

lemma begin_event:
  assumes "d_workers d = us @ (i, own) # ws" and "start_upload (sha_of P) NewFile buf = Some t"
    and "\<And>j. remembered (T j) = {}"
  shows "workers_event P (d, T, []) None (d, T(i := t # T i), [])"
proof (rule workers_event.silent)
  have "workers_step P (d, T, []) (worked us i ws (worker_app d own) d, T(i := t # T i), [])"
    by (rule workers_step.upload [OF assms(1) conc_step.begin_post [OF assms(2)]])
  then show "fresh_workers_step P (d, T, []) (d, T(i := t # T i), [])"
    using assms(1,3) by (simp add: fresh_workers_step_def sweeps_alone_def worked_same)
  show "\<not> ends (d, T, []) (d, T(i := t # T i), []) u f" for u f
    by (auto simp: ends_def)
qed


end
