(* ===== verification/Spec2Isabelle.thy ===== *)
theory Spec2Isabelle
  imports Allowance AtomicWrite Restart Observability SharedStore
begin

text \<open>
  A model of a distributed, content-addressable object store (JavaScript, \<^verbatim>\<open>src/*.js\<close>) and
  the theorems that make it correct.

  THE PROGRAM. A client uploads a file to the server (\<^verbatim>\<open>server.js\<close>). The server cuts it into chunks of
  fixed size (\<^verbatim>\<open>chunker.js\<close>), each named by its SHA-256 digest, and has the coordinator
  (\<^verbatim>\<open>coordinator.js\<close>) write each chunk to N storage nodes over HTTP; the write counts if W nodes
  acknowledge it. Which nodes these are is the chunk's preference list, from a consistent-hash ring
  (\<^verbatim>\<open>hashRing.js\<close>). A storage node (\<^verbatim>\<open>storageNode.js\<close>) keeps chunks in files (\<^verbatim>\<open>chunkStore.js\<close>). Files,
  versions, their lists of chunks (manifests) and the number of references to each chunk are in a SQL database
  (\<^verbatim>\<open>metadataStore.js\<close>). A download reads the chunks back, each from the first node of its
  preference list that returns bytes with the right digest. A garbage collector (\<^verbatim>\<open>gc.js\<close>) deletes
  the chunks whose count is zero from the nodes. Around this are a token-bucket rate limiter
  (\<^verbatim>\<open>rateLimiter.js\<close>), presigned URLs (\<^verbatim>\<open>presign.js\<close>), the configuration from the environment
  (\<^verbatim>\<open>topology.js\<close>), counters and histograms (\<^verbatim>\<open>metrics.js\<close>), a primary process that keeps a number of worker
  processes running (\<^verbatim>\<open>cluster.js\<close>), and a script that launches the storage nodes of one machine
  (\<^verbatim>\<open>scripts/startStorageNodes.js\<close>).

  HOW IT IS MODELLED. Every operation is a function from its arguments and the state to its result and
  the next state, with the code's branches in the code's order; exceptions are values of \<open>js_error\<close>
  (left of a sum). What the code cannot know is an argument: the digests and HMAC, readings of the
  clock, random bytes, how long a call or a request took, and for every call over the network its fate
  (answered, lost, carried out but not answered, answered with other bytes). The theorems hold for all
  of these.

  THE THEORIES.
  \<^item> \<open>Prelude\<close>: bytes, digests, errors, JavaScript numbers, hexadecimal and decimal text, list lemmas, and
    the collections \<open>fs_simps\<close>, \<open>db_simps\<close>, \<open>frame_simps\<close>.
  \<^item> \<open>Chunker\<close>: the loop of \<^verbatim>\<open>chunkBuffer\<close>, as a partial function, against the reference \<open>blocks\<close>; it
    returns unless the chunk size is 0.
  \<^item> \<open>HashRing\<close>: \<^verbatim>\<open>addNode\<close>, \<^verbatim>\<open>removeNode\<close>, \<^verbatim>\<open>preferenceList\<close> with the 32-bit midpoint of its binary
    search; equal to the abstract clockwise order \<open>node_order\<close>; how placements change with the ring.
  \<^item> \<open>FileSystem\<close>, \<open>ChunkStore\<close>: the calls of \<^verbatim>\<open>node:fs\<close> on a directory tree and the store on top of
    them, refined to a map from names to bytes (\<open>copies\<close>). \<open>AtomicWrite\<close>: the same \<^verbatim>\<open>put\<close> call by call,
    for any number of writers that interleave and crash.
  \<^item> \<open>ChunkService\<close>, \<open>StorageNode\<close>: the HTTP requests and responses of a node, the contract the
    coordinator relies on (locale \<open>chunk_service\<close>), the handlers, and the interpretation of the
    contract on them.
  \<^item> \<open>Metrics\<close>, \<open>Coordinator\<close>, \<open>Quorum\<close>: the counters, and the histograms as lists of observations; \<^verbatim>\<open>putChunk\<close>, \<^verbatim>\<open>getChunk\<close>, \<^verbatim>\<open>deleteChunk\<close>; and what they
    achieve, proved inside the contract and applied to the model's nodes.
  \<^item> \<open>MetadataStore\<close>: the four tables as lists of rows, every statement with its constraints; counts are
    exact in every reachable database.
  \<^item> \<open>GcInterface\<close>, \<open>Gc\<close>: what the collector needs of the tables (locale \<open>refcount_table\<close>) and of the
    coordinator (locale \<open>chunk_deleter\<close>), the sweep proved against both (locale \<open>sweep\<close>), and the
    interpretations on the model's definitions.
  \<^item> \<open>JsNumber\<close>, \<open>Topology\<close>: \<^verbatim>\<open>Number\<close> and \<^verbatim>\<open>String\<close> on decimal digits; the node list, N and W from the
    environment, and the coordinator built from them.
  \<^item> \<open>RateLimiter\<close>: token buckets over the rationals with a rounding function; \<open>Presign\<close>: signing and
    verification.
  \<^item> \<open>Url\<close>: the URLs of the topology as the global \<^verbatim>\<open>URL\<close> reads them, and \<^verbatim>\<open>path.join\<close> as \<^verbatim>\<open>node:fs\<close> follows it.
  \<^item> \<open>Server\<close>: every route, the rate-limiter hook, the hook that observes each response, and the request the
    server injects into itself.
  \<^item> \<open>Durability\<close>: the invariant \<open>server_inv\<close> of the whole system and that every handler and every
    sweep keeps it. \<open>EndToEnd\<close>: runs of requests and sweeps (\<open>server_step\<close>), what stays readable, and
    what requests leave alone. \<open>Availability\<close>: uploads succeed while enough nodes answer.
  \<^item> \<open>ObjectStore\<close>: what the server is for its clients, a map from file ids to contents (\<open>store_step\<close>); every run
    of requests and sweeps is a run of it, by an interpretation of the locale \<open>forward_simulation\<close>.
  \<^item> \<open>CallInvariant\<close>: what the calls to the nodes, the counters and the histograms keep, every request and every
    sweep keeps (locales \<open>call_invariant\<close>, \<open>request_invariant\<close>).
  \<^item> \<open>Observability\<close>: what the histograms show of requests and chunk writes, by an interpretation of
    \<open>call_invariant\<close>.
  \<^item> \<open>Concurrency\<close>: uploads that overlap, as steps between the \<^verbatim>\<open>await\<close>s (\<open>conc_step\<close>), with a collector
    beside them; what remains true, and two races of the code. \<open>Downloads\<close>: downloads call by call among these
    steps (\<open>download_step\<close>); what they return, that they end, and a race with a sweep. \<open>Linearization\<close>: what
    overlapping uploads are for the abstract store; each takes effect at its last step, at once. This assumes
    that random ids are not drawn again while an update holds them (\<open>fresh_step\<close>).
  \<^item> \<open>Launcher\<close>: the environment of a storage node's process, the launcher's loop, the processes on a machine
    with its ports and its disk (\<open>launch_step\<close>), and what such a machine is as a cluster of nodes. \<open>Processes\<close>: every
    run of the server on named nodes is one on launched processes, by an interpretation of
    \<open>request_invariant\<close>. \<open>Restart\<close>: the command lines of the server and of the collector, the database on
    disk, and what survives stopping everything and starting it again.
  \<^item> \<open>Cluster\<close>: the primary and its workers. \<open>Allowance\<close>: how many requests of a client they grant, by what is left
    in the buckets of all of them. \<open>Workers\<close>: uploads that overlap at many workers, some of which exit half-way
    (\<open>workers_step\<close>). \<open>SharedStore\<close>: these, too, are one abstract store in which each upload happens at once, by
    a second interpretation of \<open>forward_simulation\<close>.
  \<^item> this theory: the properties that span the components.

  THE INVARIANT OF THE SYSTEM (\<open>server_inv n k\<close>): the ring is well-formed and N = \<open>n\<close>, W = \<open>k\<close> are numbers; the
  tables are consistent and counts exact (\<open>metadata_wf\<close>), every file has at most its current version
  (\<open>tight\<close>), all chunk names are well-formed; the trees of the nodes are well-formed, every copy anywhere
  hashes to its name, and every chunk of every version has at least \<open>k\<close> copies on the nodes of its
  preference list. A promise about reading is always of the form: with fewer than \<open>k\<close> nodes failing
  during the read.

  BOUNDS. Loops of the code that may not end are partial functions and their termination is a
  theorem; no fuel is used. Theorems about placement assume fewer than \<open>2 ^ 31\<close> ring entries, the range
  in which the code's unsigned shift computes the midpoint; with 100 entries per node that is more than 21
  million nodes. Numbers in decimal are exact up to fifteen digits.

  NOT MODELLED. The benchmarks, tests, container and cloud configuration. Of the modelled files: what is
  written to the console; how the histograms sort observations into buckets, the default metrics and
  the text format of \<^verbatim>\<open>/metrics\<close> (the library \<^verbatim>\<open>prom-client\<close>); the framework's parsing of bodies and its
  size limits; the HTTP agent and its time-outs (a call that times out is one whose answer is lost);
  the SQL engine's locking (a transaction is one step); query parameters given twice; hosts in a
  topology other than this machine, the ports \<^verbatim>\<open>fetch\<close> refuses, and data directories inside one another.
\<close>

section \<open>Properties of the whole system\<close>

text \<open>
  C1: the invariant of the system. From the server as it starts with well-formed nodes that
  hold only good copies, whatever requests clients send one after the other, whatever happens
  to the calls to the nodes, and whenever the collector sweeps: the tables stay consistent,
  every chunk of every version has at least W (or as many as there are nodes) copies on the
  nodes of its preference list, every copy on every node is good, and a file has at most one
  version.
\<close>

theorem system_invariant:
  assumes "100 * length (server_nodes env topology) < 2 ^ 31"
    and "env_number (number_of P) (REPLICATION_FACTOR env) 3 = js_nat n"
    and "env_number (number_of P) (WRITE_QUORUM env) 2 = js_nat k"
    and "cluster_ok w" and "cluster_sound (sha_of P) w"
    and "rtranclp (server_step P (\<lambda>_. True)) (buildServer P env topology w) s"
  shows "metadata_wf (app_db s)
    \<and> (\<forall>v ver h. getVersion (app_db s) v = Some ver \<longrightarrow> h \<in> set (chunkHashes ver) \<longrightarrow>
         min k (length (server_nodes env topology))
           \<le> card (holders (sha1_of P) (app_co s) (app_world s) h))
    \<and> (\<forall>x h b. replica (app_co s) (app_world s) x h = Some b \<longrightarrow> sha256_hex (sha_of P) b = h)
    \<and> (\<forall>f. length (listVersions (app_db s) f) \<le> 1)"
proof -
  note inv = server_run_inv [OF assms(6) built_server_inv [OF assms(1-5)]]
  show ?thesis
    using server_invD(5,8) [OF inv] refs_valid(1) [OF server_invD(2) [OF inv]]
      replica_sound [OF server_invD(4) [OF inv]] tight_versions [OF server_invD(5,6) [OF inv]]
    by blast
qed

theorem system_invariant_witness:
  "\<forall>f. length (listVersions (app_db (gc_step demo_platform (\<lambda>_. demo_env {}) None
      (buildServer demo_platform demo_environment None demo_world))) f) \<le> 1"
proof -
  let ?s = "buildServer demo_platform demo_environment None demo_world"
  have "rtranclp (server_step demo_platform (\<lambda>_. True)) ?s (gc_step demo_platform (\<lambda>_. demo_env {}) None ?s)"
    by (intro r_into_rtranclp server_step.sweep)
  from system_invariant [OF demo_nodes demo_numbers(2,3) demo_world_ok demo_world_sound this] show ?thesis by blast
qed

text \<open>
  C3: what was uploaded can be downloaded. After \<^verbatim>\<open>POST /files\<close> was answered with 201, the file
  is new, and whatever requests other than updates of this very file and whatever sweeps
  follow, a download during which fewer than W nodes are unreachable or misbehave is answered
  with 200 and the uploaded content (or one that collides with it chunk by chunk).
\<close>

theorem upload_then_download:
  assumes "server_inv n k P s"
    and "route (node_serve (sha_of P)) P e (PostFile body) s = (r, s1)" and "status r = 201"
  shows "\<exists>f v buf. body = Buffer buf \<and> getFile (app_db s) f = None
    \<and> r = reply 201 (Created f v (length (blocks DEFAULT_CHUNK_SIZE buf)) (length buf))
    \<and> readable P k s1 f buf"
proof -
  have run: "post_file (node_serve (sha_of P)) P e body s = (r, s1)" using assms(2) by simp
  show ?thesis
    by (rule post_created [OF assms(1) run assms(3)])
      (use stored_readable [OF post_file_inv [OF assms(1) run]] in blast)
qed

theorem upload_then_download_witness:
  "\<exists>r s1 f. route (node_serve demo_sha) demo_platform (demo_request {''b''} [1])
     (PostFile (Buffer [9])) demo_app = (r, s1) \<and> readable demo_platform 2 s1 f [9]"
proof -
  obtain r s1 where run: "route (node_serve demo_sha) demo_platform (demo_request {''b''} [1])
     (PostFile (Buffer [9])) demo_app = (r, s1)" "status r = 201"
    using demo_upload by blast
  then have "route (node_serve (sha_of demo_platform)) demo_platform (demo_request {''b''} [1])
     (PostFile (Buffer [9])) demo_app = (r, s1)"
    by (simp add: demo_platform_def)
  from upload_then_download [OF demo_app_inv this run(2)] run(1) show ?thesis by auto
qed

text \<open>
  C4: an update replaces the content, and nothing else. After \<^verbatim>\<open>PUT /files/:fileId\<close> was answered
  with 200, the file reads as the new content in the same sense as after an upload, the
  version it had before is gone, and every other file still has its version with its chunks,
  also if it shares chunks with the old content.
\<close>

theorem update_then_download:
  assumes "server_inv n k P s"
    and "route (node_serve (sha_of P)) P e (PutFile f body) s = (r, s1)" and "status r = 200"
  shows "(\<exists>buf row v. body = Buffer buf \<and> getFile (app_db s) f = Some row
      \<and> r = reply 200 (Updated f v (current_version_id row)
          (length (blocks DEFAULT_CHUNK_SIZE buf)) (length buf))
      \<and> readable P k s1 f buf
      \<and> (\<forall>p. current_version_id row = Some p \<longrightarrow> getVersion (app_db s1) p = None))
    \<and> (\<forall>g v hs. g \<noteq> f \<longrightarrow> stored_version s g v hs \<longrightarrow> stored_version s1 g v hs)"
proof -
  have run: "put_file (node_serve (sha_of P)) P e f body s = (r, s1)" using assms(2) by simp
  show ?thesis
  proof (rule conjI)
    show "\<forall>g v hs. g \<noteq> f \<longrightarrow> stored_version s g v hs \<longrightarrow> stored_version s1 g v hs"
      using stored_version_put [OF assms(1) _ run] by blast
  qed (rule put_updated [OF assms(1) run assms(3)],
      use stored_readable [OF put_file_inv [OF assms(1) run]] in blast)
qed

theorem update_then_download_witness:
  "\<exists>r s1. route (node_serve demo_sha) demo_platform (demo_request {''b''} [1])
     (PutFile ''file_01'' (Buffer [9])) demo_file_app = (r, s1) \<and> readable demo_platform 2 s1 ''file_01'' [9]"
proof -
  obtain r s1 where run: "route (node_serve demo_sha) demo_platform (demo_request {''b''} [1])
     (PutFile ''file_01'' (Buffer [9])) demo_file_app = (r, s1)" "status r = 200"
    using demo_update by blast
  then have "route (node_serve (sha_of demo_platform)) demo_platform (demo_request {''b''} [1])
     (PutFile ''file_01'' (Buffer [9])) demo_file_app = (r, s1)"
    by (simp add: demo_platform_def)
  from update_then_download [OF demo_file_app_inv this run(2)] run(1) show ?thesis by auto
qed

text \<open>
  C26: a request that is not answered with success changes nothing a client can read. Whether
  it was refused by the rate limiter, named no file, had no body, or failed half-way through an
  upload, every file and every version is as before, no reference count has changed, and no
  copy of any chunk has been removed or overwritten.
\<close>

theorem failed_request_changes_nothing:
  assumes "server_inv n k P s"
    and "handle (node_serve (sha_of P)) P e client req s = (r, s')" and "status r \<notin> {200, 201}"
  shows "(\<forall>f row. getFile (app_db s) f = Some row \<longrightarrow> getFile (app_db s') f = Some row)
    \<and> (\<forall>v. getVersion (app_db s') v = getVersion (app_db s) v)
    \<and> chunk_refcounts (app_db s') = chunk_refcounts (app_db s)
    \<and> (\<forall>x h b. replica (app_co s) (app_world s) x h = Some b
         \<longrightarrow> replica (app_co s) (app_world s') x h = Some b)"
  using handle_failed [OF assms] handle_keeps [OF assms(1,2)] by (simp add: keeps_def)

theorem failed_request_changes_nothing_witness:
  "getFile (app_db (snd (handle (node_serve demo_sha) demo_platform (demo_request {} [1])
      (None, ''10.0.0.1'') (PutFile ''file_01'' Other) demo_file_app))) ''file_01''
    = Some \<lparr>file_id = ''file_01'', file_created_at = 1, current_version_id = None\<rparr>"
proof -
  obtain r s' where run: "handle (node_serve (sha_of demo_platform)) demo_platform (demo_request {} [1])
      (None, ''10.0.0.1'') (PutFile ''file_01'' Other) demo_file_app = (r, s')"
    by fastforce
  have "status r \<notin> {200, 201}"
    by (rule handle_cases [OF run]) (auto simp: put_file_def split: option.splits)
  from failed_request_changes_nothing [OF demo_file_app_inv run this] demo_file_row run
  show ?thesis by (simp add: demo_platform_def)
qed

text \<open>
  Chunks of a failed upload are never collected. If an upload fails, the copies it has
  already stored of a chunk that no version ever contained stay on their nodes through every
  later sweep, and no count mentions them: the collector only knows chunks that were once
  committed.
\<close>

theorem failed_upload_leaks:
  assumes "server_inv n k P s"
    and "route (node_serve (sha_of P)) P e (PostFile body) s = (r, s1)" and "status r = 500"
    and "h \<notin> refcount_hash ` set (chunk_refcounts (app_db s))"
    and "replica (app_co s) (app_world s1) x h = Some b"
    and "rtranclp (server_step P reads_only) s1 s2"
  shows "replica (app_co s) (app_world s2) x h = Some b
    \<and> h \<notin> refcount_hash ` set (chunk_refcounts (app_db s2))"
proof -
  have inv: "server_inv n k P s1" by (rule route_inv [OF assms(1,2)])
  have co: "app_co s1 = app_co s"
    using app_co_route [of "node_serve (sha_of P)" P e "PostFile body" s] assms(2) by simp
  have "h \<notin> refcount_hash ` set (chunk_refcounts (app_db s1))"
    using route_failed [OF assms(1,2)] assms(3,4) by simp
  from unlisted_run [OF assms(6) inv this, of x] assms(5) show ?thesis by (simp add: co)
qed

theorem failed_upload_leaks_witness:
  "\<exists>r s1 x. route (node_serve demo_sha) demo_platform (demo_request {''b''} [1])
      (PostFile (Buffer [9])) demo_file_app = (r, s1) \<and> status r = 500
    \<and> replica demo (app_world (gc_step demo_platform (\<lambda>_. demo_env {}) None s1)) x
        (sha256_hex demo_sha [9]) = Some [9]"
proof -
  let ?h = "sha256_hex demo_sha [9]"
  obtain r s1 x where run: "route (node_serve demo_sha) demo_platform (demo_request {''b''} [1])
      (PostFile (Buffer [9])) demo_file_app = (r, s1)" "status r = 500"
      "replica demo (app_world s1) x ?h = Some [9]"
    using demo_failed_upload by blast
  then have run': "route (node_serve (sha_of demo_platform)) demo_platform (demo_request {''b''} [1])
      (PostFile (Buffer [9])) demo_file_app = (r, s1)"
    by (simp add: demo_platform_def)
  have co: "app_co demo_file_app = demo" by (simp add: demo_file_app_def demo_app_def)
  have "?h \<notin> refcount_hash ` set (chunk_refcounts (app_db demo_file_app))"
    by (simp add: demo_file_app_def createFile_def empty_db_def Let_def)
  moreover have "rtranclp (server_step demo_platform reads_only) s1
      (gc_step demo_platform (\<lambda>_. demo_env {}) None s1)"
    by (intro r_into_rtranclp server_step.sweep)
  ultimately show ?thesis
    using failed_upload_leaks [OF demo_file_app_inv run' run(2), unfolded co, OF _ run(3)] run by blast
qed

text \<open>
  C40: presigned downloads share one allowance. The server injects the download into itself,
  so besides the client's own bucket it is charged to the bucket of the injector's address: once
  this one is empty, every client's presigned download is refused, with a valid signature and
  whatever is left of the client's own allowance.
\<close>

theorem presigned_shared_bucket:
  assumes "fst (allow (round_of P) (limiter_clock e) (client_key (fst client) (snd client)) 1
      (app_limiter s))"
    and "client_key (fst client) (snd client) \<noteq> inject_ip P"
    and "map_of (buckets (app_limiter s)) (inject_ip P) = Some b"
    and "tokens (refill (round_of P) (snd (inject_clock e)) b) < 1"
    and "verifyPresigned (hmac_of P) (secret_of P) (number_of P) (string_of P) (sign_now e)
      ''GET'' (presigned_path f) query = Inr ()"
  shows "fst (handle serve P e client (DownloadPresigned f query) s)
    = reply 429 (ErrorMessage ''rate limit exceeded'')"
proof -
  obtain rl where rl: "allow (round_of P) (limiter_clock e) (client_key (fst client) (snd client)) 1
      (app_limiter s) = (True, rl)"
    using assms(1) by (metis (full_types) eq_fst_iff)
  have "map_of (buckets rl) (inject_ip P) = Some b"
    using allow_frame(3) [OF assms(2) [symmetric], of "round_of P" "limiter_clock e" 1 "app_limiter s"]
      assms(3) rl by simp
  then have "\<not> fst (allow (round_of P) (inject_clock e) (inject_ip P) 1 rl)"
    using assms(4) by (simp add: allow_def bucketFor_def tryConsume_def Let_def split_beta)
  then show ?thesis
    by (simp add: handle_def observed_def limited_def rl download_presigned_def assms(5) split_beta)
qed

theorem presigned_shared_bucket_witness:
  "status (fst (handle (node_serve demo_sha) demo_platform (demo_request {} [1]) (Some ''alice'', ''10.0.0.1'')
     (DownloadPresigned ''file_01'' (Some (decimal (1 + 300 * 1000)), Some (presigned_signature
        (presign (\<lambda>_ _. 0) ''key'' (\<lambda>_. []) 1 ''GET'' (presigned_path ''file_01'') 300))))
     (demo_app\<lparr>app_limiter := (new_limiter 500 300)\<lparr>buckets :=
        [(''127.0.0.1'', (new_bucket 500 300 0)\<lparr>tokens := 0\<rparr>)]\<rparr>\<rparr>))) = 429"
proof -
  let ?s = "demo_app\<lparr>app_limiter := (new_limiter 500 300)\<lparr>buckets :=
        [(''127.0.0.1'', (new_bucket 500 300 0)\<lparr>tokens := 0\<rparr>)]\<rparr>\<rparr>"
  let ?q = "(Some (decimal (1 + 300 * 1000)), Some (presigned_signature
        (presign (\<lambda>_ _. 0) ''key'' (\<lambda>_. []) 1 ''GET'' (presigned_path ''file_01'') 300)))"
  have "verifyPresigned (\<lambda>_ _. 0) ''key'' (\<lambda>_. NaN) (\<lambda>_. []) 1 ''GET'' (presigned_path ''file_01'') ?q
      = Inr ()"
    by (subst verify_issued) simp_all
  then have sig: "verifyPresigned (hmac_of demo_platform) (secret_of demo_platform) (number_of demo_platform)
      (string_of demo_platform) (sign_now (demo_request {} [1])) ''GET'' (presigned_path ''file_01'') ?q
      = Inr ()"
    by (simp add: demo_platform_def demo_request_def)
  have alice: "client_key (fst (Some ''alice'', ''10.0.0.1'')) (snd (Some ''alice'', ''10.0.0.1'')) = ''alice''"
    by (simp add: client_key_def)
  have "fst (allow (round_of demo_platform) (limiter_clock (demo_request {} [1])) ''alice'' 1 (app_limiter ?s))"
    by (simp add: allow_def bucketFor_def tryConsume_def refill_def new_bucket_def new_limiter_def
        demo_platform_def demo_request_def Let_def)
  moreover have "''alice'' \<noteq> inject_ip demo_platform" by (simp add: demo_platform_def)
  moreover have "map_of (buckets (app_limiter ?s)) (inject_ip demo_platform)
      = Some ((new_bucket 500 300 0)\<lparr>tokens := 0\<rparr>)"
    by (simp add: demo_platform_def)
  moreover have "tokens (refill (round_of demo_platform) (snd (inject_clock (demo_request {} [1])))
      ((new_bucket 500 300 0)\<lparr>tokens := 0\<rparr>)) < 1"
    by (simp add: refill_def new_bucket_def demo_request_def demo_platform_def)
  ultimately show ?thesis
    using presigned_shared_bucket [of demo_platform "demo_request {} [1]" "(Some ''alice'', ''10.0.0.1'')" ?s,
        unfolded alice, OF _ _ _ _ sig] by simp
qed

end
